(* ===== verification/Prelude.thy ===== *)
theory Prelude
  imports Main "HOL-Library.Word" "HOL-Library.Multiset"
begin

unbundle bit_operations_syntax

text \<open>
  Shared vocabulary of the development: the machine integers and the exception values the
  C++ sources use, sequencing of fallible computations, and the generic facts on words, lists
  and multisets that the component theories rest on.
\<close>

section \<open>Machine integers and exceptions\<close>

text \<open>
  \<^verbatim>\<open>std::uint32_t\<close> is \<open>u32\<close>; \<^verbatim>\<open>std::uint64_t\<close>, \<^verbatim>\<open>std::size_t\<close> and
  \<^verbatim>\<open>std::uintptr_t\<close> (all 64 bits wide on the supported platform) are \<open>u64\<close>. Their
  operations wrap around as the hardware ones do. Signed integers, whose overflow the sources
  exclude by their own checks, are \<open>int\<close>.
\<close>

type_synonym u32 = "32 word"
type_synonym u64 = "64 word"
type_synonym u8 = "8 word"

text \<open>The standard exception a throwing branch raises; messages are not modelled.\<close>

datatype cpp_error =
    Invalid_argument
  | Logic_error
  | Out_of_range
  | Overflow_error
  | Bad_alloc
  | Runtime_error

type_synonym 'a result = "cpp_error + 'a"

definition bind_result :: "'a result \<Rightarrow> ('a \<Rightarrow> 'b result) \<Rightarrow> 'b result" where
  "bind_result m f = (case m of Inl e \<Rightarrow> Inl e | Inr x \<Rightarrow> f x)"

definition is_power_of_two :: "u64 \<Rightarrow> bool" where
  "is_power_of_two value = (value \<noteq> 0 \<and> value AND (value - 1) = 0)"

definition succeeds :: "'a result \<Rightarrow> bool" where
  "succeeds m = (case m of Inl _ \<Rightarrow> False | Inr _ \<Rightarrow> True)"

section \<open>Collections of facts\<close>

named_theorems result_simps "evaluation of fallible computations"
named_theorems word_nat "word comparisons and checked word arithmetic read as natural numbers"

lemma bind_result_Inl [simp, result_simps]: "bind_result (Inl e) f = Inl e"
  by (simp add: bind_result_def)

lemma bind_result_Inr [simp, result_simps]: "bind_result (Inr x) f = f x"
  by (simp add: bind_result_def)

lemma bind_result_eq_Inr [result_simps]:
  "bind_result m f = Inr y \<longleftrightarrow> (\<exists>x. m = Inr x \<and> f x = Inr y)"
  by (cases m) (simp_all add: bind_result_def)

lemma succeeds_simps [simp, result_simps]:
  "succeeds (Inr x)" "\<not> succeeds (Inl e)"
  by (simp_all add: succeeds_def)

lemma succeeds_iff: "succeeds m \<longleftrightarrow> (\<exists>x. m = Inr x)"
  by (cases m) simp_all

section \<open>Words as natural numbers\<close>

lemma unat_word_bound [simp]: "unat (w :: 'a :: len word) < 2 ^ LENGTH('a)"
  by (rule unsigned_less)

lemma unat_u32_bound [simp]: "unat (w :: u32) < 4294967296"
  using unat_word_bound [of w] by simp

lemma unat_u64_bound [simp]: "unat (w :: u64) < 18446744073709551616"
  using unat_word_bound [of w] by simp

lemma unat_ucast_u64 [simp]: "unat (ucast (n :: u32) :: u64) = unat n"
proof -
  have "unat n < 2 ^ 64" by (rule less_trans [OF unat_u32_bound]) simp
  then show ?thesis by (simp only: unsigned_ucast_eq) (simp add: take_bit_nat_eq_self)
qed

lemma unat_eqD: "unat v = unat w \<Longrightarrow> v = (w :: 'a :: len word)"
  by (rule unsigned_word_eqI)

lemma unat_max_word: "unat (- 1 :: 'a :: len word) = 2 ^ LENGTH('a) - 1"
  by (metis mask_eq_exp_minus_1 unsigned_minus_1_eq_mask)

text \<open>The overflow test of the sources: \<^verbatim>\<open>b > max - a\<close>.\<close>

lemma add_overflow_test [word_nat]:
  "b > - 1 - a \<longleftrightarrow> 2 ^ LENGTH('a) \<le> unat a + unat (b :: 'a :: len word)"
proof -
  have "unat (- 1 - a) = 2 ^ LENGTH('a) - 1 - unat a"
    by (simp add: unat_max_word unat_sub)
  moreover have "unat a < 2 ^ LENGTH('a)" by (rule unat_word_bound)
  ultimately show ?thesis
    unfolding word_less_nat_alt by linarith
qed

lemma unat_add_no_overflow:
  "unat a + unat b < 2 ^ LENGTH('a) \<Longrightarrow> unat (a + b) = unat a + unat (b :: 'a :: len word)"
  by (simp add: unat_add_lem)

text \<open>The overflow test of the sources for products: \<^verbatim>\<open>b != 0 && a > max / b\<close>.\<close>

lemma mult_overflow_test [word_nat]:
  "(b \<noteq> 0 \<and> a > (- 1) div b) \<longleftrightarrow> 2 ^ LENGTH('a) \<le> unat a * unat (b :: 'a :: len word)"
proof (cases "b = 0")
  case True
  then show ?thesis by simp
next
  case False
  then have b: "0 < unat b" by (simp add: unat_gt_0)
  have "a > (- 1) div b \<longleftrightarrow> (2 ^ LENGTH('a) - 1) div unat b < unat a"
    by (simp add: word_less_nat_alt unat_div unat_max_word)
  also have "\<dots> \<longleftrightarrow> 2 ^ LENGTH('a) - 1 < unat a * unat b"
    using b by (simp add: div_less_iff_less_mult)
  also have "\<dots> \<longleftrightarrow> 2 ^ LENGTH('a) \<le> unat a * unat b"
    by (metis Suc_le_eq Suc_pred' zero_less_numeral zero_less_power)
  finally show ?thesis using False by simp
qed

lemma unat_mult_no_overflow:
  "unat a * unat b < 2 ^ LENGTH('a) \<Longrightarrow> unat (a * b) = unat a * unat (b :: 'a :: len word)"
  by (simp add: unat_mult_lem)

text \<open>The range test of the sources: \<^verbatim>\<open>lead > size || n > size - lead\<close>.\<close>

lemma range_test [word_nat]:
  "(lead > sz \<or> n > sz - lead) \<longleftrightarrow> \<not> unat lead + unat n \<le> unat (sz :: 'a :: len word)"
proof (cases "lead \<le> sz")
  case True
  then show ?thesis by (auto simp: word_less_nat_alt unat_sub word_le_nat_alt)
next
  case False
  then show ?thesis by (auto simp: word_less_nat_alt word_le_nat_alt)
qed

section \<open>Integer quotients\<close>

lemma int_le_div_iff: "0 < b \<Longrightarrow> a \<le> m div b \<longleftrightarrow> a * b \<le> (m :: int)"
proof -
  assume b: "0 < b"
  show ?thesis
  proof
    assume "a \<le> m div b"
    then have "a * b \<le> m div b * b" using b by simp
    also have "\<dots> \<le> m" using b pos_mod_sign [of b m] minus_mod_eq_div_mult [of m b] by linarith
    finally show "a * b \<le> m" .
  next
    assume "a * b \<le> m"
    then have "a * b div b \<le> m div b" using b by (rule zdiv_mono1)
    then show "a \<le> m div b" using b by simp
  qed
qed

section \<open>Powers of two\<close>

lemma nat_and_pred_pow2:
  "0 < n \<Longrightarrow> n AND (n - 1) = (0 :: nat) \<Longrightarrow> \<exists>k. n = 2 ^ k"
proof (induction n rule: less_induct)
  case (less n)
  show ?case
  proof (cases "odd n")
    case True
    then have "n AND (n - 1) = 2 * ((n div 2) AND ((n - 1) div 2))"
      by (subst and_rec) simp
    moreover have "(n - 1) div 2 = n div 2" using True by presburger
    ultimately have "n div 2 = 0" using less.prems(2) by simp
    then have "n = 2 ^ 0" using True less.prems(1) by (cases "n = 1") auto
    then show ?thesis by blast
  next
    case False
    then have half: "n AND (n - 1) = 2 * ((n div 2) AND ((n - 1) div 2))"
      by (subst and_rec) simp
    have "(n - 1) div 2 = n div 2 - 1" using False less.prems(1) by presburger
    with half less.prems(2) have "n div 2 AND (n div 2 - 1) = 0" by simp
    moreover have "0 < n div 2" "n div 2 < n" using False less.prems(1) by presburger+
    ultimately obtain k where "n div 2 = 2 ^ k" using less.IH by blast
    then have "n = 2 ^ Suc k" using False by (metis dvd_mult_div_cancel power_Suc)
    then show ?thesis by blast
  qed
qed

lemma is_power_of_twoE:
  assumes "is_power_of_two a"
  obtains k where "k < 64" "unat a = 2 ^ k"
proof -
  from assms have nz: "a \<noteq> 0" and z: "unat (a AND (a - 1)) = 0"
    by (simp_all add: is_power_of_two_def)
  have "unat a AND (unat a - 1) = 0"
    using z nz by (simp add: unsigned_and_eq unat_minus_one)
  moreover have "0 < unat a" using nz by (simp add: unat_gt_0)
  ultimately obtain k where k: "unat a = 2 ^ k"
    using nat_and_pred_pow2 by blast
  have "(2::nat) ^ k < 2 ^ 64" using unat_word_bound [of a] k by simp
  then have "k < 64" by (rule power_less_imp_less_exp [rotated]) simp
  with k show ?thesis by (rule that [rotated])
qed

lemma unat_and_not_mask:
  assumes "unat a = 2 ^ k"
  shows "unat ((w :: u64) AND NOT (a - 1)) = 2 ^ k * (unat w div 2 ^ k)"
proof -
  have "k < 64"
    using assms unat_word_bound [of a] power_less_imp_less_exp [of "2::nat" k 64] by simp
  have "a = of_nat (unat a)" by simp
  then have "a = 2 ^ k" using assms by simp
  then have "w AND NOT (a - 1) = push_bit k (drop_bit k w)"
    by (intro bit_word_eqI) (auto simp: bit_simps simp flip: mask_eq_exp_minus_1)
  moreover have "unat (push_bit k (drop_bit k w)) = (unat w div 2 ^ k * 2 ^ k) mod 2 ^ 64"
    unfolding unsigned_push_bit_eq unsigned_drop_bit_eq
    unfolding push_bit_eq_mult drop_bit_eq_div take_bit_eq_mod by simp
  moreover have "2 ^ k * (unat w div 2 ^ k) < 18446744073709551616"
    using times_div_less_eq_dividend [of "2 ^ k" "unat w"] unat_u64_bound [of w] by linarith
  ultimately show ?thesis by (simp add: mult.commute)
qed

section \<open>Lists\<close>

lemma length4E:
  assumes "length xs = 4"
  obtains a b c d where "xs = [a, b, c, d]"
  using assms by (auto simp: numeral_eq_Suc length_Suc_conv)

lemma upt_split: "a \<le> b \<Longrightarrow> b \<le> c \<Longrightarrow> [a..<c] = [a..<b] @ [b..<c]"
  by (metis le_Suc_ex upt_add_eq_append)

lemma nth_in_take: "i < n \<Longrightarrow> n \<le> length xs \<Longrightarrow> xs ! i \<in> set (take n xs)"
  by (metis in_set_conv_nth length_take min_absorb2 nth_take)

section \<open>Sums over an updated list\<close>

text \<open>
  Replacing one element of a list changes a sum over it by that element's contribution only;
  the rest of the sum is one value for the old and for every new list.
\<close>

lemma sum_list_focus:
  fixes f :: "'a \<Rightarrow> 'b :: comm_monoid_add"
  assumes "i < length xs"
  obtains r where "(\<Sum>x\<leftarrow>xs. f x) = r + f (xs ! i)"
    and "\<And>y. (\<Sum>x\<leftarrow>xs[i := y]. f x) = r + f y"
proof -
  let ?r = "(\<Sum>x\<leftarrow>take i xs. f x) + (\<Sum>x\<leftarrow>drop (Suc i) xs. f x)"
  have "(\<Sum>x\<leftarrow>xs. f x) = ?r + f (xs ! i)"
    by (subst id_take_nth_drop [OF assms]) (simp add: ac_simps)
  moreover have "(\<Sum>x\<leftarrow>xs[i := y]. f x) = ?r + f y" for y
    by (simp add: upd_conv_take_nth_drop [OF assms] ac_simps)
  ultimately show ?thesis by (rule that)
qed

lemma sum_list_ge_elem:
  fixes f :: "'a \<Rightarrow> nat"
  shows "x \<in> set xs \<Longrightarrow> f x \<le> (\<Sum>x\<leftarrow>xs. f x)"
  by (induction xs) auto

text \<open>Small unsigned values read the same as signed ones.\<close>

lemma sint_small: "v \<le> 0x7FFFFFFF \<Longrightarrow> sint (v :: u32) = uint v"
proof -
  assume "v \<le> 0x7FFFFFFF"
  then have "uint v < 2 ^ 31" by (simp add: word_le_def)
  moreover have "0 \<le> uint v" by simp
  then have "- (2 ^ 31) \<le> uint v" by (rule order_trans [rotated]) simp
  ultimately show ?thesis by (simp add: sint_uint signed_take_bit_int_eq_self_iff)
qed

lemma sint_of_nat_u32: "n < 2 ^ 31 \<Longrightarrow> sint (of_nat n :: u32) = int n"
  by (simp add: sint_uint unsigned_of_nat take_bit_nat_eq_self signed_take_bit_int_eq_self_iff)

lemma word_of_int_eq_u64:
  assumes "0 \<le> x" and "x < 2 ^ 64" and "0 \<le> y" and "y < 2 ^ 64"
    and "(word_of_int x :: u64) = word_of_int y"
  shows "x = y"
proof -
  have "take_bit 64 x = take_bit 64 y" using assms(5) by (simp add: word_of_int_eq_iff)
  then show ?thesis using assms(1-4) by (simp add: take_bit_int_eq_self)
qed

end
