(* ===== verification/Bump_Allocator.thy ===== *)
theory Bump_Allocator
  imports Prelude
begin

text \<open>
  The contract shared by the three bump allocators of \<^verbatim>\<open>src/src/core\<close>: the layout builder, the
  dry-run workspace builder and the device arena. Each hands out extents above a cursor, keeps a
  high-water mark, and restores the cursor when a scope closes. The consequences that clients
  rely on (extents alive together never overlap, and none exceeds the high-water mark) are proved
  once here for allocation scripts with nested scopes.
\<close>

section \<open>Allocation scripts\<close>

text \<open>An extent is an offset and a length. A script allocates, or runs a nested scope.\<close>

type_synonym extent = "nat \<times> nat"

definition extents_disjoint :: "extent \<Rightarrow> extent \<Rightarrow> bool" where
  "extents_disjoint e f = (fst e + snd e \<le> fst f \<or> fst f + snd f \<le> fst e)"

datatype ws_op =
    Ws_Alloc u64 u64
  | Ws_Scope "ws_op list"

text \<open>
  \<open>run_ops\<close> runs a script over an allocator given by its three operations and returns, for
  every allocation, the extents alive right after it (the newest first), with the final state.
\<close>

fun run_ops ::
  "('s \<Rightarrow> u64 \<Rightarrow> u64 \<Rightarrow> (nat \<times> 's) option) \<Rightarrow> ('s \<Rightarrow> 'm) \<Rightarrow> ('s \<Rightarrow> 'm \<Rightarrow> 's) \<Rightarrow>
   's \<Rightarrow> extent list \<Rightarrow> ws_op list \<Rightarrow> (extent list list \<times> 's) option" where
  "run_ops alloc mark close s live [] = Some ([], s)"
| "run_ops alloc mark close s live (Ws_Alloc n a # ops) =
     (case alloc s n a of
        None \<Rightarrow> None
      | Some (off, s1) \<Rightarrow>
          (let live' = (off, unat n) # live in
           case run_ops alloc mark close s1 live' ops of
             None \<Rightarrow> None
           | Some (snaps, s2) \<Rightarrow> Some (live' # snaps, s2)))"
| "run_ops alloc mark close s live (Ws_Scope body # ops) =
     (case run_ops alloc mark close s live body of
        None \<Rightarrow> None
      | Some (snaps1, s1) \<Rightarrow>
          (case run_ops alloc mark close (close s1 (mark s)) live ops of
             None \<Rightarrow> None
           | Some (snaps2, s2) \<Rightarrow> Some (snaps1 @ snaps2, s2)))"

text \<open>Every allocation of the script asks for at least one byte at an admissible alignment.\<close>

fun op_ok :: "(u64 \<Rightarrow> bool) \<Rightarrow> ws_op \<Rightarrow> bool" where
  "op_ok aligned (Ws_Alloc n a) = (n \<noteq> 0 \<and> aligned a)"
| "op_ok aligned (Ws_Scope body) = list_all (op_ok aligned) body"

definition live_ok :: "nat \<Rightarrow> extent list \<Rightarrow> bool" where
  "live_ok hi live \<longleftrightarrow>
     (\<forall>e\<in>set live. fst e + snd e \<le> hi) \<and>
     (\<forall>i < length live. \<forall>j < i. extents_disjoint (live ! i) (live ! j))"

lemma live_ok_mono: "live_ok hi live \<Longrightarrow> hi \<le> hi' \<Longrightarrow> live_ok hi' live"
  by (fastforce simp: live_ok_def)

lemma live_ok_Cons:
  assumes "live_ok hi live" and "hi \<le> off"
  shows "live_ok (off + n) ((off, n) # live)"
proof -
  from assms have old: "fst e + snd e \<le> off" if "e \<in> set live" for e
    using that by (fastforce simp: live_ok_def)
  then have "extents_disjoint (live ! i) (off, n)" if "i < length live" for i
    using that by (simp add: extents_disjoint_def)
  with assms(1) old show ?thesis
    by (auto simp: live_ok_def nth_Cons' less_Suc_eq_0_disj dest: trans_le_add1)
qed

section \<open>The contract and its consequences\<close>

locale bump_allocator =
  fixes cur :: "'s \<Rightarrow> nat" and pk :: "'s \<Rightarrow> nat" and org :: "'s \<Rightarrow> nat"
    and alloc :: "'s \<Rightarrow> u64 \<Rightarrow> u64 \<Rightarrow> (nat \<times> 's) option"
    and mark :: "'s \<Rightarrow> 'm" and close :: "'s \<Rightarrow> 'm \<Rightarrow> 's"
  assumes alloc_start: "alloc s n a = Some (off, s') \<Longrightarrow> cur s \<le> off"
    and alloc_end: "alloc s n a = Some (off, s') \<Longrightarrow> cur s' = off + unat n"
    and alloc_peak: "alloc s n a = Some (off, s') \<Longrightarrow> cur s \<le> pk s \<Longrightarrow> pk s' = max (pk s) (cur s')"
    and alloc_org: "alloc s n a = Some (off, s') \<Longrightarrow> org s' = org s"
    and alloc_aligned: "alloc s n a = Some (off, s') \<Longrightarrow> n \<noteq> 0 \<Longrightarrow> unat a dvd org s + off"
    and close_cur: "cur s \<le> cur s' \<Longrightarrow> cur (close s' (mark s)) = cur s"
    and close_peak: "pk (close s' m) = pk s'"
    and close_org: "org (close s' m) = org s'"
begin

lemma run_ops_live_aux:
  assumes "run_ops al mk cl s live ops = Some (snaps, s')"
    and "al = alloc" and "mk = mark" and "cl = close"
    and "live_ok (cur s) live" and "cur s \<le> pk s"
  shows "cur s \<le> cur s' \<and> cur s' \<le> pk s' \<and> pk s \<le> pk s' \<and> org s' = org s
    \<and> (\<forall>l\<in>set snaps. live_ok (pk s') l)"
  using assms
proof (induction al mk cl s live ops arbitrary: snaps s' rule: run_ops.induct)
  case (1 al mk cl s live)
  then show ?case by simp
next
  case (2 al mk cl s live n a ops)
  from 2(2) obtain off s1 snaps' where
    a: "alloc s n a = Some (off, s1)" and
    r: "run_ops al mk cl s1 ((off, unat n) # live) ops = Some (snaps', s')" and
    sn: "snaps = ((off, unat n) # live) # snaps'"
    by (auto simp: Let_def 2(3) split: option.splits)
  have c1: "cur s1 = off + unat n" and c0: "cur s \<le> off"
    and p1: "pk s1 = max (pk s) (cur s1)" and o1: "org s1 = org s"
    using alloc_end [OF a] alloc_start [OF a] alloc_peak [OF a 2(7)] alloc_org [OF a] by auto
  have lo: "live_ok (cur s1) ((off, unat n) # live)"
    using live_ok_Cons [OF 2(6) c0] c1 by simp
  have "cur s1 \<le> cur s' \<and> cur s' \<le> pk s' \<and> pk s1 \<le> pk s' \<and> org s' = org s1
    \<and> (\<forall>l\<in>set snaps'. live_ok (pk s') l)"
    using 2(1) [OF _ refl refl] 2(3-5) a r lo p1 by auto
  then show ?case
    using c0 c1 p1 o1 sn live_ok_mono [OF lo, of "pk s'"] by auto
next
  case (3 al mk cl s live body ops)
  from 3(3) obtain sn1 s1 sn2 where
    r1: "run_ops al mk cl s live body = Some (sn1, s1)" and
    r2: "run_ops al mk cl (close s1 (mark s)) live ops = Some (sn2, s')" and
    sn: "snaps = sn1 @ sn2"
    by (auto simp: 3(5,6) split: option.splits)
  have h1: "cur s \<le> cur s1 \<and> cur s1 \<le> pk s1 \<and> pk s \<le> pk s1 \<and> org s1 = org s
    \<and> (\<forall>l\<in>set sn1. live_ok (pk s1) l)"
    using 3(1) [OF r1 3(4-8)] .
  let ?s2 = "close s1 (mark s)"
  have c2: "cur ?s2 = cur s" "pk ?s2 = pk s1" "org ?s2 = org s1"
    using h1 by (simp_all add: close_cur close_peak close_org)
  have "cur ?s2 \<le> cur s' \<and> cur s' \<le> pk s' \<and> pk ?s2 \<le> pk s' \<and> org s' = org ?s2
    \<and> (\<forall>l\<in>set sn2. live_ok (pk s') l)"
    using 3(2) [OF r1 refl] 3(4-8) r2 c2 h1 by auto
  with h1 c2 sn show ?case by (auto intro: live_ok_mono)
qed

lemmas run_ops_live = run_ops_live_aux [OF _ refl refl refl]

end

end
