(* ===== verification/Tensor_Layout.thy ===== *)
theory Tensor_Layout
  imports Bump_Allocator
begin

unbundle bit_operations_syntax

text \<open>
  The storage geometry of \<^verbatim>\<open>src/src/core\<close>: element types (\<^verbatim>\<open>dtype.cpp\<close>), strided four-dimensional
  tensors (\<^verbatim>\<open>tensor.cpp\<close>) and the checked offset builders that plan every device allocation
  (\<^verbatim>\<open>layout.cpp\<close>). Addresses and byte counts are 64-bit words; extents and strides, which the
  sources keep in signed integers behind explicit range checks, are \<open>int\<close>.
\<close>

section \<open>Element types\<close>

datatype dtype = BF16 | FP32 | I32 | U8 | I64 | I8 | FP16 | FP8_E4M3FN

fun dtype_size :: "dtype \<Rightarrow> u64" where
  "dtype_size BF16 = 2"
| "dtype_size FP32 = 4"
| "dtype_size I32 = 4"
| "dtype_size U8 = 1"
| "dtype_size I64 = 8"
| "dtype_size I8 = 1"
| "dtype_size FP16 = 2"
| "dtype_size FP8_E4M3FN = 1"

section \<open>Tensors\<close>

text \<open>The null pointer is address 0.\<close>

record tensor =
  t_data :: u64
  t_dtype :: dtype
  t_ne :: "int list"
  t_nb :: "int list"

definition i64_max :: int where
  "i64_max = 2 ^ 63 - 1"

definition checked_mul_i64 :: "int \<Rightarrow> int \<Rightarrow> int result" where
  "checked_mul_i64 a b =
     (if a < 0 \<or> b < 0 then Inl Invalid_argument
      else if b \<noteq> 0 \<and> a > i64_max div b then Inl Overflow_error
      else Inr (a * b))"

definition normalize_shape :: "int list \<Rightarrow> int list result" where
  "normalize_shape shape =
     (if length shape = 0 \<or> length shape > 4 then Inl Invalid_argument
      else if list_ex (\<lambda>dim. dim \<le> 0) shape then Inl Invalid_argument
      else Inr (shape @ replicate (4 - length shape) 1))"

fun numel_loop :: "int \<Rightarrow> int list \<Rightarrow> int result" where
  "numel_loop acc [] = Inr acc"
| "numel_loop acc (dim # dims) =
     (if dim \<le> 0 then Inl Invalid_argument
      else bind_result (checked_mul_i64 acc dim) (\<lambda>acc'. numel_loop acc' dims))"

definition shape_numel :: "int list \<Rightarrow> int result" where
  "shape_numel shape = numel_loop 1 shape"

text \<open>The loop of \<^verbatim>\<open>set_contiguous_strides\<close>: each stride is the previous one times the extent
  it spans, over the first three extents.\<close>

fun stride_loop :: "int \<Rightarrow> int list \<Rightarrow> int list result" where
  "stride_loop stride [] = Inr [stride]"
| "stride_loop stride (dim # dims) =
     bind_result (checked_mul_i64 stride dim) (\<lambda>stride'.
       bind_result (stride_loop stride' dims) (\<lambda>nb. Inr (stride # nb)))"

definition contiguous_strides :: "dtype \<Rightarrow> int list \<Rightarrow> int list result" where
  "contiguous_strides dt ne = stride_loop (uint (dtype_size dt)) (take 3 ne)"

definition make_tensor :: "u64 \<Rightarrow> dtype \<Rightarrow> int list \<Rightarrow> tensor result" where
  "make_tensor data dt shape =
     bind_result (normalize_shape shape) (\<lambda>ne.
       bind_result (contiguous_strides dt ne) (\<lambda>nb.
         Inr \<lparr>t_data = data, t_dtype = dt, t_ne = ne, t_nb = nb\<rparr>))"

definition tensor_numel :: "tensor \<Rightarrow> int result" where
  "tensor_numel t = shape_numel (t_ne t)"

definition tensor_bytes :: "tensor \<Rightarrow> u64 result" where
  "tensor_bytes t =
     bind_result (tensor_numel t) (\<lambda>elements.
       if elements < 0 \<or> elements > uint (- 1 :: u64) then Inl Overflow_error
       else (let n = word_of_int elements :: u64; elem_size = dtype_size (t_dtype t)
             in if elem_size \<noteq> 0 \<and> n > (- 1) div elem_size then Inl Overflow_error
                else Inr (n * elem_size)))"

text \<open>
  The expected stride starts at the element size and is multiplied by the extents passed over,
  so it is never negative and an overflow is the only error of the product; the source catches
  it and answers false.
\<close>

fun contiguous_loop :: "int \<Rightarrow> (int \<times> int) list \<Rightarrow> bool" where
  "contiguous_loop expected [] = True"
| "contiguous_loop expected ((n, b) # rest) =
     (if n \<le> 0 then False
      else if n \<noteq> 1 \<and> b \<noteq> expected then False
      else if rest \<noteq> [] \<and> n \<noteq> 1 then
        (case checked_mul_i64 expected n of
           Inl _ \<Rightarrow> False
         | Inr expected' \<Rightarrow> contiguous_loop expected' rest)
      else contiguous_loop expected rest)"

definition is_contiguous :: "tensor \<Rightarrow> bool" where
  "is_contiguous t = contiguous_loop (uint (dtype_size (t_dtype t))) (zip (t_ne t) (t_nb t))"

definition tensor_view :: "tensor \<Rightarrow> int list \<Rightarrow> tensor result" where
  "tensor_view t shape =
     (if \<not> is_contiguous t then Inl Invalid_argument
      else bind_result (normalize_shape shape) (\<lambda>ne.
        bind_result (shape_numel ne) (\<lambda>want.
          bind_result (tensor_numel t) (\<lambda>have_n.
            if want \<noteq> have_n then Inl Invalid_argument
            else make_tensor (t_data t) (t_dtype t) shape))))"

definition tensor_slice :: "tensor \<Rightarrow> int \<Rightarrow> int \<Rightarrow> int \<Rightarrow> tensor result" where
  "tensor_slice t dim start len =
     (if dim < 0 \<or> dim \<ge> 4 then Inl Invalid_argument
      else (let d = nat dim in
        if start < 0 \<or> len \<le> 0 \<or> start > t_ne t ! d \<or> len > t_ne t ! d - start
        then Inl Invalid_argument
        else bind_result (checked_mul_i64 start (t_nb t ! d)) (\<lambda>offset.
          Inr (t\<lparr>t_data := (if t_data t \<noteq> 0 then t_data t + word_of_int offset else 0),
                 t_ne := (t_ne t)[d := len]\<rparr>))))"

text \<open>The loop of \<^verbatim>\<open>permute\<close>: it rejects an index out of range or already seen.\<close>

fun permute_dims :: "int set \<Rightarrow> int list \<Rightarrow> int list result" where
  "permute_dims seen [] = Inr []"
| "permute_dims seen (dim # order) =
     (if dim < 0 \<or> dim \<ge> 4 \<or> dim \<in> seen then Inl Invalid_argument
      else bind_result (permute_dims (insert dim seen) order) (\<lambda>ds. Inr (dim # ds)))"

definition tensor_permute :: "tensor \<Rightarrow> int list \<Rightarrow> tensor result" where
  "tensor_permute t order =
     (if length order \<noteq> 4 then Inl Invalid_argument
      else bind_result (permute_dims {} order) (\<lambda>dims.
        Inr (t\<lparr>t_ne := map (\<lambda>d. t_ne t ! nat d) dims,
               t_nb := map (\<lambda>d. t_nb t ! nat d) dims\<rparr>)))"

section \<open>Layout regions and builders\<close>

record device_span =
  span_data :: u64
  span_bytes :: u64

record layout_region =
  lr_offset :: u64
  lr_bytes :: u64
  lr_alignment :: u64

record tensor_region =
  tr_region :: layout_region
  tr_dtype :: dtype
  tr_shape :: "int list"

definition checked_add :: "u64 \<Rightarrow> u64 \<Rightarrow> u64 result" where
  "checked_add a b = (if b > - 1 - a then Inl Overflow_error else Inr (a + b))"

definition align_up :: "u64 \<Rightarrow> u64 \<Rightarrow> u64 result" where
  "align_up v alignment =
     (if \<not> is_power_of_two alignment then Inl Invalid_argument
      else (let m = alignment - 1 in
        bind_result (checked_add v m) (\<lambda>s. Inr (s AND NOT m))))"

definition region_bind :: "layout_region \<Rightarrow> device_span \<Rightarrow> device_span result" where
  "region_bind r backing =
     (if span_data backing = 0 then Inl Invalid_argument
      else if \<not> is_power_of_two (lr_alignment r) then Inl Logic_error
      else if (span_data backing + lr_offset r) mod lr_alignment r \<noteq> 0 then Inl Invalid_argument
      else if lr_offset r > span_bytes backing
              \<or> lr_bytes r > span_bytes backing - lr_offset r then Inl Out_of_range
      else Inr \<lparr>span_data = span_data backing + lr_offset r, span_bytes = lr_bytes r\<rparr>)"

definition tensor_region_bind :: "tensor_region \<Rightarrow> device_span \<Rightarrow> tensor result" where
  "tensor_region_bind tr backing =
     bind_result (make_tensor 0 (tr_dtype tr) (tr_shape tr)) (\<lambda>expected.
       bind_result (tensor_bytes expected) (\<lambda>n.
         if n \<noteq> lr_bytes (tr_region tr) then Inl Logic_error
         else bind_result (region_bind (tr_region tr) backing) (\<lambda>span.
           make_tensor (span_data span) (tr_dtype tr) (tr_shape tr))))"

record layout_builder =
  lb_cursor :: u64
  lb_peak :: u64

definition layout_builder_init :: layout_builder where
  "layout_builder_init = \<lparr>lb_cursor = 0, lb_peak = 0\<rparr>"

definition layout_add ::
  "layout_builder \<Rightarrow> u64 \<Rightarrow> u64 \<Rightarrow> (layout_region \<times> layout_builder) result" where
  "layout_add b n alignment =
     (if n = 0 then Inl Invalid_argument
      else bind_result (align_up (lb_cursor b) alignment) (\<lambda>offset.
        bind_result (checked_add offset n) (\<lambda>cursor.
          Inr (\<lparr>lr_offset = offset, lr_bytes = n, lr_alignment = alignment\<rparr>,
               b\<lparr>lb_cursor := cursor,
                 lb_peak := (if cursor > lb_peak b then cursor else lb_peak b)\<rparr>))))"

text \<open>The region keeps the caller's shape padded with ones, as the array member does.\<close>

definition layout_add_tensor ::
  "layout_builder \<Rightarrow> dtype \<Rightarrow> int list \<Rightarrow> u64 \<Rightarrow> (tensor_region \<times> layout_builder) result" where
  "layout_add_tensor b dt shape alignment =
     bind_result (make_tensor 0 dt shape) (\<lambda>tensor.
       bind_result (tensor_bytes tensor) (\<lambda>n.
         bind_result (layout_add b n alignment) (\<lambda>(region, b').
           Inr (\<lparr>tr_region = region, tr_dtype = dt,
                 tr_shape = shape @ replicate (4 - length shape) 1\<rparr>, b'))))"

text \<open>A scope remembers the cursor when it opens and restores it when it is destroyed.\<close>

definition layout_scope :: "layout_builder \<Rightarrow> u64" where
  "layout_scope b = lb_cursor b"

definition layout_scope_close :: "layout_builder \<Rightarrow> u64 \<Rightarrow> layout_builder" where
  "layout_scope_close b saved = b\<lparr>lb_cursor := saved\<rparr>"

definition layout_finish :: "layout_builder \<Rightarrow> u64 \<Rightarrow> u64 result" where
  "layout_finish b alignment = align_up (lb_peak b) alignment"

text \<open>
  The dry-run builder. Its \<^verbatim>\<open>alloc\<close> functions store the aligned cursor before the checked
  addition, so a failing call can leave an aligned cursor behind: the builder is returned
  together with the result.
\<close>

record workspace_layout_builder =
  wl_cursor :: u64
  wl_peak :: u64

definition workspace_layout_init :: workspace_layout_builder where
  "workspace_layout_init = \<lparr>wl_cursor = 0, wl_peak = 0\<rparr>"

definition wl_bump ::
  "workspace_layout_builder \<Rightarrow> u64 \<Rightarrow> u64 \<Rightarrow> workspace_layout_builder \<times> unit result" where
  "wl_bump b n alignment =
     (case align_up (wl_cursor b) alignment of
        Inl e \<Rightarrow> (b, Inl e)
      | Inr aligned \<Rightarrow>
          (let b1 = b\<lparr>wl_cursor := aligned\<rparr> in
           case checked_add aligned n of
             Inl e \<Rightarrow> (b1, Inl e)
           | Inr cursor \<Rightarrow>
               (b1\<lparr>wl_cursor := cursor,
                   wl_peak := (if cursor > wl_peak b then cursor else wl_peak b)\<rparr>, Inr ())))"

definition wl_alloc_bytes ::
  "workspace_layout_builder \<Rightarrow> u64 \<Rightarrow> u64 \<Rightarrow> workspace_layout_builder \<times> device_span result" where
  "wl_alloc_bytes b n alignment =
     (if n = 0 then (b, Inr \<lparr>span_data = 0, span_bytes = 0\<rparr>)
      else (case wl_bump b n alignment of
              (b', Inl e) \<Rightarrow> (b', Inl e)
            | (b', Inr _) \<Rightarrow> (b', Inr \<lparr>span_data = 0, span_bytes = n\<rparr>)))"

text \<open>In \<^verbatim>\<open>alloc\<close> the byte count is computed after the cursor was aligned.\<close>

definition wl_alloc ::
  "workspace_layout_builder \<Rightarrow> dtype \<Rightarrow> int list \<Rightarrow> u64 \<Rightarrow>
     workspace_layout_builder \<times> tensor result" where
  "wl_alloc b dt shape alignment =
     (case make_tensor 0 dt shape of
        Inl e \<Rightarrow> (b, Inl e)
      | Inr tensor \<Rightarrow>
          (case align_up (wl_cursor b) alignment of
             Inl e \<Rightarrow> (b, Inl e)
           | Inr aligned \<Rightarrow>
               (case tensor_bytes tensor of
                  Inl e \<Rightarrow> (b\<lparr>wl_cursor := aligned\<rparr>, Inl e)
                | Inr n \<Rightarrow>
                    (case wl_bump b n alignment of
                       (b', Inl e) \<Rightarrow> (b', Inl e)
                     | (b', Inr _) \<Rightarrow> (b', Inr tensor)))))"

definition wl_scope :: "workspace_layout_builder \<Rightarrow> u64" where
  "wl_scope b = wl_cursor b"

definition wl_scope_close :: "workspace_layout_builder \<Rightarrow> u64 \<Rightarrow> workspace_layout_builder" where
  "wl_scope_close b saved = b\<lparr>wl_cursor := saved\<rparr>"

definition wl_peak_bytes :: "workspace_layout_builder \<Rightarrow> u64 \<Rightarrow> u64 result" where
  "wl_peak_bytes b alignment = align_up (wl_peak b) alignment"

text \<open>The builders as bump allocators: the offset a successful request is placed at.\<close>

definition layout_place :: "layout_builder \<Rightarrow> u64 \<Rightarrow> u64 \<Rightarrow> (nat \<times> layout_builder) option" where
  "layout_place b n a =
     (case layout_add b n a of
        Inl _ \<Rightarrow> None
      | Inr (r, b') \<Rightarrow> Some (unat (lr_offset r), b'))"

definition wl_place ::
  "workspace_layout_builder \<Rightarrow> u64 \<Rightarrow> u64 \<Rightarrow> (nat \<times> workspace_layout_builder) option" where
  "wl_place b n a =
     (case wl_alloc_bytes b n a of
        (_, Inl _) \<Rightarrow> None
      | (b', Inr _) \<Rightarrow> Some (unat (wl_cursor b') - unat n, b'))"

section \<open>Element addresses\<close>

text \<open>
  The byte offset of the element at a four-dimensional index, and the index range of a tensor;
  both are specification vocabulary. \<open>radix_offset\<close> is the position of an index in the
  row of all indices, first dimension fastest.
\<close>

definition elem_offset :: "tensor \<Rightarrow> int list \<Rightarrow> int" where
  "elem_offset t idx = (\<Sum>(i, b)\<leftarrow>zip idx (t_nb t). i * b)"

definition in_bounds :: "tensor \<Rightarrow> int list \<Rightarrow> bool" where
  "in_bounds t idx = list_all2 (\<lambda>i n. 0 \<le> i \<and> i < n) idx (t_ne t)"

definition tensor_rank4 :: "tensor \<Rightarrow> bool" where
  "tensor_rank4 t = (length (t_ne t) = 4 \<and> length (t_nb t) = 4)"

fun radix_offset :: "int list \<Rightarrow> int list \<Rightarrow> int" where
  "radix_offset (i # is) (n # ns) = i + n * radix_offset is ns"
| "radix_offset _ _ = 0"

section \<open>Alignment\<close>

lemma checked_add_eq_Inr:
  "checked_add a b = Inr c \<longleftrightarrow> unat a + unat b < 2 ^ 64 \<and> c = a + b"
  using add_overflow_test [of a b] by (auto simp: checked_add_def not_less)

lemma checked_add_unat: "checked_add a b = Inr c \<Longrightarrow> unat c = unat a + unat b"
  by (auto simp: checked_add_eq_Inr unat_add_no_overflow)

text \<open>\<open>align_up\<close> returns the least multiple of the alignment not below its argument, and
  fails exactly when the alignment is not a power of two or the padding overflows.\<close>

lemma align_up_unat:
  assumes "is_power_of_two a" and "unat v + (unat a - 1) < 2 ^ 64"
  shows "\<exists>r. align_up v a = Inr r \<and> unat r = unat a * ((unat v + (unat a - 1)) div unat a)"
proof -
  from assms(1) obtain k where k: "unat a = 2 ^ k" by (rule is_power_of_twoE)
  from assms(1) have "unat (a - 1) = unat a - 1"
    by (simp add: is_power_of_two_def unat_minus_one)
  then have add: "checked_add v (a - 1) = Inr (v + (a - 1))"
    and sum: "unat (v + (a - 1)) = unat v + (unat a - 1)"
    using assms(2) by (simp_all add: checked_add_eq_Inr unat_add_no_overflow)
  show ?thesis
    using assms(1) add unat_and_not_mask [OF k, of "v + (a - 1)"] sum k
    by (simp add: align_up_def Let_def)
qed

lemma align_up_eq_Inr:
  "align_up v a = Inr r \<longleftrightarrow>
     is_power_of_two a \<and> unat v + (unat a - 1) < 2 ^ 64 \<and>
     unat r = unat a * ((unat v + (unat a - 1)) div unat a)" (is "?l \<longleftrightarrow> ?r")
proof
  assume l: ?l
  then have p: "is_power_of_two a" by (auto simp: align_up_def split: if_splits)
  then have "unat (a - 1) = unat a - 1" by (simp add: is_power_of_two_def unat_minus_one)
  moreover from l p obtain s where "checked_add v (a - 1) = Inr s"
    by (auto simp: align_up_def bind_result_eq_Inr Let_def)
  ultimately have "unat v + (unat a - 1) < 2 ^ 64"
    by (simp add: checked_add_eq_Inr)
  with p l show ?r using align_up_unat [of a v] by auto
next
  assume ?r
  then obtain r' where "align_up v a = Inr r'" and "unat r' = unat r"
    using align_up_unat [of a v] by metis
  then show ?l by (auto dest: unat_eqD)
qed

lemma align_up_bounds:
  assumes "align_up v a = Inr r"
  shows "unat a dvd unat r" and "unat v \<le> unat r" and "unat r < unat v + unat a"
proof -
  from assms have p: "is_power_of_two a"
    and r: "unat r = unat a * ((unat v + (unat a - 1)) div unat a)"
    by (simp_all add: align_up_eq_Inr)
  from p have "0 < unat a" by (simp add: is_power_of_two_def unat_gt_0)
  then have "(unat v + (unat a - 1)) mod unat a < unat a" by simp
  moreover have "unat v + (unat a - 1) = unat r + (unat v + (unat a - 1)) mod unat a"
    by (simp add: r)
  ultimately show "unat v \<le> unat r" "unat r < unat v + unat a"
    using \<open>0 < unat a\<close> by linarith+
  show "unat a dvd unat r" by (simp add: r)
qed

section \<open>The builders are bump allocators\<close>

lemma layout_addE:
  assumes "layout_add b n a = Inr (r, b')"
  obtains "n \<noteq> 0" and "align_up (lb_cursor b) a = Inr (lr_offset r)"
    and "lr_bytes r = n" and "lr_alignment r = a"
    and "unat (lb_cursor b') = unat (lr_offset r) + unat n"
    and "unat (lb_peak b') = max (unat (lb_peak b)) (unat (lb_cursor b'))"
proof -
  from assms obtain off c where nz: "n \<noteq> 0" and al: "align_up (lb_cursor b) a = Inr off"
    and ad: "checked_add off n = Inr c"
    and r: "r = \<lparr>lr_offset = off, lr_bytes = n, lr_alignment = a\<rparr>"
    and b': "b' = b\<lparr>lb_cursor := c, lb_peak := (if c > lb_peak b then c else lb_peak b)\<rparr>"
    by (auto simp: layout_add_def bind_result_eq_Inr split: if_splits)
  have "unat (if c > lb_peak b then c else lb_peak b) = max (unat (lb_peak b)) (unat c)"
    by (simp add: word_less_nat_alt max_def)
  then show ?thesis
    using that nz al checked_add_unat [OF ad] by (simp add: r b')
qed

lemma layout_placeE:
  assumes "layout_place b n a = Some (off, b')"
  obtains r where "layout_add b n a = Inr (r, b')" and "off = unat (lr_offset r)"
  using assms by (auto simp: layout_place_def split: sum.splits)

interpretation lb: bump_allocator
  "\<lambda>b. unat (lb_cursor b)" "\<lambda>b. unat (lb_peak b)" "\<lambda>_. 0"
  layout_place layout_scope layout_scope_close
proof
  fix b n a off b'
  assume "layout_place b n a = Some (off, b')"
  then obtain r where "layout_add b n a = Inr (r, b')" and off: "off = unat (lr_offset r)"
    by (rule layout_placeE)
  then show "unat (lb_cursor b) \<le> off" "unat (lb_cursor b') = off + unat n"
    "unat (lb_peak b') = max (unat (lb_peak b)) (unat (lb_cursor b'))"
    "unat a dvd 0 + off"
    by (auto elim!: layout_addE dest: align_up_bounds)
qed (simp_all add: layout_scope_def layout_scope_close_def)

lemma wl_bumpE:
  assumes "wl_bump b n a = (b', Inr u)"
  obtains off where "align_up (wl_cursor b) a = Inr off"
    and "unat (wl_cursor b') = unat off + unat n"
    and "unat (wl_peak b') = max (unat (wl_peak b)) (unat (wl_cursor b'))"
proof -
  from assms obtain off c where al: "align_up (wl_cursor b) a = Inr off"
    and ad: "checked_add off n = Inr c"
    and b': "b' = b\<lparr>wl_cursor := c, wl_peak := (if c > wl_peak b then c else wl_peak b)\<rparr>"
    by (auto simp: wl_bump_def Let_def split: sum.splits)
  have "unat (if c > wl_peak b then c else wl_peak b) = max (unat (wl_peak b)) (unat c)"
    by (simp add: word_less_nat_alt max_def)
  then show ?thesis
    using that al checked_add_unat [OF ad] by (simp add: b')
qed

lemma wl_placeE:
  assumes "wl_place b n a = Some (off, b')"
  obtains "n = 0" and "b' = b" and "off = unat (wl_cursor b)"
  | w where "n \<noteq> 0" and "align_up (wl_cursor b) a = Inr w" and "off = unat w"
    and "unat (wl_cursor b') = off + unat n"
    and "unat (wl_peak b') = max (unat (wl_peak b)) (unat (wl_cursor b'))"
proof (cases "n = 0")
  case True
  with assms that(1) show ?thesis by (auto simp: wl_place_def wl_alloc_bytes_def)
next
  case False
  with assms obtain u where w: "wl_bump b n a = (b', Inr u)"
    and off: "off = unat (wl_cursor b') - unat n"
    by (auto simp: wl_place_def wl_alloc_bytes_def split: prod.splits sum.splits)
  from w show ?thesis by (rule wl_bumpE) (use False off that(2) in auto)
qed

interpretation wl: bump_allocator
  "\<lambda>b. unat (wl_cursor b)" "\<lambda>b. unat (wl_peak b)" "\<lambda>_. 0"
  wl_place wl_scope wl_scope_close
proof
  fix b n a off b'
  assume p: "wl_place b n a = Some (off, b')"
  then show "unat (wl_cursor b) \<le> off" "unat (wl_cursor b') = off + unat n"
    by (auto elim!: wl_placeE dest: align_up_bounds)
  show "unat (wl_peak b') = max (unat (wl_peak b)) (unat (wl_cursor b'))"
    if "unat (wl_cursor b) \<le> unat (wl_peak b)"
    using p that by (auto elim!: wl_placeE)
  show "unat a dvd 0 + off" if "n \<noteq> 0"
    using p that by (auto elim!: wl_placeE dest: align_up_bounds)
qed (simp_all add: wl_scope_def wl_scope_close_def)

section \<open>Tensor arithmetic\<close>

lemma checked_mul_i64_eq_Inr:
  "checked_mul_i64 a b = Inr c \<longleftrightarrow> 0 \<le> a \<and> 0 \<le> b \<and> a * b \<le> i64_max \<and> c = a * b"
proof (cases "b = 0")
  case True
  then show ?thesis by (auto simp: checked_mul_i64_def i64_max_def)
next
  case False
  have "a > i64_max div b \<longleftrightarrow> a * b > i64_max" if "0 < b"
  proof -
    have "a \<le> i64_max div b \<longleftrightarrow> a * b \<le> i64_max"
      using that by (rule int_le_div_iff)
    then show ?thesis by linarith
  qed
  with False show ?thesis by (auto simp: checked_mul_i64_def not_less)
qed

lemma numel_loop_eq_Inr:
  "0 \<le> acc \<Longrightarrow> numel_loop acc dims = Inr n \<Longrightarrow>
     n = acc * prod_list dims \<and> (\<forall>d\<in>set dims. 0 < d) \<and> (dims = [] \<or> n \<le> i64_max)"
proof (induction acc dims rule: numel_loop.induct)
  case (1 acc)
  then show ?case by simp
next
  case (2 acc dim dims)
  from 2(3) have d: "0 < dim" and m: "checked_mul_i64 acc dim = Inr (acc * dim)"
    and r: "numel_loop (acc * dim) dims = Inr n"
    by (auto simp: bind_result_eq_Inr checked_mul_i64_eq_Inr split: if_splits)
  from m have b: "acc * dim \<le> i64_max" by (simp add: checked_mul_i64_eq_Inr)
  have "n = acc * dim * prod_list dims \<and> (\<forall>d\<in>set dims. 0 < d) \<and> (dims = [] \<or> n \<le> i64_max)"
  proof (rule 2(1) [OF _ _ r])
    show "\<not> dim \<le> 0" and "0 \<le> acc * dim" using d 2(2) by simp_all
  qed
  then show ?case using d b by (cases dims) (auto simp: mult.assoc)
qed

lemma stride_loop_nth:
  "stride_loop s dims = Inr nb \<Longrightarrow>
     length nb = Suc (length dims) \<and> (\<forall>i \<le> length dims. nb ! i = s * prod_list (take i dims))"
proof (induction s dims arbitrary: nb rule: stride_loop.induct)
  case (1 s)
  then show ?case by auto
next
  case (2 s dim dims)
  from 2(2) obtain nb' where m: "checked_mul_i64 s dim = Inr (s * dim)"
    and r: "stride_loop (s * dim) dims = Inr nb'" and nb: "nb = s # nb'"
    by (auto simp: bind_result_eq_Inr checked_mul_i64_eq_Inr)
  have "length nb' = Suc (length dims) \<and> (\<forall>i \<le> length dims. nb' ! i = s * dim * prod_list (take i dims))"
    using 2(1) [OF r] .
  then show ?case by (auto simp: nb nth_Cons' take_Cons' mult.assoc)
qed

lemma normalize_shape_eq_Inr:
  "normalize_shape shape = Inr ne \<longleftrightarrow>
     shape \<noteq> [] \<and> length shape \<le> 4 \<and> (\<forall>d\<in>set shape. 0 < d) \<and>
     ne = shape @ replicate (4 - length shape) 1"
  by (auto simp: normalize_shape_def list_ex_iff not_le not_less)

lemma make_tensorE:
  assumes "make_tensor data dt shape = Inr t"
  obtains "t_data t = data" "t_dtype t = dt" "tensor_rank4 t"
    "normalize_shape shape = Inr (t_ne t)"
    "\<forall>d\<in>set (t_ne t). 0 < d"
    "contiguous_strides dt (t_ne t) = Inr (t_nb t)"
    "\<forall>i < 4. t_nb t ! i = uint (dtype_size dt) * prod_list (take i (t_ne t))"
proof -
  from assms obtain ne nb where n: "normalize_shape shape = Inr ne"
    and s: "contiguous_strides dt ne = Inr nb"
    and t: "t = \<lparr>t_data = data, t_dtype = dt, t_ne = ne, t_nb = nb\<rparr>"
    by (auto simp: make_tensor_def bind_result_eq_Inr)
  from n have ne: "length ne = 4" "\<forall>d\<in>set ne. 0 < d"
    by (auto simp: normalize_shape_eq_Inr)
  from stride_loop_nth [OF s [unfolded contiguous_strides_def]] ne
  have "length nb = 4" "\<forall>i < 4. nb ! i = uint (dtype_size dt) * prod_list (take i ne)"
    by (auto simp: min_def)
  with n s t ne that show ?thesis by (simp add: tensor_rank4_def)
qed

lemma make_tensor_rebase:
  "make_tensor d dt shape = Inr t \<Longrightarrow>
     make_tensor d' dt (shape @ replicate (4 - length shape) 1) = Inr (t\<lparr>t_data := d'\<rparr>)"
  by (auto simp: make_tensor_def bind_result_eq_Inr normalize_shape_eq_Inr)

lemma tensor_bytes_eq_Inr:
  "tensor_bytes t = Inr n \<Longrightarrow>
     t_ne t \<noteq> [] \<Longrightarrow> uint n = prod_list (t_ne t) * uint (dtype_size (t_dtype t))
     \<and> (\<forall>d\<in>set (t_ne t). 0 < d)"
proof -
  assume b: "tensor_bytes t = Inr n" and ne: "t_ne t \<noteq> []"
  let ?e = "prod_list (t_ne t)" and ?es = "dtype_size (t_dtype t)"
  let ?w = "word_of_int ?e :: u64"
  from b obtain e where l: "numel_loop 1 (t_ne t) = Inr e"
    and ov: "\<not> (?es \<noteq> 0 \<and> word_of_int e > (- 1) div ?es)" and e0: "0 \<le> e"
    and n: "n = word_of_int e * ?es"
    by (auto simp: tensor_bytes_def bind_result_eq_Inr tensor_numel_def shape_numel_def Let_def
        not_less split: if_splits)
  from numel_loop_eq_Inr [OF _ l] ne have e: "e = ?e" "e \<le> i64_max" "\<forall>d\<in>set (t_ne t). 0 < d"
    by auto
  from e(2) e0 have w: "uint ?w = ?e"
    unfolding e(1) by (simp add: uint_word_of_int i64_max_def)
  have "unat ?w * unat ?es < 2 ^ 64"
    using ov mult_overflow_test [of ?es ?w] by (simp add: e(1) not_le)
  then have "unat n = unat ?w * unat ?es"
    by (simp add: n e(1) unat_mult_no_overflow)
  then have "uint n = uint ?w * uint ?es"
    by (simp only: uint_nat of_nat_mult)
  with w e(3) show ?thesis by simp
qed

lemma radix_offset_bounds:
  "list_all2 (\<lambda>i n. 0 \<le> i \<and> i < n) is ns \<Longrightarrow>
     0 \<le> radix_offset is ns \<and> radix_offset is ns < prod_list ns"
proof (induction rule: list_all2_induct)
  case Nil
  then show ?case by simp
next
  case (Cons i "is" n ns)
  then have "0 < n" and r: "radix_offset is ns \<le> prod_list ns - 1" by auto
  then have "n * radix_offset is ns \<le> n * (prod_list ns - 1)" by simp
  then have "i + n * radix_offset is ns < n * prod_list ns"
    using Cons(1) by (simp add: algebra_simps)
  with Cons show ?case by simp
qed


lemma radix_offset_inj:
  "list_all2 (\<lambda>i n. 0 \<le> i \<and> i < n) is ns \<Longrightarrow> list_all2 (\<lambda>i n. 0 \<le> i \<and> i < n) js ns \<Longrightarrow>
     radix_offset is ns = radix_offset js ns \<Longrightarrow> is = js"
proof (induction "is" ns arbitrary: js rule: list_all2_induct)
  case Nil
  then show ?case by simp
next
  case (Cons i "is" n ns)
  from Cons(4) obtain j js' where js: "js = j # js'" and j: "0 \<le> j" "j < n"
    and l: "list_all2 (\<lambda>i n. 0 \<le> i \<and> i < n) js' ns"
    by (auto simp: list_all2_Cons2)
  have eq: "i + n * radix_offset is ns = j + n * radix_offset js' ns"
    using Cons(5) js by simp
  have "i = (i + n * radix_offset is ns) mod n" using Cons(1) by simp
  also have "\<dots> = j" using j by (simp add: eq)
  finally have "i = j" .
  moreover from this eq j have "radix_offset is ns = radix_offset js' ns" by simp
  then have "is = js'" by (rule Cons(3) [OF l])
  ultimately show ?case by (simp add: js)
qed

lemma elem_offset_radix:
  assumes "make_tensor data dt shape = Inr t" and "length idx = 4"
  shows "elem_offset t idx = uint (dtype_size dt) * radix_offset idx (t_ne t)"
proof -
  from assms(1) have r: "tensor_rank4 t"
    and nb: "\<forall>i < 4. t_nb t ! i = uint (dtype_size dt) * prod_list (take i (t_ne t))"
    by (auto elim: make_tensorE)
  from r obtain n0 n1 n2 n3 where ne: "t_ne t = [n0, n1, n2, n3]"
    by (auto simp: tensor_rank4_def elim: length4E)
  from r obtain b0 b1 b2 b3 where b: "t_nb t = [b0, b1, b2, b3]"
    by (auto simp: tensor_rank4_def elim: length4E)
  from assms(2) obtain i0 i1 i2 i3 where i: "idx = [i0, i1, i2, i3]" by (rule length4E)
  have "b0 = uint (dtype_size dt)" "b1 = uint (dtype_size dt) * n0"
    "b2 = uint (dtype_size dt) * (n0 * n1)" "b3 = uint (dtype_size dt) * (n0 * n1 * n2)"
    using nb [rule_format, of 0] nb [rule_format, of 1] nb [rule_format, of 2]
      nb [rule_format, of 3] by (simp_all add: b ne numeral_eq_Suc)
  then show ?thesis by (simp add: elem_offset_def b ne i algebra_simps)
qed

section \<open>Correctness of tensors and layouts\<close>

text \<open>
  C39: Every element of a contiguous tensor lies inside the tensor's byte size. For each index
  within the extents the byte offset given by the strides is not negative and the element ends
  at or before \<^verbatim>\<open>bytes()\<close>; different indices have different offsets.
\<close>

theorem tensor_elements_in_bytes:
  assumes "make_tensor data dt shape = Inr t" and "tensor_bytes t = Inr n"
    and "in_bounds t idx"
  shows "0 \<le> elem_offset t idx
    \<and> elem_offset t idx + uint (dtype_size dt) \<le> uint n
    \<and> (in_bounds t idx' \<and> elem_offset t idx = elem_offset t idx' \<longrightarrow> idx = idx')"
proof (intro conjI impI)
  let ?es = "uint (dtype_size dt)"
  have es: "0 < ?es" by (cases dt) simp_all
  from assms(1) have r4: "length (t_ne t) = 4" and dt: "t_dtype t = dt"
    by (auto elim!: make_tensorE simp: tensor_rank4_def)
  then have "t_ne t \<noteq> []" by auto
  with assms(2) dt have n: "uint n = prod_list (t_ne t) * ?es"
    using tensor_bytes_eq_Inr by auto
  have off: "elem_offset t i = ?es * radix_offset i (t_ne t)" if "in_bounds t i" for i
    using elem_offset_radix [OF assms(1), of i] that r4
    by (auto simp: in_bounds_def dest: list_all2_lengthD)
  have b: "0 \<le> radix_offset idx (t_ne t)" "radix_offset idx (t_ne t) + 1 \<le> prod_list (t_ne t)"
    using radix_offset_bounds [of idx "t_ne t"] assms(3) by (simp_all add: in_bounds_def)
  show "0 \<le> elem_offset t idx" using b es by (simp add: off [OF assms(3)])
  have "?es * (radix_offset idx (t_ne t) + 1) \<le> ?es * prod_list (t_ne t)"
    using b(2) es by (simp only: mult_le_cancel_left_pos)
  then show "elem_offset t idx + ?es \<le> uint n"
    by (simp add: n off [OF assms(3)] algebra_simps)
  show "idx = idx'" if "in_bounds t idx' \<and> elem_offset t idx = elem_offset t idx'"
    using that es assms(3) radix_offset_inj [of idx "t_ne t" idx'] off [of idx] off [of idx']
    by (simp add: in_bounds_def)
qed

theorem tensor_elements_in_bytes_witness:
  "0 \<le> elem_offset \<lparr>t_data = 4096, t_dtype = BF16, t_ne = [3, 5, 1, 1], t_nb = [2, 6, 30, 30]\<rparr> [2, 4, 0, 0] \<and> elem_offset \<lparr>t_data = 4096, t_dtype = BF16, t_ne = [3, 5, 1, 1], t_nb = [2, 6, 30, 30]\<rparr> [2, 4, 0, 0] + 2 \<le> uint (30 :: u64)"
proof -
  have t: "make_tensor 4096 BF16 [3, 5] = Inr \<lparr>t_data = 4096, t_dtype = BF16, t_ne = [3, 5, 1, 1], t_nb = [2, 6, 30, 30]\<rparr>" and n: "tensor_bytes \<lparr>t_data = 4096, t_dtype = BF16, t_ne = [3, 5, 1, 1], t_nb = [2, 6, 30, 30]\<rparr> = Inr 30" by code_simp+
  have "in_bounds \<lparr>t_data = 4096, t_dtype = BF16, t_ne = [3, 5, 1, 1], t_nb = [2, 6, 30, 30]\<rparr> [2, 4, 0, 0]" by (simp add: in_bounds_def)
  from tensor_elements_in_bytes [OF t n this, of "[0, 0, 0, 0]"] show ?thesis by simp
qed

text \<open>
  A slice addresses the elements it claims to. Every in-range index of the slice denotes,
  through the slice's base pointer and strides, the same address as the original tensor gives
  for that index shifted by the slice start along the sliced dimension, which is in range there.
\<close>

theorem tensor_slice_addresses:
  assumes "tensor_slice t dim start len = Inr s" and "tensor_rank4 t" and "t_data t \<noteq> 0"
    and "in_bounds s idx"
  shows "in_bounds t (idx[nat dim := idx ! nat dim + start])
    \<and> t_data s + word_of_int (elem_offset s idx)
        = t_data t + word_of_int (elem_offset t (idx[nat dim := idx ! nat dim + start]))"
proof
  define idx' where "idx' = idx[nat dim := idx ! nat dim + start]"
  from assms(1,3) have d: "0 \<le> dim" "dim < 4" "0 \<le> start" "0 < len"
    "len \<le> t_ne t ! nat dim - start"
    and s: "s = t\<lparr>t_data := t_data t + word_of_int (start * t_nb t ! nat dim),
                 t_ne := (t_ne t)[nat dim := len]\<rparr>"
    by (auto simp: tensor_slice_def Let_def bind_result_eq_Inr checked_mul_i64_eq_Inr
        split: if_splits)
  from assms(2) obtain n0 n1 n2 n3 b0 b1 b2 b3 where ne: "t_ne t = [n0, n1, n2, n3]"
    and nb: "t_nb t = [b0, b1, b2, b3]"
    by (auto simp: tensor_rank4_def elim!: length4E)
  have "length idx = 4"
    using list_all2_lengthD [OF assms(4) [unfolded in_bounds_def]] assms(2)
    by (simp add: s tensor_rank4_def)
  then obtain i0 i1 i2 i3 where i: "idx = [i0, i1, i2, i3]" by (rule length4E)
  have "nat dim \<in> {0, 1, 2, 3}" using d by auto
  then show "in_bounds t (idx[nat dim := idx ! nat dim + start])"
    unfolding idx'_def [symmetric] using assms(4) d by (auto simp: in_bounds_def s ne i idx'_def)
  have "elem_offset t idx' = elem_offset s idx + start * t_nb t ! nat dim"
    using \<open>nat dim \<in> {0, 1, 2, 3}\<close>
    by (auto simp: elem_offset_def idx'_def i nb s algebra_simps)
  then show "t_data s + word_of_int (elem_offset s idx)
      = t_data t + word_of_int (elem_offset t (idx[nat dim := idx ! nat dim + start]))"
    unfolding idx'_def [symmetric] by (simp add: s)
qed

theorem tensor_slice_addresses_witness:
  "(4108 :: u64) + word_of_int (elem_offset \<lparr>t_data = 4108, t_dtype = BF16, t_ne = [3, 3, 1, 1], t_nb = [2, 6, 30, 30]\<rparr> [1, 2, 0, 0])
     = 4096 + word_of_int (elem_offset \<lparr>t_data = 4096, t_dtype = BF16, t_ne = [3, 5, 1, 1], t_nb = [2, 6, 30, 30]\<rparr> [1, 4, 0, 0])"
proof -
  have s: "tensor_slice \<lparr>t_data = 4096, t_dtype = BF16, t_ne = [3, 5, 1, 1], t_nb = [2, 6, 30, 30]\<rparr> 1 2 3 = Inr \<lparr>t_data = 4108, t_dtype = BF16, t_ne = [3, 3, 1, 1], t_nb = [2, 6, 30, 30]\<rparr>" by code_simp
  have r: "tensor_rank4 \<lparr>t_data = 4096, t_dtype = BF16, t_ne = [3, 5, 1, 1], t_nb = [2, 6, 30, 30]\<rparr>" "t_data \<lparr>t_data = 4096, t_dtype = BF16, t_ne = [3, 5, 1, 1], t_nb = [2, 6, 30, 30]\<rparr> \<noteq> 0" "in_bounds \<lparr>t_data = 4108, t_dtype = BF16, t_ne = [3, 3, 1, 1], t_nb = [2, 6, 30, 30]\<rparr> [1, 2, 0, 0]"
    by (simp_all add: tensor_rank4_def in_bounds_def)
  from tensor_slice_addresses [OF s r] show ?thesis by simp
qed

text \<open>
  C38: A planned tensor binds. When \<^verbatim>\<open>add_tensor\<close> has planned a region and the backing span is
  non-null, aligned for the region, large enough for the builder's cursor and does not wrap,
  then binding the region succeeds and gives exactly the contiguous tensor of the planned type
  and shape at the planned offset, wholly inside the planned prefix of the span.
\<close>

theorem layout_tensor_plan_bind:
  assumes "layout_add_tensor b dt shape a = Inr (tr, b')"
    and "span_data backing \<noteq> 0" and "unat a dvd unat (span_data backing)"
    and "unat (lb_cursor b') \<le> unat (span_bytes backing)"
    and "unat (span_data backing) + unat (span_bytes backing) < 2 ^ 64"
  shows "\<exists>t. tensor_region_bind tr backing = Inr t \<and>
     make_tensor (span_data backing + lr_offset (tr_region tr)) dt shape = Inr t \<and>
     tensor_bytes t = Inr (lr_bytes (tr_region tr)) \<and>
     unat (t_data t) + unat (lr_bytes (tr_region tr)) \<le>
       unat (span_data backing) + unat (lb_cursor b')"
proof -
  let ?r = "tr_region tr"
  from assms(1) obtain t n where t: "make_tensor 0 dt shape = Inr t" and n: "tensor_bytes t = Inr n"
    and add: "layout_add b n a = Inr (?r, b')" and dt: "tr_dtype tr = dt"
    and sh: "tr_shape tr = shape @ replicate (4 - length shape) 1"
    by (auto simp: layout_add_tensor_def bind_result_eq_Inr)
  from add have al: "align_up (lb_cursor b) a = Inr (lr_offset ?r)"
    and r: "lr_bytes ?r = n" "lr_alignment ?r = a"
    and c: "unat (lb_cursor b') = unat (lr_offset ?r) + unat n"
    by (auto elim: layout_addE)
  from al have p2: "is_power_of_two a" by (simp add: align_up_eq_Inr)
  let ?d = "span_data backing + lr_offset ?r"
  have d: "unat ?d = unat (span_data backing) + unat (lr_offset ?r)"
    using assms(4,5) c by (intro unat_add_no_overflow) simp
  have "unat (?d mod a) = 0"
    using assms(3) align_up_bounds(1) [OF al] by (simp add: unat_mod d)
  then have m: "?d mod a = 0" by (simp add: unat_eq_0)
  have bind: "region_bind ?r backing = Inr \<lparr>span_data = ?d, span_bytes = n\<rparr>"
    using assms(2,4) p2 m c by (simp add: region_bind_def r word_less_nat_alt unat_sub word_le_nat_alt)
  let ?t = "t\<lparr>t_data := ?d\<rparr>"
  have "make_tensor ?d dt (tr_shape tr) = Inr ?t" "make_tensor 0 dt (tr_shape tr) = Inr (t\<lparr>t_data := 0\<rparr>)"
    using make_tensor_rebase [OF t] by (simp_all add: sh)
  moreover have bytes: "tensor_bytes (t\<lparr>t_data := x\<rparr>) = Inr n" for x
    using n by (simp add: tensor_bytes_def tensor_numel_def Let_def cong: if_cong)
  moreover have "make_tensor ?d dt shape = Inr ?t"
    using t by (auto simp: make_tensor_def bind_result_eq_Inr)
  ultimately show ?thesis
    using bind r d c by (intro exI [of _ ?t]) (simp add: tensor_region_bind_def dt)
qed

theorem layout_tensor_plan_bind_witness:
  "\<exists>t. tensor_region_bind \<lparr>tr_region = \<lparr>lr_offset = 128, lr_bytes = 30, lr_alignment = 64\<rparr>,
          tr_dtype = BF16, tr_shape = [3, 5, 1, 1]\<rparr> \<lparr>span_data = 4096, span_bytes = 512\<rparr> = Inr t \<and>
     t_data t = 4224"
proof -
  let ?tr = "\<lparr>tr_region = \<lparr>lr_offset = 128, lr_bytes = 30, lr_alignment = 64\<rparr>,
          tr_dtype = BF16, tr_shape = [3, 5, 1, 1]\<rparr>"
  let ?sp = "\<lparr>span_data = 4096, span_bytes = 512\<rparr> :: device_span"
  let ?b' = "\<lparr>lb_cursor = 158, lb_peak = 158\<rparr> :: layout_builder"
  have add: "layout_add_tensor \<lparr>lb_cursor = 100, lb_peak = 100\<rparr> BF16 [3, 5] 64 = Inr (?tr, ?b')"
    by code_simp
  have "span_data ?sp \<noteq> 0" "unat (64 :: u64) dvd unat (span_data ?sp)"
    "unat (lb_cursor ?b') \<le> unat (span_bytes ?sp)"
    "unat (span_data ?sp) + unat (span_bytes ?sp) < 2 ^ 64" by simp_all
  from layout_tensor_plan_bind [OF add this] show ?thesis by (auto elim!: make_tensorE)
qed

end
