(* ===== verification/Device_Arena.thy ===== *)
theory Device_Arena
  imports Tensor_Layout
begin

text \<open>
  The device arena of \<^verbatim>\<open>src/src/core/arena.cu\<close>, its agreement with the dry-run builder of
  \<^verbatim>\<open>layout.cpp\<close>, and the per-request transient memory of
  \<^verbatim>\<open>src/src/runtime/engine/request_memory.cpp\<close>. Obtaining the backing storage from the
  driver is outside the model: an arena starts from a base address and a capacity.
\<close>

unbundle bit_operations_syntax

section \<open>The arena\<close>

record device_arena =
  da_base :: u64
  da_cap :: u64
  da_off :: u64
  da_peak :: u64

definition checked_add_uintptr :: "u64 \<Rightarrow> u64 \<Rightarrow> u64 result" where
  "checked_add_uintptr a b = (if b > - 1 - a then Inl Overflow_error else Inr (a + b))"

definition align_up_addr :: "u64 \<Rightarrow> u64 \<Rightarrow> u64 result" where
  "align_up_addr addr align =
     (let m = align - 1 in
      bind_result (checked_add_uintptr addr m) (\<lambda>with_mask. Inr (with_mask AND NOT m)))"

text \<open>The arena over borrowed storage; null or empty storage is refused.\<close>

definition device_arena_of_span :: "device_span \<Rightarrow> device_arena result" where
  "device_arena_of_span storage =
     (if span_data storage = 0 \<or> span_bytes storage = 0 then Inl Invalid_argument
      else Inr \<lparr>da_base = span_data storage, da_cap = span_bytes storage, da_off = 0, da_peak = 0\<rparr>)"

definition arena_alloc_bytes ::
  "device_arena \<Rightarrow> u64 \<Rightarrow> u64 \<Rightarrow> (device_span \<times> device_arena) result" where
  "arena_alloc_bytes ar n align =
     (if da_base ar = 0 then Inl Runtime_error
      else if \<not> is_power_of_two align then Inl Invalid_argument
      else if n = 0 then Inl Invalid_argument
      else bind_result (checked_add_uintptr (da_base ar) (da_off ar)) (\<lambda>current_addr.
        bind_result (align_up_addr current_addr align) (\<lambda>aligned_addr.
          let aligned_offset = aligned_addr - da_base ar in
          if aligned_offset > - 1 then Inl Overflow_error
          else if n > - 1 - aligned_offset then Inl Overflow_error
          else (let end_offset = aligned_offset + n in
            if end_offset > da_cap ar then Inl Bad_alloc
            else Inr (\<lparr>span_data = da_base ar + aligned_offset, span_bytes = n\<rparr>,
                      ar\<lparr>da_off := end_offset,
                         da_peak := (if end_offset > da_peak ar then end_offset else da_peak ar)\<rparr>)))))"

definition arena_alloc ::
  "device_arena \<Rightarrow> dtype \<Rightarrow> int list \<Rightarrow> u64 \<Rightarrow> (tensor \<times> device_arena) result" where
  "arena_alloc ar dt shape align =
     bind_result (make_tensor 0 dt shape) (\<lambda>view.
       bind_result (tensor_bytes view) (\<lambda>n.
         bind_result (arena_alloc_bytes ar n align) (\<lambda>(storage, ar').
           bind_result (make_tensor (span_data storage) dt shape) (\<lambda>t. Inr (t, ar')))))"

definition arena_scope :: "device_arena \<Rightarrow> u64" where
  "arena_scope ar = da_off ar"

definition arena_scope_close :: "device_arena \<Rightarrow> u64 \<Rightarrow> device_arena" where
  "arena_scope_close ar saved = (if saved \<le> da_off ar then ar\<lparr>da_off := saved\<rparr> else ar)"

definition arena_reset :: "device_arena \<Rightarrow> device_arena" where
  "arena_reset ar = ar\<lparr>da_off := 0\<rparr>"

definition arena_reset_peak :: "device_arena \<Rightarrow> device_arena" where
  "arena_reset_peak ar = ar\<lparr>da_peak := da_off ar\<rparr>"

text \<open>The arena as a bump allocator: offsets are relative to its base.\<close>

definition arena_place :: "device_arena \<Rightarrow> u64 \<Rightarrow> u64 \<Rightarrow> (nat \<times> device_arena) option" where
  "arena_place ar n a =
     (case arena_alloc_bytes ar n a of
        Inl _ \<Rightarrow> None
      | Inr (sp, ar') \<Rightarrow> Some (unat (span_data sp - da_base ar), ar'))"

section \<open>Request transient memory\<close>

record request_memory =
  rm_capacity :: "u64 option"
  rm_active_bytes :: u64
  rm_active_alignment :: u64
  rm_peak_bytes :: u64

definition rm_deactivate :: "request_memory \<Rightarrow> request_memory" where
  "rm_deactivate rm = rm\<lparr>rm_active_bytes := 0, rm_active_alignment := 1\<rparr>"

definition kDeviceAllocationAlignment :: u64 where
  "kDeviceAllocationAlignment = 256"

definition rm_activate :: "request_memory \<Rightarrow> u64 \<Rightarrow> u64 \<Rightarrow> request_memory result" where
  "rm_activate rm n alignment =
     (if n = 0 then
        (if alignment \<noteq> 1 then Inl Invalid_argument else Inr (rm_deactivate rm))
      else if \<not> is_power_of_two alignment \<or> alignment > kDeviceAllocationAlignment
      then Inl Invalid_argument
      else (case rm_capacity rm of
              None \<Rightarrow> Inl Invalid_argument
            | Some cap \<Rightarrow>
                if n > cap then Inl Invalid_argument
                else Inr (rm\<lparr>rm_active_bytes := n, rm_active_alignment := alignment,
                             rm_peak_bytes := max (rm_peak_bytes rm) n\<rparr>)))"

definition rm_reset_peak :: "request_memory \<Rightarrow> request_memory" where
  "rm_reset_peak rm = rm\<lparr>rm_peak_bytes := rm_active_bytes rm\<rparr>"

text \<open>An allocation script with a nested scope, used as an instance below.\<close>

definition demo_ops :: "ws_op list" where
  "demo_ops = [Ws_Alloc 100 256, Ws_Scope [Ws_Alloc 10 64, Ws_Alloc 3 8], Ws_Alloc 5 16]"

section \<open>The arena is a bump allocator\<close>

lemma checked_add_uintptr_eq: "checked_add_uintptr a b = checked_add a b"
  by (simp add: checked_add_uintptr_def checked_add_def)

lemma align_up_addr_eq:
  "is_power_of_two a \<Longrightarrow> align_up_addr v a = align_up v a"
  by (simp add: align_up_addr_def align_up_def checked_add_uintptr_eq)

lemma arena_alloc_bytesE:
  assumes "arena_alloc_bytes ar n a = Inr (sp, ar')"
  obtains w off where "n \<noteq> 0" and "da_base ar \<noteq> 0"
    and "unat (da_base ar) + unat (da_off ar) < 2 ^ 64"
    and "align_up (da_base ar + da_off ar) a = Inr w"
    and "off = w - da_base ar" and "unat w = unat (da_base ar) + unat off"
    and "unat (da_off ar) \<le> unat off" and "unat off + unat n \<le> unat (da_cap ar)"
    and "sp = \<lparr>span_data = w, span_bytes = n\<rparr>"
    and "ar' = ar\<lparr>da_off := off + n, da_peak := max (da_peak ar) (off + n)\<rparr>"
    and "unat (off + n) = unat off + unat n"
proof -
  from assms have nz: "n \<noteq> 0" "da_base ar \<noteq> 0" and p2: "is_power_of_two a"
    by (auto simp: arena_alloc_bytes_def split: if_splits)
  with assms obtain w where sum: "unat (da_base ar) + unat (da_off ar) < 2 ^ 64"
    and al: "align_up (da_base ar + da_off ar) a = Inr w"
    and ov: "\<not> n > - 1 - (w - da_base ar)" and fit: "\<not> (w - da_base ar) + n > da_cap ar"
    and sp: "sp = \<lparr>span_data = w, span_bytes = n\<rparr>"
    and ar': "ar' = ar\<lparr>da_off := (w - da_base ar) + n,
       da_peak := (if (w - da_base ar) + n > da_peak ar then (w - da_base ar) + n else da_peak ar)\<rparr>"
    by (auto simp: arena_alloc_bytes_def bind_result_eq_Inr checked_add_uintptr_eq
        checked_add_eq_Inr align_up_addr_eq Let_def not_less split: if_splits)
  let ?off = "w - da_base ar"
  have "unat (da_base ar) + unat (da_off ar) \<le> unat w"
    using align_up_bounds(2) [OF al] sum by (simp add: unat_add_no_overflow)
  then have w: "unat w = unat (da_base ar) + unat ?off" "unat (da_off ar) \<le> unat ?off"
    by (simp_all add: unat_sub word_le_nat_alt)
  have e: "unat (?off + n) = unat ?off + unat n"
    using ov add_overflow_test [of ?off n] by (intro unat_add_no_overflow) simp
  have pk: "(if ?off + n > da_peak ar then ?off + n else da_peak ar) = max (da_peak ar) (?off + n)"
    by (auto simp: max_def)
  show ?thesis
    by (rule that [OF nz sum al refl w _ sp _ e])
      (use fit e ar' pk in \<open>simp_all add: word_less_nat_alt\<close>)
qed

lemma unat_max: "unat (max a b) = max (unat a) (unat (b :: u64))"
  by (simp add: max_def word_le_nat_alt)

lemma arena_placeE:
  assumes "arena_place ar n a = Some (off, ar')"
  obtains sp where "arena_alloc_bytes ar n a = Inr (sp, ar')"
    and "off = unat (span_data sp - da_base ar)"
  using assms by (auto simp: arena_place_def split: sum.splits)

interpretation da: bump_allocator
  "\<lambda>ar. unat (da_off ar)" "\<lambda>ar. unat (da_peak ar)" "\<lambda>ar. unat (da_base ar)"
  arena_place arena_scope arena_scope_close
proof
  fix ar n a off ar'
  assume "arena_place ar n a = Some (off, ar')"
  then obtain sp where al: "arena_alloc_bytes ar n a = Inr (sp, ar')"
    and off: "off = unat (span_data sp - da_base ar)"
    by (rule arena_placeE)
  from al show "unat (da_off ar) \<le> off" "unat (da_off ar') = off + unat n"
    "unat (da_peak ar') = max (unat (da_peak ar)) (unat (da_off ar'))"
    "unat (da_base ar') = unat (da_base ar)"
    by (auto elim!: arena_alloc_bytesE simp: off unat_max)
  from al show "unat a dvd unat (da_base ar) + off"
    by (auto elim!: arena_alloc_bytesE simp: off dest: align_up_bounds(1))
qed (auto simp: arena_scope_def arena_scope_close_def word_le_nat_alt)

section \<open>The dry run predicts the arena\<close>

lemma pow2_le_dvd_256:
  assumes "is_power_of_two a" and "a \<le> 256"
  shows "unat a dvd 256"
proof -
  from assms(1) obtain k where k: "unat a = 2 ^ k" by (rule is_power_of_twoE)
  from assms(2) have "unat a \<le> 256" by (simp add: word_le_nat_alt)
  then have "(2::nat) ^ k \<le> 2 ^ 8" by (simp add: k)
  then have "k \<le> 8" by (rule power_le_imp_le_exp [rotated]) simp
  then have "(2::nat) ^ k dvd 2 ^ 8" by (rule le_imp_power_dvd)
  then show ?thesis by (simp add: k)
qed

text \<open>Aligning an address in an aligned base is aligning its offset.\<close>

lemma align_up_shift:
  assumes "align_up v a = Inr r" and "unat a dvd unat base"
    and "unat base + unat v + unat a \<le> 2 ^ 64"
  shows "align_up (base + v) a = Inr (base + r)"
proof -
  from assms(1) have p2: "is_power_of_two a"
    and r: "unat r = unat a * ((unat v + (unat a - 1)) div unat a)"
    by (simp_all add: align_up_eq_Inr)
  then have a0: "0 < unat a" by (simp add: is_power_of_two_def unat_gt_0)
  from assms(2) obtain q where q: "unat base = unat a * q" by blast
  have bv: "unat (base + v) = unat base + unat v"
    using assms(3) a0 by (intro unat_add_no_overflow) simp
  have "unat base + unat r < 2 ^ 64"
    using align_up_bounds(3) [OF assms(1)] assms(3) by simp
  then have br: "unat (base + r) = unat base + unat r"
    by (intro unat_add_no_overflow) simp
  have "unat a * ((unat base + unat v + (unat a - 1)) div unat a)
      = unat a * (q + (unat v + (unat a - 1)) div unat a)"
    using a0 div_mult_self1 [of "unat a" "unat v + (unat a - 1)" q]
    by (simp only: q add.assoc) (simp add: ac_simps)
  then have "unat (base + r) = unat a * ((unat (base + v) + (unat a - 1)) div unat a)"
    by (simp add: br bv r q distrib_left)
  then show ?thesis
    using p2 assms(3) a0 by (simp add: align_up_eq_Inr bv)
qed

lemma dry_run_step:
  assumes "wl_place b n a = Some (off, b1)" and "n \<noteq> 0" and "a \<le> 256"
    and "256 dvd unat (da_base ar)" and "da_base ar \<noteq> 0"
    and "unat (da_base ar) + unat (da_cap ar) + 256 \<le> 2 ^ 64"
    and "unat (wl_cursor b1) \<le> unat (da_cap ar)"
    and "da_off ar = wl_cursor b" and "da_peak ar = wl_peak b"
  shows "\<exists>ar1. arena_place ar n a = Some (off, ar1) \<and> da_base ar1 = da_base ar
    \<and> da_cap ar1 = da_cap ar \<and> da_off ar1 = wl_cursor b1 \<and> da_peak ar1 = wl_peak b1"
proof -
  from assms(1,2) obtain w where al: "align_up (wl_cursor b) a = Inr w" and off: "off = unat w"
    and c1: "unat (wl_cursor b1) = off + unat n"
    and p1: "unat (wl_peak b1) = max (unat (wl_peak b)) (unat (wl_cursor b1))"
    by (auto elim: wl_placeE)
  from al have p2: "is_power_of_two a" by (simp add: align_up_eq_Inr)
  have "unat a dvd unat (da_base ar)"
    using pow2_le_dvd_256 [OF p2 assms(3)] assms(4) by (rule dvd_trans)
  moreover have a256: "unat a \<le> 256" using assms(3) by (simp add: word_le_nat_alt)
  moreover have cw: "unat (wl_cursor b) \<le> unat w" by (rule align_up_bounds(2) [OF al])
  ultimately have al': "align_up (da_base ar + da_off ar) a = Inr (da_base ar + w)"
    using al assms(6,7) c1 by (intro align_up_shift) (simp_all add: assms(8) off)
  have "unat (w + n) = unat w + unat n"
    using c1 unat_word_bound [of "wl_cursor b1"] by (intro unat_add_no_overflow) (simp add: off)
  with c1 off have wn: "w + n = wl_cursor b1" by (intro unat_eqD) simp
  have pk: "(if wl_cursor b1 > wl_peak b then wl_cursor b1 else wl_peak b) = wl_peak b1"
    using p1 by (intro unat_eqD) (simp add: word_less_nat_alt max_def)
  have fit: "\<not> wl_cursor b1 > da_cap ar" using assms(7) by (simp add: word_less_nat_alt)
  have no: "\<not> n > - 1 - w"
    using add_overflow_test [of w n] c1 off unat_word_bound [of "wl_cursor b1"] by simp
  have sum: "checked_add (da_base ar) (da_off ar) = Inr (da_base ar + da_off ar)"
    using assms(6,7) c1 cw off by (simp add: checked_add_eq_Inr assms(8))
  have "arena_alloc_bytes ar n a = Inr (\<lparr>span_data = da_base ar + w, span_bytes = n\<rparr>,
      ar\<lparr>da_off := wl_cursor b1, da_peak := wl_peak b1\<rparr>)"
    using assms(2,5,9) p2 sum al' no wn pk fit
    by (auto simp: arena_alloc_bytes_def checked_add_uintptr_eq align_up_addr_eq Let_def
        leD [OF max_word_max] split: if_splits)
  then show ?thesis by (simp add: arena_place_def off)
qed

lemma dry_run_aux:
  assumes "run_ops al mk cl b live ops = Some (snaps, b')"
    and "al = wl_place" and "mk = wl_scope" and "cl = wl_scope_close"
    and "list_all (op_ok (\<lambda>a. a \<le> 256)) ops"
    and "live_ok (unat (wl_cursor b)) live" and "unat (wl_cursor b) \<le> unat (wl_peak b)"
    and "256 dvd unat (da_base ar)" and "da_base ar \<noteq> 0"
    and "unat (da_base ar) + unat (da_cap ar) + 256 \<le> 2 ^ 64"
    and "unat (wl_peak b') \<le> unat (da_cap ar)"
    and "da_off ar = wl_cursor b" and "da_peak ar = wl_peak b"
  shows "\<exists>ar'. run_ops arena_place arena_scope arena_scope_close ar live ops = Some (snaps, ar')
    \<and> da_base ar' = da_base ar \<and> da_cap ar' = da_cap ar
    \<and> da_off ar' = wl_cursor b' \<and> da_peak ar' = wl_peak b'"
  using assms
proof (induction al mk cl b live ops arbitrary: snaps b' ar rule: run_ops.induct)
  case (1 al mk cl b live)
  then show ?case by simp
next
  case (2 al mk cl b live n a ops)
  note fixed = 2(3-5) and ok = 2(6) and inv = 2(7,8) and base = 2(9-11)
  from 2(2) obtain off b1 snaps' where
    p: "wl_place b n a = Some (off, b1)" and
    r: "run_ops wl_place wl_scope wl_scope_close b1 ((off, unat n) # live) ops = Some (snaps', b')" and
    sn: "snaps = ((off, unat n) # live) # snaps'"
    by (auto simp: Let_def fixed split: option.splits)
  have c1: "unat (wl_cursor b1) = off + unat n" "unat (wl_cursor b) \<le> off"
    and pk1: "unat (wl_cursor b1) \<le> unat (wl_peak b1)"
    using wl.alloc_end [OF p] wl.alloc_start [OF p] wl.alloc_peak [OF p inv(2)] by auto
  have l1: "live_ok (unat (wl_cursor b1)) ((off, unat n) # live)"
    using live_ok_Cons [OF inv(1) c1(2)] c1(1) by simp
  have "unat (wl_peak b1) \<le> unat (wl_peak b')"
    using wl.run_ops_live [OF r l1 pk1] by simp
  then have fit: "unat (wl_cursor b1) \<le> unat (da_cap ar)" using pk1 2(12) by linarith
  from ok have "n \<noteq> 0" "a \<le> 256" by simp_all
  from dry_run_step [OF p this base fit 2(13,14)] obtain ar1 where
    a1: "arena_place ar n a = Some (off, ar1)" and
    s1: "da_base ar1 = da_base ar" "da_cap ar1 = da_cap ar" "da_off ar1 = wl_cursor b1"
      "da_peak ar1 = wl_peak b1" by auto
  have "\<exists>ar'. run_ops arena_place arena_scope arena_scope_close ar1 ((off, unat n) # live) ops
      = Some (snaps', ar') \<and> da_base ar' = da_base ar1 \<and> da_cap ar' = da_cap ar1
      \<and> da_off ar' = wl_cursor b' \<and> da_peak ar' = wl_peak b'"
    using 2(1) [OF _ refl refl, of off b1 snaps' b' ar1] p r fixed ok l1 pk1 base 2(12) s1 by simp
  then show ?case using a1 s1 sn by auto
next
  case (3 al mk cl b live body ops)
  note fixed = 3(4-6) and ok = 3(7) and inv = 3(8,9) and base = 3(10-12)
  from 3(3) obtain sn1 b1 sn2 where
    r1: "run_ops al mk cl b live body = Some (sn1, b1)" and
    r2: "run_ops al mk cl (cl b1 (mk b)) live ops = Some (sn2, b')" and
    sn: "snaps = sn1 @ sn2"
    by (auto split: option.splits)
  let ?b2 = "wl_scope_close b1 (wl_scope b)"
  have h1: "unat (wl_cursor b) \<le> unat (wl_cursor b1)" "unat (wl_cursor b1) \<le> unat (wl_peak b1)"
    "unat (wl_peak b) \<le> unat (wl_peak b1)"
    using wl.run_ops_live [OF r1 [unfolded fixed] inv] by auto
  have b2: "wl_cursor ?b2 = wl_cursor b" "wl_peak ?b2 = wl_peak b1"
    by (simp_all add: wl_scope_def wl_scope_close_def)
  have "unat (wl_peak b1) \<le> unat (wl_peak b')"
    using wl.run_ops_live [OF r2 [unfolded fixed]] b2 inv h1 by auto
  then have fit1: "unat (wl_peak b1) \<le> unat (da_cap ar)" using 3(13) by linarith
  from 3(1) [OF r1 fixed _ inv base fit1 3(14,15)] ok obtain ar1 where
    a1: "run_ops arena_place arena_scope arena_scope_close ar live body = Some (sn1, ar1)" and
    s1: "da_base ar1 = da_base ar" "da_cap ar1 = da_cap ar" "da_off ar1 = wl_cursor b1"
      "da_peak ar1 = wl_peak b1" by auto
  let ?ar2 = "arena_scope_close ar1 (arena_scope ar)"
  have s2: "da_base ?ar2 = da_base ar" "da_cap ?ar2 = da_cap ar" "da_off ?ar2 = wl_cursor b"
    "da_peak ?ar2 = wl_peak b1"
    using s1 3(14) h1(1) by (simp_all add: arena_scope_def arena_scope_close_def word_le_nat_alt)
  have "\<exists>ar'. run_ops arena_place arena_scope arena_scope_close ?ar2 live ops = Some (sn2, ar')
      \<and> da_base ar' = da_base ?ar2 \<and> da_cap ar' = da_cap ?ar2
      \<and> da_off ar' = wl_cursor b' \<and> da_peak ar' = wl_peak b'"
    using 3(2) [OF r1 refl r2 fixed, of ?ar2] ok inv base 3(13) s2 b2 h1 fixed by simp
  then show ?case using a1 s2 sn by auto
qed

text \<open>
  C14: The dry run predicts the arena. When a script of allocations with nested scopes runs
  through the \<^verbatim>\<open>WorkspaceLayoutBuilder\<close> and the reported peak (rounded up to 256) fits an arena
  over 256-aligned storage, then the same script succeeds on the arena without an exception,
  hands out the same offsets at every step and reaches the same cursor and high-water mark; at
  every moment the extents alive together are disjoint and lie below the reported peak.
\<close>

theorem workspace_dry_run_sound:
  assumes "run_ops wl_place wl_scope wl_scope_close workspace_layout_init [] ops = Some (snaps, b)"
    and "list_all (op_ok (\<lambda>a. a \<le> 256)) ops"
    and "wl_peak_bytes b 256 = Inr need"
    and "device_arena_of_span storage = Inr ar"
    and "need \<le> span_bytes storage" and "256 dvd unat (span_data storage)"
    and "unat (span_data storage) + unat (span_bytes storage) + 256 \<le> 2 ^ 64"
  shows "\<exists>ar'. run_ops arena_place arena_scope arena_scope_close ar [] ops = Some (snaps, ar')
    \<and> da_off ar' = wl_cursor b \<and> da_peak ar' = wl_peak b
    \<and> (\<forall>live\<in>set snaps. live_ok (unat need) live)"
proof -
  from assms(4) have ar: "da_base ar = span_data storage" "da_cap ar = span_bytes storage"
    "da_off ar = 0" "da_peak ar = 0" "da_base ar \<noteq> 0"
    by (auto simp: device_arena_of_span_def split: if_splits)
  have need: "unat (wl_peak b) \<le> unat need"
    using assms(3) by (auto simp: wl_peak_bytes_def dest: align_up_bounds(2))
  have init: "live_ok (unat (wl_cursor workspace_layout_init)) []"
    "unat (wl_cursor workspace_layout_init) \<le> unat (wl_peak workspace_layout_init)"
    by (simp_all add: live_ok_def workspace_layout_init_def)
  have live: "\<forall>live\<in>set snaps. live_ok (unat need) live"
    using wl.run_ops_live [OF assms(1) init] need by (auto intro: live_ok_mono)
  have "\<exists>ar'. run_ops arena_place arena_scope arena_scope_close ar [] ops = Some (snaps, ar')
    \<and> da_base ar' = da_base ar \<and> da_cap ar' = da_cap ar
    \<and> da_off ar' = wl_cursor b \<and> da_peak ar' = wl_peak b"
    by (rule dry_run_aux [OF assms(1) refl refl refl assms(2) init])
      (use ar assms(5-7) need in \<open>simp_all add: workspace_layout_init_def word_le_nat_alt\<close>)
  with live show ?thesis by auto
qed

theorem workspace_dry_run_sound_witness:
  "\<exists>ar'. run_ops arena_place arena_scope arena_scope_close
       \<lparr>da_base = 4096, da_cap = 512, da_off = 0, da_peak = 0\<rparr> [] demo_ops
     = Some ([[(0, 100)], [(128, 10), (0, 100)], [(144, 3), (128, 10), (0, 100)], [(112, 5), (0, 100)]], ar')
     \<and> da_peak ar' = 147"
proof -
  let ?snaps = "[[(0, 100)], [(128, 10), (0, 100)], [(144, 3), (128, 10), (0, 100)], [(112, 5), (0, 100)]]"
  let ?b = "\<lparr>wl_cursor = 117, wl_peak = 147\<rparr> :: workspace_layout_builder"
  let ?sp = "\<lparr>span_data = 4096, span_bytes = 512\<rparr> :: device_span"
  have "run_ops wl_place wl_scope wl_scope_close workspace_layout_init [] demo_ops = Some (?snaps, ?b)"
    "list_all (op_ok (\<lambda>a. a \<le> 256)) demo_ops" "wl_peak_bytes ?b 256 = Inr 256"
    "device_arena_of_span ?sp = Inr \<lparr>da_base = 4096, da_cap = 512, da_off = 0, da_peak = 0\<rparr>"
    by code_simp+
  moreover have "256 \<le> span_bytes ?sp" "256 dvd unat (span_data ?sp)"
    "unat (span_data ?sp) + unat (span_bytes ?sp) + 256 \<le> 2 ^ 64" by simp_all
  ultimately show ?thesis using workspace_dry_run_sound [of demo_ops ?snaps ?b 256 ?sp] by auto
qed

text \<open>
  Request memory stays inside its reservation. Any activation that succeeds asked for at
  most the reserved capacity with an alignment the device allocation provides, records exactly
  the request, never lowers the peak and keeps it an upper bound of the active bytes within the
  capacity; a refused activation is one with a bad alignment, without a reservation or beyond it.
\<close>

theorem request_memory_bounded:
  assumes "rm_capacity rm = Some cap" and "rm_active_bytes rm \<le> rm_peak_bytes rm"
    and "rm_peak_bytes rm \<le> cap"
  shows "(\<forall>rm'. rm_activate rm n a = Inr rm' \<longrightarrow>
      rm_active_bytes rm' = n \<and> n \<le> cap \<and> rm_capacity rm' = Some cap \<and>
      rm_active_bytes rm' \<le> rm_peak_bytes rm' \<and> rm_peak_bytes rm \<le> rm_peak_bytes rm' \<and>
      rm_peak_bytes rm' \<le> cap) \<and>
    (succeeds (rm_activate rm n a) \<longleftrightarrow>
      (if n = 0 then a = 1 else is_power_of_two a \<and> a \<le> 256 \<and> n \<le> cap))"
  using assms
  by (auto simp: rm_activate_def rm_deactivate_def kDeviceAllocationAlignment_def succeeds_iff
      not_less max_def split: if_splits)

theorem request_memory_bounded_witness:
  "succeeds (rm_activate \<lparr>rm_capacity = Some 1024, rm_active_bytes = 0, rm_active_alignment = 1,
     rm_peak_bytes = 16\<rparr> 512 256)"
proof -
  let ?rm = "\<lparr>rm_capacity = Some 1024, rm_active_bytes = 0, rm_active_alignment = 1,
     rm_peak_bytes = 16\<rparr> :: request_memory"
  have "is_power_of_two (256 :: u64)" by code_simp
  then show ?thesis using request_memory_bounded [of ?rm 1024 512 256] by simp
qed

end
