(* ===== verification/Host_Arena.thy ===== *)
theory Host_Arena
  imports Device_Arena
begin

text \<open>
  The first-fit allocator over pinned host memory (\<^verbatim>\<open>HostPinnedArena\<close> of
  \<^verbatim>\<open>src/src/core/arena.cu\<close>): a sorted list of coalesced free spans and a table of live
  blocks keyed by address. The reservation and registration of the memory itself is outside the
  model; an arena starts from a base address and a capacity.
\<close>

section \<open>State and operations\<close>

record host_span =
  hs_offset :: u64
  hs_size :: u64

record host_arena =
  ha_base :: u64
  ha_cap :: u64
  ha_used :: u64
  ha_free :: "host_span list"
  ha_live :: "u64 \<rightharpoonup> host_span"

definition host_arena_init :: "u64 \<Rightarrow> u64 \<Rightarrow> host_arena result" where
  "host_arena_init base capacity =
     (if capacity = 0 then Inl Invalid_argument
      else Inr \<lparr>ha_base = base, ha_cap = capacity, ha_used = 0,
                ha_free = [\<lparr>hs_offset = 0, hs_size = capacity\<rparr>], ha_live = Map.empty\<rparr>)"

text \<open>
  \<open>pre\<close> are the spans the scan of \<^verbatim>\<open>insert_free\<close> passes, \<open>post\<close> starts at its iterator;
  \<^verbatim>\<open>prev\<close> is the last span passed.
\<close>

definition insert_free :: "u64 \<Rightarrow> u64 \<Rightarrow> host_span list \<Rightarrow> host_span list" where
  "insert_free offset n free =
     (if n = 0 then free
      else
        (let pre = takeWhile (\<lambda>s. hs_offset s < offset) free;
             post = dropWhile (\<lambda>s. hs_offset s < offset) free in
         if pre \<noteq> [] \<and> hs_offset (last pre) + hs_size (last pre) = offset then
           (let prev = (last pre)\<lparr>hs_size := hs_size (last pre) + n\<rparr> in
            case post of
              [] \<Rightarrow> butlast pre @ [prev]
            | nxt # rest \<Rightarrow>
                if hs_offset prev + hs_size prev = hs_offset nxt
                then butlast pre @ prev\<lparr>hs_size := hs_size prev + hs_size nxt\<rparr> # rest
                else butlast pre @ prev # post)
         else
           (case post of
              [] \<Rightarrow> pre @ [\<lparr>hs_offset = offset, hs_size = n\<rparr>]
            | nxt # rest \<Rightarrow>
                if offset + n = hs_offset nxt
                then pre @ \<lparr>hs_offset = offset, hs_size = hs_size nxt + n\<rparr> # rest
                else pre @ \<lparr>hs_offset = offset, hs_size = n\<rparr> # post)))"

text \<open>The scan of \<^verbatim>\<open>try_alloc\<close>: the index of the first span that fits and the padding in it.\<close>

fun find_fit :: "u64 \<Rightarrow> u64 \<Rightarrow> u64 \<Rightarrow> nat \<Rightarrow> host_span list \<Rightarrow> (nat \<times> u64) option result" where
  "find_fit base n align index [] = Inr None"
| "find_fit base n align index (span # spans) =
     bind_result (checked_add_uintptr base (hs_offset span)) (\<lambda>span_addr.
       bind_result (align_up_addr span_addr align) (\<lambda>aligned_addr.
         let lead = aligned_addr - span_addr in
         if lead > - 1 then find_fit base n align (Suc index) spans
         else if lead > hs_size span \<or> n > hs_size span - lead
         then find_fit base n align (Suc index) spans
         else Inr (Some (index, lead))))"

definition remove_nth :: "nat \<Rightarrow> 'a list \<Rightarrow> 'a list" where
  "remove_nth i xs = take i xs @ drop (Suc i) xs"

text \<open>A null result is address 0.\<close>

definition try_alloc :: "host_arena \<Rightarrow> u64 \<Rightarrow> u64 \<Rightarrow> (u64 \<times> host_arena) result" where
  "try_alloc ar n align =
     (if ha_base ar = 0 then Inl Runtime_error
      else if \<not> is_power_of_two align then Inl Invalid_argument
      else if n = 0 then Inl Invalid_argument
      else if n > ha_cap ar then Inr (0, ar)
      else bind_result (find_fit (ha_base ar) n align 0 (ha_free ar)) (\<lambda>found.
        case found of
          None \<Rightarrow> Inr (0, ar)
        | Some (index, lead) \<Rightarrow>
            (let span = ha_free ar ! index;
                 alloc_offset = hs_offset span + lead;
                 tail = hs_size span - lead - n;
                 ptr = ha_base ar + alloc_offset in
             if ha_live ar ptr \<noteq> None then Inl Logic_error
             else
               (let free0 = remove_nth index (ha_free ar);
                    free1 = (if tail \<noteq> 0 then insert_free (alloc_offset + n) tail free0 else free0);
                    free2 = (if lead \<noteq> 0 then insert_free (hs_offset span) lead free1 else free1)
                in Inr (ptr, ar\<lparr>ha_live := (ha_live ar)(ptr \<mapsto> \<lparr>hs_offset = alloc_offset, hs_size = n\<rparr>),
                               ha_free := free2,
                               ha_used := ha_used ar + n\<rparr>)))))"

definition host_free :: "host_arena \<Rightarrow> u64 \<Rightarrow> host_arena result" where
  "host_free ar block =
     (if block = 0 then Inl Invalid_argument
      else (case ha_live ar block of
              None \<Rightarrow> Inl Logic_error
            | Some live \<Rightarrow>
                Inr (ar\<lparr>ha_live := (ha_live ar)(block := None),
                       ha_used := ha_used ar - hs_size live,
                       ha_free := insert_free (hs_offset live) (hs_size live) (ha_free ar)\<rparr>)))"

section \<open>The byte view and the invariant\<close>

definition span_end :: "host_span \<Rightarrow> nat" where
  "span_end s = unat (hs_offset s) + unat (hs_size s)"

definition span_bytes_of :: "host_span \<Rightarrow> nat set" where
  "span_bytes_of s = {unat (hs_offset s)..<span_end s}"

definition free_bytes :: "host_span list \<Rightarrow> nat set" where
  "free_bytes free = (\<Union>s\<in>set free. span_bytes_of s)"

definition live_bytes :: "(u64 \<rightharpoonup> host_span) \<Rightarrow> nat set" where
  "live_bytes live = (\<Union>s\<in>ran live. span_bytes_of s)"

text \<open>Free spans are non-empty, in order, below the limit, and never adjacent.\<close>

fun separated :: "nat \<Rightarrow> nat \<Rightarrow> host_span list \<Rightarrow> bool" where
  "separated lo hi [] = True"
| "separated lo hi (s # ss) =
     (lo \<le> unat (hs_offset s) \<and> 0 < unat (hs_size s) \<and> span_end s \<le> hi
      \<and> separated (Suc (span_end s)) hi ss)"

definition host_inv :: "host_arena \<Rightarrow> bool" where
  "host_inv ar \<longleftrightarrow>
     ha_base ar \<noteq> 0 \<and> unat (ha_base ar) + unat (ha_cap ar) < 2 ^ 64 \<and>
     separated 0 (unat (ha_cap ar)) (ha_free ar) \<and>
     (\<forall>p s. ha_live ar p = Some s \<longrightarrow>
        p = ha_base ar + hs_offset s \<and> 0 < unat (hs_size s) \<and> span_end s \<le> unat (ha_cap ar)) \<and>
     (\<forall>p q s t. ha_live ar p = Some s \<longrightarrow> ha_live ar q = Some t \<longrightarrow> p \<noteq> q \<longrightarrow>
        span_bytes_of s \<inter> span_bytes_of t = {}) \<and>
     free_bytes (ha_free ar) \<inter> live_bytes (ha_live ar) = {} \<and>
     free_bytes (ha_free ar) \<union> live_bytes (ha_live ar) = {0..<unat (ha_cap ar)} \<and>
     unat (ha_used ar) = card (live_bytes (ha_live ar))"

text \<open>A span fits when the aligned block starts and ends inside it.\<close>

definition fits :: "u64 \<Rightarrow> u64 \<Rightarrow> u64 \<Rightarrow> host_span \<Rightarrow> u64 \<Rightarrow> bool" where
  "fits base n align s lead \<longleftrightarrow>
     align_up (base + hs_offset s) align = Inr (base + hs_offset s + lead) \<and>
     unat lead + unat n \<le> unat (hs_size s)"

text \<open>
  The states an arena passes through. The guard on an allocation says that the address space has
  room for the alignment padding behind the arena, which holds for user-space mappings.
\<close>

inductive host_reachable :: "host_arena \<Rightarrow> bool" where
  start: "host_arena_init base capacity = Inr ar \<Longrightarrow> base \<noteq> 0 \<Longrightarrow>
    unat base + unat capacity < 2 ^ 64 \<Longrightarrow> host_reachable ar"
| alloc: "host_reachable ar \<Longrightarrow> unat (ha_base ar) + unat (ha_cap ar) + unat a \<le> 2 ^ 64 \<Longrightarrow>
    try_alloc ar n a = Inr (p, ar') \<Longrightarrow> host_reachable ar'"
| release: "host_reachable ar \<Longrightarrow> host_free ar p = Inr ar' \<Longrightarrow> host_reachable ar'"

definition demo_host :: host_arena where
  "demo_host = \<lparr>ha_base = 4096, ha_cap = 1024, ha_used = 0,
     ha_free = [\<lparr>hs_offset = 0, hs_size = 1024\<rparr>], ha_live = Map.empty\<rparr>"

section \<open>Separated span lists\<close>

lemma separated_append:
  "separated lo hi (xs @ ys) \<longleftrightarrow>
     separated lo hi xs \<and> separated (if xs = [] then lo else Suc (span_end (last xs))) hi ys"
  by (induction xs arbitrary: lo) auto

lemma separated_weaken:
  "separated lo hi xs \<Longrightarrow> lo' \<le> lo \<Longrightarrow> separated lo' hi xs"
  by (cases xs) auto

lemma free_bytes_simps [simp]:
  "free_bytes [] = {}" "free_bytes (s # ss) = span_bytes_of s \<union> free_bytes ss"
  "free_bytes (xs @ ys) = free_bytes xs \<union> free_bytes ys"
  by (auto simp: free_bytes_def)

lemma separated_bytes: "separated lo hi xs \<Longrightarrow> free_bytes xs \<subseteq> {lo..<hi}"
  by (induction xs arbitrary: lo) (fastforce simp: span_bytes_of_def span_end_def)+

text \<open>Every span passed by the scan ends before the inserted range, unless they overlap.\<close>

lemma separated_last_end:
  "separated lo hi xs \<Longrightarrow> xs \<noteq> [] \<Longrightarrow>
     0 < unat (hs_size (last xs)) \<and> span_end (last xs) \<le> hi"
  by (induction xs arbitrary: lo) auto

text \<open>Joining a span with \<open>n\<close> bytes right behind it.\<close>

lemma span_end_word:
  "span_end s < 2 ^ 64 \<Longrightarrow> unat (hs_offset s + hs_size s) = span_end s"
  by (simp add: span_end_def unat_add_no_overflow)

lemma span_end_grow:
  assumes "unat (hs_offset s) + (unat (hs_size s) + unat n) < 2 ^ 64"
  shows "span_end (s\<lparr>hs_size := hs_size s + n\<rparr>) = span_end s + unat n"
    and "unat (hs_size s + n) = unat (hs_size s) + unat n"
  using assms by (simp_all add: span_end_def unat_add_no_overflow)

lemma insert_free_cases:
  assumes "n \<noteq> 0"
    and pre: "pre = takeWhile (\<lambda>s. hs_offset s < offset) free"
    and post: "post = dropWhile (\<lambda>s. hs_offset s < offset) free"
  obtains (join_prev) us p where "pre = us @ [p]" "hs_offset p + hs_size p = offset" "post = []"
      "insert_free offset n free = us @ [p\<lparr>hs_size := hs_size p + n\<rparr>]"
  | (join_both) us p y ys where "pre = us @ [p]" "hs_offset p + hs_size p = offset" "post = y # ys"
      "hs_offset p + (hs_size p + n) = hs_offset y"
      "insert_free offset n free = us @ p\<lparr>hs_size := hs_size p + n + hs_size y\<rparr> # ys"
  | (join_prev_only) us p y ys where "pre = us @ [p]" "hs_offset p + hs_size p = offset"
      "post = y # ys" "hs_offset p + (hs_size p + n) \<noteq> hs_offset y"
      "insert_free offset n free = us @ p\<lparr>hs_size := hs_size p + n\<rparr> # post"
  | (append) "pre = [] \<or> hs_offset (last pre) + hs_size (last pre) \<noteq> offset" "post = []"
      "insert_free offset n free = pre @ [\<lparr>hs_offset = offset, hs_size = n\<rparr>]"
  | (join_next) y ys where "pre = [] \<or> hs_offset (last pre) + hs_size (last pre) \<noteq> offset"
      "post = y # ys" "offset + n = hs_offset y"
      "insert_free offset n free = pre @ \<lparr>hs_offset = offset, hs_size = hs_size y + n\<rparr> # ys"
  | (insert) y ys where "pre = [] \<or> hs_offset (last pre) + hs_size (last pre) \<noteq> offset"
      "post = y # ys" "offset + n \<noteq> hs_offset y"
      "insert_free offset n free = pre @ \<lparr>hs_offset = offset, hs_size = n\<rparr> # post"
proof (cases "pre \<noteq> [] \<and> hs_offset (last pre) + hs_size (last pre) = offset")
  case True
  then obtain us p where up: "pre = us @ [p]" by (metis append_butlast_last_id)
  show ?thesis
  proof (cases post)
    case Nil
    then show ?thesis using True up assms(1)
      by (intro join_prev [OF up]) (simp_all add: insert_free_def Let_def flip: pre post)
  next
    case (Cons y ys)
    show ?thesis
    proof (cases "hs_offset p + (hs_size p + n) = hs_offset y")
      case e: True
      then show ?thesis using True up Cons assms(1)
        by (intro join_both [OF up _ Cons e]) (simp_all add: insert_free_def Let_def flip: pre post)
    next
      case e: False
      then show ?thesis using True up Cons assms(1)
        by (intro join_prev_only [OF up _ Cons e])
          (simp_all add: insert_free_def Let_def flip: pre post)
    qed
  qed
next
  case False
  show ?thesis
  proof (cases post)
    case Nil
    then show ?thesis using False assms(1)
      by (intro append) (auto simp: insert_free_def Let_def simp flip: pre post)
  next
    case (Cons y ys)
    show ?thesis
    proof (cases "offset + n = hs_offset y")
      case e: True
      then show ?thesis using False Cons assms(1)
        by (intro join_next [OF _ Cons e]) (auto simp: insert_free_def Let_def simp flip: pre post)
    next
      case e: False
      then show ?thesis using False Cons assms(1)
        by (intro insert [OF _ Cons e]) (auto simp: insert_free_def Let_def simp flip: pre post)
    qed
  qed
qed

lemma insert_free_separated:
  assumes sep: "separated lo hi free" and n: "n \<noteq> 0" and lo: "lo \<le> unat offset"
    and hi: "unat offset + unat n \<le> hi" and hi64: "hi < 2 ^ 64"
    and disj: "free_bytes free \<inter> {unat offset..<unat offset + unat n} = {}"
  shows "separated lo hi (insert_free offset n free) \<and>
    free_bytes (insert_free offset n free) = free_bytes free \<union> {unat offset..<unat offset + unat n}"
proof -
  let ?P = "\<lambda>s. hs_offset s < offset"
  define pre post where pp: "pre = takeWhile ?P free" "post = dropWhile ?P free"
  have free: "free = pre @ post" by (simp add: pp)
  have n0: "0 < unat n" using n by (simp add: unat_gt_0)
  have sn: "unat (offset + n) = unat offset + unat n"
    using hi hi64 by (intro unat_add_no_overflow) simp
  have nxt: "unat offset + unat n \<le> unat (hs_offset y)" "span_end y \<le> hi" "0 < unat (hs_size y)"
    if "post = y # ys" for y ys
  proof -
    have "\<not> ?P y" using that hd_dropWhile [of ?P free] by (simp add: pp)
    then have "unat offset \<le> unat (hs_offset y)" by (simp add: word_less_nat_alt)
    moreover show s: "0 < unat (hs_size y)" "span_end y \<le> hi"
      using sep free that by (auto simp: separated_append)
    then have "unat (hs_offset y) \<in> free_bytes free"
      by (auto simp: free that span_bytes_of_def span_end_def)
    ultimately show "unat offset + unat n \<le> unat (hs_offset y)"
      using disj by (force simp: disjoint_iff)
  qed
  have prv: "unat (hs_offset p) < unat offset" "span_end p \<le> unat offset" "span_end p \<le> hi"
      "0 < unat (hs_size p)" "unat (hs_offset p + hs_size p) = span_end p"
    if "pre = us @ [p]" for us p
  proof -
    have "p \<in> set pre" using that by simp
    then show lt: "unat (hs_offset p) < unat offset"
      by (auto simp: pp word_less_nat_alt dest: set_takeWhileD)
    show e: "span_end p \<le> hi" "0 < unat (hs_size p)"
      using sep free that by (auto simp: separated_append)
    have "unat offset \<notin> span_bytes_of p"
      using disj n0 free that by (auto simp: disjoint_iff)
    with lt show "span_end p \<le> unat offset" by (simp add: span_bytes_of_def)
    show "unat (hs_offset p + hs_size p) = span_end p"
      using e hi64 by (intro span_end_word) simp
  qed
  have gap: "pre = [] \<or> span_end (last pre) < unat offset"
    if "pre = [] \<or> hs_offset (last pre) + hs_size (last pre) \<noteq> offset"
  proof (cases "pre = []")
    case False
    then obtain us p where up: "pre = us @ [p]" by (metis append_butlast_last_id)
    have "span_end p \<noteq> unat offset"
      using that False up prv(5) [OF up] by (auto dest: unat_eqD)
    then show ?thesis using prv(2) [OF up] up by simp
  qed simp
  have glue: "span_end p = unat offset" "unat (hs_offset p) + (unat (hs_size p) + unat n) < 2 ^ 64"
    if "pre = us @ [p]" "hs_offset p + hs_size p = offset" for us p
  proof -
    show e: "span_end p = unat offset" using prv(5) [OF that(1)] that(2) by simp
    show "unat (hs_offset p) + (unat (hs_size p) + unat n) < 2 ^ 64"
      using hi hi64 e by (simp add: span_end_def)
  qed
  note view = separated_append span_bytes_of_def span_end_def
  show ?thesis using n pp
  proof (cases rule: insert_free_cases)
    case (join_prev us p)
    show ?thesis
      unfolding join_prev(4) unfolding free join_prev(3) using sep [unfolded free join_prev(1,3)] hi n0
        span_end_grow [OF glue(2) [OF join_prev(1,2)]] glue(1) [OF join_prev(1,2)]
      by (auto simp: join_prev(1) view)
  next
    case (join_both us p y ys)
    note g = span_end_grow [OF glue(2) [OF join_both(1,2)]] glue(1) [OF join_both(1,2)]
    have "unat (hs_offset p + (hs_size p + n)) = unat offset + unat n"
      using join_both(2) sn by (simp add: add.assoc [symmetric])
    then have y: "unat (hs_offset y) = unat offset + unat n" using join_both(4) by simp
    have "unat (hs_size p + n + hs_size y) = unat (hs_size p + n) + unat (hs_size y)"
      using g y nxt(2) [OF join_both(3)] hi64
      by (intro unat_add_no_overflow) (simp add: span_end_def)
    moreover have eq: "unat (hs_offset p) + (unat (hs_size p) + unat n + unat (hs_size y)) = span_end y"
      using g(3) y by (simp add: span_end_def)
    have "separated (Suc (unat (hs_offset p) + (unat (hs_size p) + unat n + unat (hs_size y)))) hi ys"
      unfolding eq using sep [unfolded free join_both(1,3)] by (simp add: separated_append)
    ultimately show ?thesis
      unfolding join_both(5) unfolding free join_both(3) using sep [unfolded free join_both(1,3)] hi n0 g y
      by (auto simp: join_both(1) view)
  next
    case (join_prev_only us p y ys)
    note g = span_end_grow [OF glue(2) [OF join_prev_only(1,2)]] glue(1) [OF join_prev_only(1,2)]
    have "unat (hs_offset p + (hs_size p + n)) = unat offset + unat n"
      using join_prev_only(2) sn by (simp add: add.assoc [symmetric])
    then have "unat offset + unat n \<noteq> unat (hs_offset y)"
      using join_prev_only(4) by (auto dest: unat_eqD)
    with nxt(1) [OF join_prev_only(3)] have "unat offset + unat n < unat (hs_offset y)" by simp
    then show ?thesis
      unfolding join_prev_only(5) unfolding free join_prev_only(3)
      using sep [unfolded free join_prev_only(1,3)] hi n0 g
      by (auto simp: join_prev_only(1) view)
  next
    case append
    then show ?thesis
      unfolding append(3) unfolding free append(2) using sep [unfolded free append(2)] hi n0 lo gap [OF append(1)]
      by (auto simp: view)
  next
    case (join_next y ys)
    have y: "unat (hs_offset y) = unat offset + unat n" using join_next(3) sn by simp
    have "unat (hs_size y + n) = unat (hs_size y) + unat n"
      using y nxt(2) [OF join_next(2)] hi64 by (intro unat_add_no_overflow) (simp add: span_end_def)
    then show ?thesis
      unfolding join_next(4) unfolding free join_next(2) using sep [unfolded free join_next(2)] hi n0 lo y
        gap [OF join_next(1)]
      by (auto simp: view ac_simps)
  next
    case (insert y ys)
    have "unat offset + unat n \<noteq> unat (hs_offset y)"
      using insert(3) sn by (auto dest: unat_eqD)
    with nxt(1) [OF insert(2)] have "unat offset + unat n < unat (hs_offset y)" by simp
    then show ?thesis
      unfolding insert(4) unfolding free insert(2) using sep [unfolded free insert(2)] hi n0 lo gap [OF insert(1)]
      by (auto simp: view)
  qed
qed

section \<open>The first-fit scan\<close>

lemma find_fit_step:
  assumes "is_power_of_two a" and "unat base + span_end s + unat a \<le> 2 ^ 64"
  obtains lead where
    "align_up (base + hs_offset s) a = Inr (base + hs_offset s + lead)" "unat lead < unat a"
    "find_fit base n a i (s # ss) =
       (if unat lead + unat n \<le> unat (hs_size s) then Inr (Some (i, lead))
        else find_fit base n a (Suc i) ss)"
proof -
  have a0: "0 < unat a" using assms(1) by (simp add: is_power_of_two_def unat_gt_0)
  have sa: "unat (base + hs_offset s) = unat base + unat (hs_offset s)"
    using assms(2) a0 by (intro unat_add_no_overflow) (simp add: span_end_def)
  then have "unat (base + hs_offset s) + (unat a - 1) < 2 ^ 64"
    using assms(2) a0 by (simp add: span_end_def)
  with assms(1) obtain w where w: "align_up (base + hs_offset s) a = Inr w"
    using align_up_unat by blast
  define lead where "lead = w - (base + hs_offset s)"
  have le: "base + hs_offset s \<le> w" using align_up_bounds(2) [OF w] by (simp add: word_le_nat_alt)
  then have ul: "unat lead = unat w - unat (base + hs_offset s)" by (simp add: lead_def unat_sub)
  have lt: "unat lead < unat a" using align_up_bounds(3) [OF w] le a0 by (simp add: ul word_le_nat_alt)
  have wl: "w = base + hs_offset s + lead" by (simp add: lead_def)
  have ca: "checked_add_uintptr base (hs_offset s) = Inr (base + hs_offset s)"
    using sa unat_word_bound [of "base + hs_offset s"]
    by (simp add: checked_add_uintptr_eq checked_add_eq_Inr)
  have "(lead > hs_size s \<or> n > hs_size s - lead) \<longleftrightarrow> \<not> unat lead + unat n \<le> unat (hs_size s)"
    by (rule range_test)
  then have "find_fit base n a i (s # ss) =
       (if unat lead + unat n \<le> unat (hs_size s) then Inr (Some (i, lead))
        else find_fit base n a (Suc i) ss)"
    using w assms(1) by (simp add: find_fit.simps ca align_up_addr_eq Let_def lead_def leD [OF max_word_max])
  with that [of lead] w wl lt show ?thesis by simp
qed

declare find_fit.simps(2) [simp del]

lemma find_fit_total:
  assumes "is_power_of_two a" and "\<forall>s\<in>set ss. unat base + span_end s + unat a \<le> 2 ^ 64"
  shows "\<exists>r. find_fit base n a i ss = Inr r \<and>
    (case r of
       None \<Rightarrow> \<forall>s\<in>set ss. \<forall>lead. \<not> fits base n a s lead
     | Some (j, lead) \<Rightarrow> i \<le> j \<and> j - i < length ss \<and> fits base n a (ss ! (j - i)) lead)"
  using assms(2)
proof (induction ss arbitrary: i)
  case Nil
  then show ?case by simp
next
  case (Cons s ss)
  from Cons.prems have "unat base + span_end s + unat a \<le> 2 ^ 64" by simp
  with assms(1) obtain lead where
    al: "align_up (base + hs_offset s) a = Inr (base + hs_offset s + lead)" and
    ff: "find_fit base n a i (s # ss) =
       (if unat lead + unat n \<le> unat (hs_size s) then Inr (Some (i, lead))
        else find_fit base n a (Suc i) ss)"
    by (rule find_fit_step)
  show ?case
  proof (cases "unat lead + unat n \<le> unat (hs_size s)")
    case True
    then show ?thesis using al by (simp add: ff fits_def)
  next
    case False
    then have no: "\<not> fits base n a s l" for l using al by (auto simp: fits_def)
    from Cons.IH [of "Suc i"] Cons.prems obtain r where r: "find_fit base n a (Suc i) ss = Inr r"
      and c: "case r of None \<Rightarrow> \<forall>s\<in>set ss. \<forall>lead. \<not> fits base n a s lead
        | Some (j, lead) \<Rightarrow> Suc i \<le> j \<and> j - Suc i < length ss \<and> fits base n a (ss ! (j - Suc i)) lead"
      by auto
    show ?thesis using False no r c
      by (auto simp: ff nth_Cons' split: option.splits)
  qed
qed

lemma separated_spans:
  "separated lo hi ss \<Longrightarrow> s \<in> set ss \<Longrightarrow> lo \<le> unat (hs_offset s) \<and> 0 < unat (hs_size s) \<and> span_end s \<le> hi"
  by (induction ss arbitrary: lo) (fastforce simp: span_end_def)+

lemma separated_below:
  "separated lo hi ss \<Longrightarrow> ss \<noteq> [] \<Longrightarrow> free_bytes ss \<subseteq> {..<span_end (last ss)}"
proof (induction ss arbitrary: lo)
  case (Cons s ss)
  show ?case
  proof (cases ss)
    case Nil
    then show ?thesis by (auto simp: span_bytes_of_def)
  next
    case (Cons y ys)
    then have "span_end s < span_end (last ss)"
      using Cons.prems separated_spans [of "Suc (span_end s)" hi ss "last ss"]
      by (force simp: span_end_def)
    with Cons.IH Cons.prems Cons show ?thesis by (fastforce simp: span_bytes_of_def)
  qed
qed simp

lemma separated_remove_nth:
  assumes "separated lo hi ss" and "i < length ss"
  shows "separated lo hi (remove_nth i ss)"
    and "free_bytes ss = free_bytes (remove_nth i ss) \<union> span_bytes_of (ss ! i)"
    and "free_bytes (remove_nth i ss) \<inter> span_bytes_of (ss ! i) = {}"
proof -
  let ?s = "ss ! i"
  have ss: "ss = take i ss @ ?s # drop (Suc i) ss" by (rule id_take_nth_drop [OF assms(2)])
  have sep: "separated lo hi (take i ss)"
    "(if take i ss = [] then lo else Suc (span_end (last (take i ss)))) \<le> unat (hs_offset ?s)"
    "separated (Suc (span_end ?s)) hi (drop (Suc i) ss)"
    using assms(1) by (subst (asm) ss, simp add: separated_append)+
  show "separated lo hi (remove_nth i ss)"
    using sep by (auto simp: remove_nth_def separated_append span_end_def
        elim!: separated_weaken split: if_splits)
  show "free_bytes ss = free_bytes (remove_nth i ss) \<union> span_bytes_of ?s"
    by (subst (1) ss) (auto simp: remove_nth_def)
  have "free_bytes (drop (Suc i) ss) \<subseteq> {Suc (span_end ?s)..<hi}"
    by (rule separated_bytes [OF sep(3)])
  moreover have "free_bytes (take i ss) \<subseteq> {..<unat (hs_offset ?s)}"
    using separated_below [OF sep(1)] sep(2) by (cases "take i ss = []") fastforce+
  ultimately show "free_bytes (remove_nth i ss) \<inter> span_bytes_of ?s = {}"
    by (fastforce simp: remove_nth_def span_bytes_of_def span_end_def)
qed

lemma span_end_not_free:
  "separated lo hi ss \<Longrightarrow> s \<in> set ss \<Longrightarrow> span_end s \<notin> free_bytes ss"
proof (induction ss arbitrary: lo)
  case (Cons x xs)
  have sub: "free_bytes xs \<subseteq> {Suc (span_end x)..<hi}"
    using Cons.prems(1) separated_bytes by auto
  show ?case
  proof (cases "s = x")
    case True
    with sub show ?thesis by (auto simp: span_bytes_of_def)
  next
    case False
    with Cons.prems have "s \<in> set xs" "separated (Suc (span_end x)) hi xs" by simp_all
    moreover from separated_spans [OF this(2,1)] have "span_end x < span_end s"
      by (simp add: span_end_def)
    ultimately show ?thesis using Cons.IH by (auto simp: span_bytes_of_def)
  qed
qed simp

text \<open>Free spans are maximal: a run of free bytes lies in a single span.\<close>

lemma free_run_in_span:
  assumes "separated lo hi ss" and "{b..<b + n} \<subseteq> free_bytes ss" and "0 < n"
  obtains s where "s \<in> set ss" and "unat (hs_offset s) \<le> b" and "b + n \<le> span_end s"
proof -
  from assms(2,3) obtain s where s: "s \<in> set ss" "b \<in> span_bytes_of s"
    by (force simp: free_bytes_def)
  then have "span_end s \<notin> {b..<b + n}"
    using span_end_not_free [OF assms(1) s(1)] assms(2) by auto
  then have "b + n \<le> span_end s" using s(2) by (auto simp: span_bytes_of_def)
  with s that show ?thesis by (auto simp: span_bytes_of_def)
qed

lemma align_up_least:
  assumes "align_up v a = Inr r" and "unat a dvd m" and "unat v \<le> m"
  shows "unat r \<le> m"
proof (rule ccontr)
  assume "\<not> unat r \<le> m"
  then have "m < unat r" by simp
  moreover have "unat a dvd unat r - m"
    using align_up_bounds(1) [OF assms(1)] assms(2) by (rule dvd_diff_nat)
  ultimately have "unat a \<le> unat r - m" by (intro dvd_imp_le) simp_all
  with \<open>m < unat r\<close> align_up_bounds(3) [OF assms(1)] assms(3) show False by linarith
qed

lemma fits_complete:
  assumes inv: "host_inv ar" and a: "is_power_of_two a" and n: "n \<noteq> 0"
    and room: "unat (ha_base ar) + unat (ha_cap ar) + unat a \<le> 2 ^ 64"
    and al: "unat a dvd unat (ha_base ar) + b"
    and sub: "{b..<b + unat n} \<subseteq> free_bytes (ha_free ar)"
  shows "\<exists>s\<in>set (ha_free ar). \<exists>lead. fits (ha_base ar) n a s lead"
proof -
  have sep: "separated 0 (unat (ha_cap ar)) (ha_free ar)" using inv by (simp add: host_inv_def)
  have "0 < unat n" using n by (simp add: unat_gt_0)
  then obtain s where s: "s \<in> set (ha_free ar)" "unat (hs_offset s) \<le> b" "b + unat n \<le> span_end s"
    using free_run_in_span [OF sep sub] by blast
  have se: "span_end s \<le> unat (ha_cap ar)" using separated_spans [OF sep s(1)] by simp
  with room have "unat (ha_base ar) + span_end s + unat a \<le> 2 ^ 64" by linarith
  with a obtain lead where
    l: "align_up (ha_base ar + hs_offset s) a = Inr (ha_base ar + hs_offset s + lead)"
    and lt: "unat lead < unat a"
    by (rule find_fit_step)
  have v: "unat (ha_base ar + hs_offset s) = unat (ha_base ar) + unat (hs_offset s)"
    using inv se by (intro unat_add_no_overflow) (simp add: host_inv_def span_end_def)
  have w: "unat (ha_base ar + hs_offset s + lead) = unat (ha_base ar + hs_offset s) + unat lead"
    using room se lt v by (intro unat_add_no_overflow) (simp add: span_end_def)
  have "unat (ha_base ar + hs_offset s + lead) \<le> unat (ha_base ar) + b"
    using s(2) v by (intro align_up_least [OF l al]) simp
  then have "unat lead + unat n \<le> unat (hs_size s)"
    using s(3) v w by (simp add: span_end_def)
  with s(1) l show ?thesis by (auto simp: fits_def)
qed

section \<open>Correctness of allocation and release\<close>

lemma host_inv_live:
  "host_inv ar \<Longrightarrow> ha_live ar p = Some s \<Longrightarrow>
     p = ha_base ar + hs_offset s \<and> 0 < unat (hs_size s) \<and> span_end s \<le> unat (ha_cap ar)"
  by (simp add: host_inv_def)

text \<open>One block joins the live table, and its bytes leave the free list.\<close>

lemma host_inv_alloc:
  assumes inv: "host_inv ar" and s: "0 < unat (hs_size s)" "span_bytes_of s \<subseteq> free_bytes (ha_free ar)"
    and sep: "separated 0 (unat (ha_cap ar)) free'"
    and fb: "free_bytes free' = free_bytes (ha_free ar) - span_bytes_of s"
    and p: "p = ha_base ar + hs_offset s"
  shows "ha_live ar p = None"
    and "host_inv (ar\<lparr>ha_live := (ha_live ar)(p \<mapsto> s), ha_free := free',
                     ha_used := ha_used ar + hs_size s\<rparr>)"
proof -
  let ?L = "live_bytes (ha_live ar)" and ?F = "free_bytes (ha_free ar)"
  have part: "?F \<inter> ?L = {}" "?F \<union> ?L = {0..<unat (ha_cap ar)}"
    using inv by (simp_all add: host_inv_def)
  have off: "unat (hs_offset s) \<in> span_bytes_of s" using s(1) by (simp add: span_bytes_of_def span_end_def)
  show none: "ha_live ar p = None"
  proof (rule ccontr)
    assume "ha_live ar p \<noteq> None"
    then obtain t where t: "ha_live ar p = Some t" by auto
    with host_inv_live [OF inv t] p have "hs_offset t = hs_offset s" "0 < unat (hs_size t)" by auto
    then have "unat (hs_offset s) \<in> ?L"
      using t by (auto simp: live_bytes_def ran_def span_bytes_of_def span_end_def intro!: exI [of _ t])
    with off s(2) part(1) show False by auto
  qed
  have live: "live_bytes ((ha_live ar)(p \<mapsto> s)) = span_bytes_of s \<union> ?L"
    using none by (simp add: live_bytes_def ran_map_upd)
  have disj: "span_bytes_of s \<inter> ?L = {}" using part(1) s(2) by blast
  then have dt: "span_bytes_of s \<inter> span_bytes_of t = {}" if "ha_live ar q = Some t" for q t
    using that by (auto simp: live_bytes_def ran_def)
  have fin: "finite ?L" using part(2) finite_subset [of ?L "{0..<unat (ha_cap ar)}"] by auto
  have card: "card (span_bytes_of s \<union> ?L) = unat (hs_size s) + card ?L"
    using disj fin by (subst card_Un_disjoint) (auto simp: span_bytes_of_def span_end_def)
  have sub: "span_bytes_of s \<union> ?L \<subseteq> {0..<unat (ha_cap ar)}" using part(2) s(2) by auto
  then have "card (span_bytes_of s \<union> ?L) \<le> unat (ha_cap ar)"
    using card_mono [of "{0..<unat (ha_cap ar)}"] by auto
  then have used: "unat (ha_used ar + hs_size s) = card (span_bytes_of s \<union> ?L)"
    using inv card unat_word_bound [of "ha_cap ar"]
    by (subst unat_add_no_overflow) (auto simp: host_inv_def)
  have se: "span_end s \<le> unat (ha_cap ar)"
  proof -
    have "span_end s - 1 \<in> span_bytes_of s" using s(1) by (auto simp: span_bytes_of_def span_end_def)
    then have "span_end s - 1 < unat (ha_cap ar)" using sub by auto
    then show ?thesis by simp
  qed
  show "host_inv (ar\<lparr>ha_live := (ha_live ar)(p \<mapsto> s), ha_free := free',
                     ha_used := ha_used ar + hs_size s\<rparr>)"
    using inv sep s(1) se p [symmetric] dt used fb part s(2) disj
    by (auto simp: host_inv_def live split: if_splits)
qed

lemma try_alloc_places:
  assumes inv: "host_inv ar" and a: "is_power_of_two a" and n: "n \<noteq> 0" "\<not> n > ha_cap ar"
    and room: "unat (ha_base ar) + unat (ha_cap ar) + unat a \<le> 2 ^ 64"
    and ff: "find_fit (ha_base ar) n a 0 (ha_free ar) = Inr (Some (i, lead))"
    and i: "i < length (ha_free ar)" and fit: "fits (ha_base ar) n a (ha_free ar ! i) lead"
  shows "\<exists>s ar'. hs_size s = n \<and> try_alloc ar n a = Inr (ha_base ar + hs_offset s, ar') \<and> host_inv ar' \<and>
    ha_live ar (ha_base ar + hs_offset s) = None \<and>
    ha_live ar' = (ha_live ar)(ha_base ar + hs_offset s \<mapsto> s) \<and>
    span_bytes_of s \<subseteq> free_bytes (ha_free ar) \<and>
    free_bytes (ha_free ar') = free_bytes (ha_free ar) - span_bytes_of s \<and>
    unat a dvd unat (ha_base ar + hs_offset s) \<and> ha_base ar + hs_offset s \<noteq> 0"
proof -
  let ?sp = "ha_free ar ! i" and ?cap = "unat (ha_cap ar)"
  define s where "s = \<lparr>hs_offset = hs_offset (ha_free ar ! i) + lead, hs_size = n\<rparr>"
  define off where "off = hs_offset ?sp + lead"
  define tail where "tail = hs_size ?sp - lead - n"
  have sep: "separated 0 ?cap (ha_free ar)" and cap: "unat (ha_base ar) + ?cap < 2 ^ 64"
    and b0: "ha_base ar \<noteq> 0"
    using inv by (simp_all add: host_inv_def)
  have sp: "span_end ?sp \<le> ?cap" using separated_spans [OF sep] i by simp
  have ln: "unat lead + unat n \<le> unat (hs_size ?sp)" using fit by (simp add: fits_def)
  have uo: "unat off = unat (hs_offset ?sp) + unat lead"
    unfolding off_def using sp ln cap by (intro unat_add_no_overflow) (simp add: span_end_def)
  have "unat (hs_size ?sp - lead) = unat (hs_size ?sp) - unat lead"
    using ln by (intro unat_sub) (simp add: word_le_nat_alt)
  then have ut: "unat tail = unat (hs_size ?sp) - unat lead - unat n"
    unfolding tail_def using ln by (subst unat_sub) (simp_all add: word_le_nat_alt)
  have uon: "unat (off + n) = unat off + unat n"
    using sp ln cap uo by (intro unat_add_no_overflow) (simp add: span_end_def)
  have sb: "span_bytes_of s = {unat off..<unat off + unat n}"
    by (simp add: s_def span_bytes_of_def span_end_def off_def)
  have spb: "span_bytes_of ?sp = {unat (hs_offset ?sp)..<unat off} \<union> span_bytes_of s
      \<union> {unat off + unat n..<unat off + unat n + unat tail}"
    unfolding sb using ln by (auto simp: span_bytes_of_def span_end_def uo ut)
  define free0 where "free0 = remove_nth i (ha_free ar)"
  define free1 where "free1 = (if tail \<noteq> 0 then insert_free (off + n) tail free0 else free0)"
  define free2 where "free2 = (if lead \<noteq> 0 then insert_free (hs_offset ?sp) lead free1 else free1)"
  note r = separated_remove_nth [OF sep i, folded free0_def]
  have tl: "unat off + unat n + unat tail \<le> ?cap" using sp ln by (simp add: uo ut span_end_def)
  have f1: "separated 0 ?cap free1 \<and>
      free_bytes free1 = free_bytes free0 \<union> {unat off + unat n..<unat off + unat n + unat tail}"
  proof (cases "tail = 0")
    case False
    have "separated 0 ?cap (insert_free (off + n) tail free0) \<and>
      free_bytes (insert_free (off + n) tail free0)
        = free_bytes free0 \<union> {unat (off + n)..<unat (off + n) + unat tail}"
      by (rule insert_free_separated [OF r(1) False])
        (use tl cap r(3) spb in \<open>auto simp: uon\<close>)
    then show ?thesis using False by (simp add: free1_def uon)
  qed (use r(1) in \<open>simp add: free1_def\<close>)
  have f2: "separated 0 ?cap free2 \<and>
      free_bytes free2 = free_bytes free1 \<union> {unat (hs_offset ?sp)..<unat off}"
  proof (cases "lead = 0")
    case False
    have "separated 0 ?cap (insert_free (hs_offset ?sp) lead free1) \<and>
      free_bytes (insert_free (hs_offset ?sp) lead free1)
        = free_bytes free1 \<union> {unat (hs_offset ?sp)..<unat (hs_offset ?sp) + unat lead}"
      by (rule insert_free_separated [OF conjunct1 [OF f1] False])
        (use tl cap r(3) spb f1 uo in \<open>auto simp: disjoint_iff\<close>)
    then show ?thesis using False by (simp add: free2_def uo)
  qed (use f1 uo in \<open>simp add: free2_def\<close>)
  have sub: "span_bytes_of s \<subseteq> free_bytes (ha_free ar)" using spb r(2) by auto
  have "free_bytes free0 \<inter> span_bytes_of s = {}" using r(3) spb by blast
  then have fb: "free_bytes free2 = free_bytes (ha_free ar) - span_bytes_of s"
    using f1 f2 r(2) spb by (auto simp: sb)
  have n0: "0 < unat (hs_size s)" using n by (simp add: s_def unat_gt_0)
  note al = host_inv_alloc [OF inv n0 sub conjunct1 [OF f2] fb refl]
  have ub: "unat (ha_base ar + hs_offset s) = unat (ha_base ar) + unat off"
    using tl cap by (simp add: s_def off_def [symmetric] unat_add_no_overflow)
  have dv: "unat a dvd unat (ha_base ar + hs_offset s)"
    using fit align_up_bounds(1) by (auto simp: fits_def s_def add.assoc)
  have nz: "ha_base ar + hs_offset s \<noteq> 0" using ub b0 by (auto simp: unat_eq_0 [symmetric])
  have "try_alloc ar n a = Inr (ha_base ar + hs_offset s,
      ar\<lparr>ha_live := (ha_live ar)(ha_base ar + hs_offset s \<mapsto> s), ha_free := free2,
         ha_used := ha_used ar + hs_size s\<rparr>)"
    using b0 a n ff al(1)
    by (simp add: try_alloc_def Let_def s_def free2_def free1_def free0_def off_def tail_def)
  moreover have "hs_size s = n" by (simp add: s_def)
  ultimately show ?thesis
    using al dv nz sub fb by (intro exI [of _ s]) auto
qed

lemma try_alloc_total:
  assumes "host_inv ar" and "is_power_of_two a" and "n \<noteq> 0"
    and "unat (ha_base ar) + unat (ha_cap ar) + unat a \<le> 2 ^ 64"
  shows "\<exists>p ar'. try_alloc ar n a = Inr (p, ar') \<and> host_inv ar' \<and>
    (if p = 0
     then ar' = ar \<and> (\<forall>b. unat a dvd unat (ha_base ar) + b \<longrightarrow>
            \<not> {b..<b + unat n} \<subseteq> free_bytes (ha_free ar))
     else \<exists>s. p = ha_base ar + hs_offset s \<and> hs_size s = n \<and> unat a dvd unat p \<and>
            ha_live ar p = None \<and> ha_live ar' = (ha_live ar)(p \<mapsto> s) \<and>
            span_bytes_of s \<subseteq> free_bytes (ha_free ar) \<and>
            free_bytes (ha_free ar') = free_bytes (ha_free ar) - span_bytes_of s)"
proof (cases "n > ha_cap ar")
  case True
  have "\<not> {b..<b + unat n} \<subseteq> free_bytes (ha_free ar)" for b
  proof
    assume "{b..<b + unat n} \<subseteq> free_bytes (ha_free ar)"
    moreover have "free_bytes (ha_free ar) \<subseteq> {0..<unat (ha_cap ar)}"
      using assms(1) separated_bytes by (simp add: host_inv_def)
    ultimately have "{b..<b + unat n} \<subseteq> {0..<unat (ha_cap ar)}" by (rule subset_trans)
    from card_mono [OF _ this] True show False by (simp add: word_less_nat_alt)
  qed
  moreover have "ha_base ar \<noteq> 0" using assms(1) by (simp add: host_inv_def)
  ultimately show ?thesis using True assms by (simp add: try_alloc_def)
next
  case False
  have sep: "separated 0 (unat (ha_cap ar)) (ha_free ar)" and b0: "ha_base ar \<noteq> 0"
    using assms(1) by (simp_all add: host_inv_def)
  have room: "\<forall>s\<in>set (ha_free ar). unat (ha_base ar) + span_end s + unat a \<le> 2 ^ 64"
    using separated_spans [OF sep] assms(4) by fastforce
  from find_fit_total [OF assms(2) room, of n 0] obtain r where
    r: "find_fit (ha_base ar) n a 0 (ha_free ar) = Inr r" and
    c: "case r of None \<Rightarrow> \<forall>s\<in>set (ha_free ar). \<forall>lead. \<not> fits (ha_base ar) n a s lead
      | Some (j, lead) \<Rightarrow> 0 \<le> j \<and> j - 0 < length (ha_free ar)
          \<and> fits (ha_base ar) n a (ha_free ar ! (j - 0)) lead"
    by blast
  show ?thesis
  proof (cases r)
    case None
    then have "try_alloc ar n a = Inr (0, ar)"
      using False assms(2,3) b0 r by (simp add: try_alloc_def)
    moreover have "\<not> {b..<b + unat n} \<subseteq> free_bytes (ha_free ar)"
      if "unat a dvd unat (ha_base ar) + b" for b
      using fits_complete [OF assms that] c None by auto
    ultimately show ?thesis using assms(1) by simp
  next
    case (Some jl)
    then obtain j lead where jl: "r = Some (j, lead)" by (cases jl) simp
    with c have "j < length (ha_free ar)" "fits (ha_base ar) n a (ha_free ar ! j) lead" by simp_all
    from try_alloc_places [OF assms(1-3) False assms(4) r [unfolded jl] this] obtain ar' s where
      "try_alloc ar n a = Inr (ha_base ar + hs_offset s, ar')" "host_inv ar'" "hs_size s = n"
      "ha_live ar (ha_base ar + hs_offset s) = None"
      "ha_live ar' = (ha_live ar)(ha_base ar + hs_offset s \<mapsto> s)"
      "span_bytes_of s \<subseteq> free_bytes (ha_free ar)"
      "free_bytes (ha_free ar') = free_bytes (ha_free ar) - span_bytes_of s"
      "unat a dvd unat (ha_base ar + hs_offset s)" "ha_base ar + hs_offset s \<noteq> 0"
      by blast
    then show ?thesis by (intro exI [of _ "ha_base ar + hs_offset s"] exI [of _ ar']) auto
  qed
qed

lemma host_free_keeps_inv:
  assumes inv: "host_inv ar" and p: "ha_live ar p = Some s"
  shows "\<exists>ar'. host_free ar p = Inr ar' \<and> host_inv ar' \<and> ha_live ar' = (ha_live ar)(p := None) \<and>
    free_bytes (ha_free ar') = free_bytes (ha_free ar) \<union> span_bytes_of s \<and>
    ha_base ar' = ha_base ar \<and> ha_cap ar' = ha_cap ar"
proof -
  let ?L = "live_bytes (ha_live ar)" and ?L' = "live_bytes ((ha_live ar)(p := None))"
  let ?F = "free_bytes (ha_free ar)" and ?cap = "unat (ha_cap ar)"
  note l = host_inv_live [OF inv p]
  have base: "ha_base ar \<noteq> 0" "unat (ha_base ar) + ?cap < 2 ^ 64" "separated 0 ?cap (ha_free ar)"
    and part: "?F \<inter> ?L = {}" "?F \<union> ?L = {0..<?cap}"
    using inv by (simp_all add: host_inv_def)
  have "unat p = unat (ha_base ar) + unat (hs_offset s)"
    using l base(2) by (auto simp: span_end_def intro!: unat_add_no_overflow)
  then have p0: "p \<noteq> 0" using base(1) by (auto simp: unat_eq_0 [symmetric])
  have "ran (ha_live ar) = insert s (ran ((ha_live ar)(p := None)))"
    using p by (simp add: set_eq_iff ran_def) (metis option.inject)
  then have Lp: "?L = span_bytes_of s \<union> ?L'" by (simp add: live_bytes_def)
  have disj: "span_bytes_of s \<inter> ?L' = {}"
  proof -
    have "span_bytes_of s \<inter> span_bytes_of t = {}" if "ha_live ar q = Some t" "p \<noteq> q" for q t
      using inv p that unfolding host_inv_def by blast
    then show ?thesis by (auto simp: live_bytes_def ran_def split: if_splits)
  qed
  have s0: "hs_size s \<noteq> 0" using l by (auto simp: unat_gt_0)
  have ins: "separated 0 ?cap (insert_free (hs_offset s) (hs_size s) (ha_free ar)) \<and>
    free_bytes (insert_free (hs_offset s) (hs_size s) (ha_free ar)) = ?F \<union> span_bytes_of s"
    using insert_free_separated [OF base(3) s0, of "hs_offset s"] l base(2) part(1) Lp
    by (auto simp: span_bytes_of_def span_end_def disjoint_iff)
  have fin: "finite ?L" using part(2) finite_subset [of ?L "{0..<?cap}"] by auto
  have "card ?L = unat (hs_size s) + card ?L'"
    using disj fin Lp by (simp add: card_Un_disjoint span_bytes_of_def span_end_def)
  then have "unat (ha_used ar - hs_size s) = card ?L'"
    using inv by (subst unat_sub) (auto simp: host_inv_def word_le_nat_alt)
  then have "host_inv (ar\<lparr>ha_live := (ha_live ar)(p := None), ha_used := ha_used ar - hs_size s,
      ha_free := insert_free (hs_offset s) (hs_size s) (ha_free ar)\<rparr>)"
    using inv ins part Lp disj by (auto simp: host_inv_def split: if_splits)
  with ins p p0 show ?thesis by (simp add: host_free_def)
qed

text \<open>The comment in \<^verbatim>\<open>try_alloc\<close>: \<open>N\<close> live blocks separate at most \<open>N + 1\<close> free spans.\<close>

lemma separated_nth:
  "separated lo hi ss \<Longrightarrow> i < j \<Longrightarrow> j < length ss \<Longrightarrow> span_end (ss ! i) < unat (hs_offset (ss ! j))"
proof (induction ss arbitrary: lo i j)
  case (Cons s ss)
  show ?case
  proof (cases i)
    case 0
    with Cons.prems separated_spans [of "Suc (span_end s)" hi ss "ss ! (j - 1)"] show ?thesis
      by (auto simp: nth_Cons' Suc_le_eq)
  next
    case (Suc i')
    with Cons.prems Cons.IH [of "Suc (span_end s)" i' "j - 1"] show ?thesis
      by (auto simp: nth_Cons')
  qed
qed simp

lemma free_spans_bound:
  assumes "host_inv ar"
  shows "length (ha_free ar) \<le> card (dom (ha_live ar)) + 1"
proof -
  let ?F = "ha_free ar"
  have sep: "separated 0 (unat (ha_cap ar)) ?F"
    and part: "free_bytes ?F \<inter> live_bytes (ha_live ar) = {}"
      "free_bytes ?F \<union> live_bytes (ha_live ar) = {0..<unat (ha_cap ar)}"
    using assms by (simp_all add: host_inv_def)
  have "\<exists>p. \<exists>s. ha_live ar p = Some s \<and> span_end (?F ! i) \<in> span_bytes_of s"
    if "i < length ?F - 1" for i
  proof -
    have "span_end (?F ! i) < unat (hs_offset (?F ! Suc i))"
      using separated_nth [OF sep, of i "Suc i"] that by simp
    also have "\<dots> \<le> unat (ha_cap ar)"
      using separated_spans [OF sep, of "?F ! Suc i"] that by (simp add: span_end_def)
    finally have "span_end (?F ! i) \<in> free_bytes ?F \<union> live_bytes (ha_live ar)"
      by (simp add: part(2))
    moreover have "span_end (?F ! i) \<notin> free_bytes ?F"
      using span_end_not_free [OF sep] that by simp
    ultimately show ?thesis by (auto simp: live_bytes_def ran_def)
  qed
  then obtain f g where fg: "\<And>i. i < length ?F - 1 \<Longrightarrow>
      ha_live ar (f i) = Some (g i) \<and> span_end (?F ! i) \<in> span_bytes_of (g i)"
    by metis
  have less: "f i \<noteq> f j" if "i < j" "j < length ?F - 1" for i j
  proof
    have jF: "j < length ?F" using that(2) by simp
    assume "f i = f j"
    with fg [of i] fg [of j] that have g: "g i = g j"
      "span_end (?F ! i) \<in> span_bytes_of (g j)" "span_end (?F ! j) \<in> span_bytes_of (g j)" by auto
    have "unat (hs_offset (?F ! j)) \<in> span_bytes_of (g j)"
      using g(2,3) separated_nth [OF sep that(1) jF]
      by (auto simp: span_bytes_of_def span_end_def)
    then have "unat (hs_offset (?F ! j)) \<in> live_bytes (ha_live ar)"
      using fg [of j] that by (auto simp: live_bytes_def ran_def)
    moreover have "unat (hs_offset (?F ! j)) \<in> free_bytes ?F"
      using separated_spans [OF sep, of "?F ! j"] that
      by (auto simp: free_bytes_def span_bytes_of_def span_end_def intro!: bexI [of _ "?F ! j"])
    ultimately show False using part(1) by blast
  qed
  then have "inj_on f {..<length ?F - 1}" by (metis inj_onI lessThan_iff nat_neq_iff)
  moreover have "f ` {..<length ?F - 1} \<subseteq> dom (ha_live ar)" using fg by blast
  moreover have "finite (dom (ha_live ar))" by (rule finite_subset [OF subset_UNIV]) simp
  ultimately have "card {..<length ?F - 1} \<le> card (dom (ha_live ar))" by (rule card_inj_on_le)
  then show ?thesis by simp
qed

lemma all_freed:
  assumes inv: "host_inv ar" and empty: "ha_live ar = Map.empty" and cap: "ha_cap ar \<noteq> 0"
  shows "ha_free ar = [\<lparr>hs_offset = 0, hs_size = ha_cap ar\<rparr>] \<and> ha_used ar = 0"
proof -
  have sep: "separated 0 (unat (ha_cap ar)) (ha_free ar)"
    and all: "{0..<0 + unat (ha_cap ar)} \<subseteq> free_bytes (ha_free ar)"
    and used: "unat (ha_used ar) = 0"
    using inv empty by (simp_all add: host_inv_def live_bytes_def)
  have "0 < unat (ha_cap ar)" using cap by (simp add: unat_gt_0)
  with sep all obtain s where s: "s \<in> set (ha_free ar)" "unat (hs_offset s) \<le> 0"
    "0 + unat (ha_cap ar) \<le> span_end s" by (rule free_run_in_span)
  then have se: "span_end s = unat (ha_cap ar)" "unat (hs_offset s) = 0"
    using separated_spans [OF sep s(1)] by auto
  then have s_eq: "s = \<lparr>hs_offset = 0, hs_size = ha_cap ar\<rparr>"
    by (auto simp: span_end_def unat_eq_0 dest: unat_eqD intro: host_span.equality)
  have "ha_free ar = [s]"
  proof (cases "ha_free ar")
    case (Cons x xs)
    have "xs = []"
    proof (rule ccontr)
      assume "xs \<noteq> []"
      then obtain y where y: "y \<in> set xs" using hd_in_set by blast
      have "Suc (span_end x) \<le> unat (hs_offset y)" "0 < unat (hs_size y)" "span_end y \<le> unat (ha_cap ar)"
        using separated_spans [OF _ y] sep Cons by auto
      moreover have "s = x"
        using s(1) sep Cons separated_spans [of "Suc (span_end x)" "unat (ha_cap ar)" xs s] se by auto
      ultimately show False using se by (simp add: span_end_def)
    qed
    with s(1) Cons show ?thesis by simp
  qed (use s in simp)
  with s_eq used show ?thesis by (simp add: unat_eq_0)
qed

section \<open>Reachable arenas\<close>

lemma host_arena_init_inv:
  assumes "host_arena_init base capacity = Inr ar" and "base \<noteq> 0"
    and "unat base + unat capacity < 2 ^ 64"
  shows "host_inv ar \<and> ha_cap ar \<noteq> 0"
proof -
  from assms(1) have c: "capacity \<noteq> 0" and ar: "ar = \<lparr>ha_base = base, ha_cap = capacity,
      ha_used = 0, ha_free = [\<lparr>hs_offset = 0, hs_size = capacity\<rparr>], ha_live = Map.empty\<rparr>"
    by (simp_all add: host_arena_init_def split: if_split_asm)
  from c have "0 < unat capacity" by (simp add: unat_gt_0)
  then show ?thesis
    using assms(2,3) c by (simp add: ar host_inv_def span_bytes_of_def span_end_def live_bytes_def)
qed

lemma try_alloc_args:
  "try_alloc ar n a = Inr (p, ar') \<Longrightarrow> is_power_of_two a \<and> n \<noteq> 0 \<and> ha_cap ar' = ha_cap ar"
proof -
  assume r: "try_alloc ar n a = Inr (p, ar')"
  then have g: "ha_base ar \<noteq> 0" "is_power_of_two a" "n \<noteq> 0"
    by (simp_all add: try_alloc_def split: if_split_asm)
  have "ha_cap ar' = ha_cap ar"
  proof (cases "n > ha_cap ar")
    case True
    with r g show ?thesis by (simp add: try_alloc_def)
  next
    case False
    with r g obtain f where f: "find_fit (ha_base ar) n a 0 (ha_free ar) = Inr f"
      by (auto simp: try_alloc_def bind_result_eq_Inr)
    show ?thesis
    proof (cases f)
      case None
      with r g False f show ?thesis by (simp add: try_alloc_def)
    next
      case (Some il)
      then obtain i l where "f = Some (i, l)" by (cases il) simp
      with r g False f show ?thesis
        by (cases "ha_live ar (ha_base ar + (hs_offset (ha_free ar ! i) + l))")
          (auto simp: try_alloc_def Let_def)
    qed
  qed
  with g show ?thesis by simp
qed

lemma host_reachable_inv: "host_reachable ar \<Longrightarrow> host_inv ar \<and> ha_cap ar \<noteq> 0"
proof (induction rule: host_reachable.induct)
  case (start base capacity ar)
  then show ?case by (rule host_arena_init_inv)
next
  case (alloc ar a n p ar')
  from try_alloc_args [OF alloc(3)] have a: "is_power_of_two a" "n \<noteq> 0" "ha_cap ar' = ha_cap ar"
    by simp_all
  from try_alloc_total [OF conjunct1 [OF alloc(4)] a(1,2) alloc(2)] alloc(3,4) a(3)
  show ?case by auto
next
  case (release ar p ar')
  then obtain s where s: "ha_live ar p = Some s"
    by (auto simp: host_free_def split: if_splits option.splits)
  from host_free_keeps_inv [OF conjunct1 [OF release(3)] s] release(2,3) show ?case by auto
qed

lemma host_used_bound:
  assumes "host_inv ar" and "ha_live ar p = Some s"
  shows "unat (hs_size s) \<le> unat (ha_used ar)"
proof -
  have "span_bytes_of s \<subseteq> live_bytes (ha_live ar)"
    using assms(2) by (auto simp: live_bytes_def ran_def)
  moreover have "finite (live_bytes (ha_live ar))"
    using assms(1) unfolding host_inv_def by (metis finite_Un finite_atLeastLessThan)
  ultimately have "card (span_bytes_of s) \<le> card (live_bytes (ha_live ar))" by (rule card_mono [rotated])
  then show ?thesis using assms(1) by (simp add: host_inv_def span_bytes_of_def span_end_def)
qed

text \<open>
  C13: In every reachable state of the pinned host arena the live blocks and the free spans
  partition the capacity: live blocks never overlap each other or free memory, every block is at
  the address it is registered under, and the used counter is the number of live bytes. The free
  list is sorted and fully coalesced, has at most one span more than there are live blocks, and
  is the single full span again once every block has been freed.
\<close>

theorem host_reachable_safe:
  assumes "host_reachable ar"
  shows "host_inv ar \<and> length (ha_free ar) \<le> card (dom (ha_live ar)) + 1 \<and>
    (ha_live ar = Map.empty \<longrightarrow>
       ha_free ar = [\<lparr>hs_offset = 0, hs_size = ha_cap ar\<rparr>] \<and> ha_used ar = 0)"
  using host_reachable_inv [OF assms] free_spans_bound [of ar] all_freed [of ar] by simp

lemma demo_host_reachable: "host_reachable demo_host"
proof -
  have "host_arena_init 4096 1024 = Inr \<lparr>ha_base = 4096, ha_cap = 1024, ha_used = 0,
      ha_free = [\<lparr>hs_offset = 0, hs_size = 1024\<rparr>], ha_live = Map.empty\<rparr>"
    by (simp add: host_arena_init_def)
  then show ?thesis unfolding demo_host_def by (rule host_reachable.start) simp_all
qed

theorem host_reachable_safe_witness:
  "host_inv demo_host \<and> ha_free demo_host = [\<lparr>hs_offset = 0, hs_size = 1024\<rparr>]"
  using host_reachable_safe [OF demo_host_reachable] by (simp add: demo_host_def)

text \<open>
  C26: \<^verbatim>\<open>try_alloc\<close> is a complete allocator. In a reachable state, for a power-of-two alignment, a
  non-zero size and room behind the arena for the padding, it never throws: it returns null,
  changing nothing, only when no aligned run of free bytes of that size exists anywhere in the
  arena; otherwise it returns an aligned block of exactly that many bytes, all free before, and
  removes exactly those bytes from the free ones.
\<close>

theorem try_alloc_complete:
  assumes "host_reachable ar" and "is_power_of_two a" and "n \<noteq> 0"
    and "unat (ha_base ar) + unat (ha_cap ar) + unat a \<le> 2 ^ 64"
  shows "\<exists>p ar'. try_alloc ar n a = Inr (p, ar') \<and>
    (if p = 0
     then ar' = ar \<and> (\<forall>b. unat a dvd unat (ha_base ar) + b \<longrightarrow>
            \<not> {b..<b + unat n} \<subseteq> free_bytes (ha_free ar))
     else \<exists>s. p = ha_base ar + hs_offset s \<and> hs_size s = n \<and> unat a dvd unat p \<and>
            ha_live ar p = None \<and> ha_live ar' = (ha_live ar)(p \<mapsto> s) \<and>
            span_bytes_of s \<subseteq> free_bytes (ha_free ar) \<and>
            free_bytes (ha_free ar') = free_bytes (ha_free ar) - span_bytes_of s)"
  using try_alloc_total [OF conjunct1 [OF host_reachable_inv [OF assms(1)]] assms(2-4)] by blast

theorem try_alloc_complete_witness:
  "\<exists>p ar'. try_alloc demo_host 100 64 = Inr (p, ar') \<and> p \<noteq> 0 \<and> unat (64 :: u64) dvd unat p"
proof -
  have "is_power_of_two (64 :: u64)" by code_simp
  moreover have "unat (ha_base demo_host) + unat (ha_cap demo_host) + unat (64 :: u64) \<le> 2 ^ 64"
    by (simp add: demo_host_def)
  ultimately obtain p ar' where r: "try_alloc demo_host 100 64 = Inr (p, ar')"
    and c: "if p = 0
     then ar' = demo_host \<and> (\<forall>b. unat (64 :: u64) dvd unat (ha_base demo_host) + b \<longrightarrow>
            \<not> {b..<b + unat (100 :: u64)} \<subseteq> free_bytes (ha_free demo_host))
     else unat (64 :: u64) dvd unat p"
    using try_alloc_complete [OF demo_host_reachable, of 64 100] by (auto split: if_split_asm)
  have sub: "{0..<0 + unat (100 :: u64)} \<subseteq> free_bytes (ha_free demo_host)"
    by (auto simp: demo_host_def span_bytes_of_def span_end_def)
  have dv: "unat (64 :: u64) dvd unat (ha_base demo_host) + 0" by (simp add: demo_host_def)
  have "p \<noteq> 0"
  proof
    assume "p = 0"
    with c have "\<forall>b. unat (64 :: u64) dvd unat (ha_base demo_host) + b \<longrightarrow>
        \<not> {b..<b + unat (100 :: u64)} \<subseteq> free_bytes (ha_free demo_host)" by (simp only: if_True refl) blast
    from this [rule_format, OF dv] sub show False by blast
  qed
  then show ?thesis using r c by auto
qed

text \<open>
  C40: Freeing is exact. In a reachable state, freeing a live block succeeds, makes exactly its
  bytes free again and leaves every other block live; freeing null or an address that is not a
  live block is refused without a change of state.
\<close>

theorem host_free_exact:
  assumes "host_reachable ar"
  shows "case ha_live ar p of
      Some s \<Rightarrow> \<exists>ar'. host_free ar p = Inr ar' \<and> ha_live ar' = (ha_live ar)(p := None) \<and>
        free_bytes (ha_free ar') = free_bytes (ha_free ar) \<union> span_bytes_of s \<and>
        unat (ha_used ar') + unat (hs_size s) = unat (ha_used ar)
    | None \<Rightarrow> host_free ar p = Inl (if p = 0 then Invalid_argument else Logic_error)"
proof (cases "ha_live ar p")
  case None
  then show ?thesis by (simp add: host_free_def)
next
  case (Some s)
  have inv: "host_inv ar" using host_reachable_inv [OF assms] by simp
  obtain ar' where ar': "host_free ar p = Inr ar'" "host_inv ar'" "ha_live ar' = (ha_live ar)(p := None)"
    "free_bytes (ha_free ar') = free_bytes (ha_free ar) \<union> span_bytes_of s" "ha_cap ar' = ha_cap ar"
    using host_free_keeps_inv [OF inv Some] by blast
  have "unat (hs_size s) \<le> unat (ha_used ar)" by (rule host_used_bound [OF inv Some])
  moreover have "ha_used ar' = ha_used ar - hs_size s"
    using ar'(1) Some by (auto simp: host_free_def split: if_splits)
  ultimately have "unat (ha_used ar') + unat (hs_size s) = unat (ha_used ar)"
    by (simp add: unat_sub word_le_nat_alt)
  with ar' Some show ?thesis by auto
qed

theorem host_free_exact_witness: "host_free demo_host 4096 = Inl Logic_error"
  using host_free_exact [OF demo_host_reachable, of 4096] by (simp add: demo_host_def)

end
