(* ===== verification/Page_Ledger.thy ===== *)
theory Page_Ledger
  imports Prelude
begin

text \<open>
  The contract between a page pool and the allocations drawn from it, as used by
  \<^verbatim>\<open>src/src/core/paged_kv_cache.cpp\<close>. A pool hands out physical page ids up to the pages its
  clients are entitled to; a holding is what one client owns of it: the ids it has mapped and its
  entitlement. The ledger of all holdings is kept by every exchange with the pool, and taking
  pages within an entitlement cannot fail.
\<close>

type_synonym holding = "int list \<times> nat"

definition ledger :: "('p \<Rightarrow> nat \<Rightarrow> int multiset \<Rightarrow> bool) \<Rightarrow> 'p \<Rightarrow> holding list \<Rightarrow> bool" where
  "ledger pool_inv p hs \<longleftrightarrow>
     pool_inv p (\<Sum>h\<leftarrow>hs. snd h) (\<Sum>h\<leftarrow>hs. mset (fst h)) \<and>
     (\<forall>h\<in>set hs. length (fst h) \<le> snd h)"

lemma size_sum_mset_holdings:
  "(\<forall>h\<in>set hs. length (fst h) \<le> snd h) \<Longrightarrow>
     size (\<Sum>h\<leftarrow>hs. mset (fst h)) \<le> (\<Sum>h\<leftarrow>hs. snd h)"
  by (induction hs) auto

lemma count_mset_pos: "a \<in> set xs \<Longrightarrow> 1 \<le> count (mset xs) a"
  by (induction xs) auto

lemma ball_set_update:
  "\<forall>h\<in>set hs. P h \<Longrightarrow> P y \<Longrightarrow> \<forall>h\<in>set (hs[i := y]). P h"
  using set_update_subset_insert [of hs i y] by blast

lemma distinct_of_count:
  assumes "\<And>q. count (mset xs) q \<le> 1"
  shows "distinct xs"
  unfolding distinct_count_atmost_1
proof
  fix a
  show "count (mset xs) a = (if a \<in> set xs then 1 else 0)"
  proof (cases "a \<in> set xs")
    case True
    have "count (mset xs) a = 1" by (rule le_antisym [OF assms count_mset_pos [OF True]])
    with True show ?thesis by simp
  next
    case False
    then show ?thesis by simp
  qed
qed

text \<open>
  \<open>pool_inv p E M\<close>: the pool's accounts agree with \<open>E\<close> entitled pages and the mapped page
  ids \<open>M\<close>. The laws say what each exchange does to the accounts.
\<close>

locale page_pool =
  fixes pool_inv :: "'p \<Rightarrow> nat \<Rightarrow> int multiset \<Rightarrow> bool"
    and take_op :: "'p \<Rightarrow> u32 \<Rightarrow> int \<Rightarrow> (int list \<times> 'p) result"
    and give_op :: "'p \<Rightarrow> int list \<Rightarrow> 'p"
    and can_reserve_op :: "'p \<Rightarrow> u32 \<Rightarrow> bool"
    and add_op :: "'p \<Rightarrow> u32 \<Rightarrow> 'p"
    and can_replace :: "'p \<Rightarrow> u32 \<Rightarrow> u32 \<Rightarrow> bool"
    and replace_op :: "'p \<Rightarrow> u32 \<Rightarrow> u32 \<Rightarrow> 'p"
  assumes take_total: "pool_inv p E M \<Longrightarrow> size M + unat n \<le> E \<Longrightarrow>
      \<exists>ids p'. take_op p n pref = Inr (ids, p') \<and> length ids = unat n \<and>
               pool_inv p' E (M + mset ids)"
    and give_back: "pool_inv p E (M + mset ids) \<Longrightarrow> pool_inv (give_op p ids) E M"
    and add_law: "pool_inv p E M \<Longrightarrow> can_reserve_op p n \<Longrightarrow> pool_inv (add_op p n) (E + unat n) M"
    and replace_grow: "pool_inv p (E + unat old) M \<Longrightarrow> can_replace p old new \<Longrightarrow>
      pool_inv (replace_op p old new) (E + unat new) M"
    and replace_shrink: "pool_inv p (E + unat old) M \<Longrightarrow> unat new \<le> unat old \<Longrightarrow>
      pool_inv (replace_op p old new) (E + unat new) M"
    and mapped_distinct: "pool_inv p E M \<Longrightarrow> count M q \<le> 1"
begin

lemma ledger_focus:
  assumes "ledger pool_inv p hs" and "i < length hs"
  obtains E M where "size M \<le> E" and "length (fst (hs ! i)) \<le> snd (hs ! i)"
    and "pool_inv p (E + snd (hs ! i)) (M + mset (fst (hs ! i)))"
    and "\<forall>p' h. pool_inv p' (E + snd h) (M + mset (fst h)) \<longrightarrow> length (fst h) \<le> snd h \<longrightarrow>
           ledger pool_inv p' (hs[i := h])"
proof -
  obtain E where E: "(\<Sum>h\<leftarrow>hs. snd h) = E + snd (hs ! i)"
    and E': "\<And>y. (\<Sum>h\<leftarrow>hs[i := y]. snd h) = E + snd y"
    using sum_list_focus [OF assms(2), of snd] by blast
  obtain M where M: "(\<Sum>h\<leftarrow>hs. mset (fst h)) = M + mset (fst (hs ! i))"
    and M': "\<And>y. (\<Sum>h\<leftarrow>hs[i := y]. mset (fst h)) = M + mset (fst y)"
    using sum_list_focus [OF assms(2), of "\<lambda>h. mset (fst h)"] by blast
  have all: "\<forall>h\<in>set hs. length (fst h) \<le> snd h" using assms(1) by (simp add: ledger_def)
  then have "\<forall>h\<in>set (hs[i := ([], 0)]). length (fst h) \<le> snd h"
    by (rule ball_set_update) simp
  from size_sum_mset_holdings [OF this] have sz: "size M \<le> E"
    by (simp add: M' E')
  have len: "length (fst (hs ! i)) \<le> snd (hs ! i)" using all assms(2) by simp
  have inv: "pool_inv p (E + snd (hs ! i)) (M + mset (fst (hs ! i)))"
    using assms(1) by (simp add: ledger_def E M)
  have "ledger pool_inv p' (hs[i := h])"
    if "pool_inv p' (E + snd h) (M + mset (fst h))" and "length (fst h) \<le> snd h" for p' h
    unfolding ledger_def E' M' using that ball_set_update [OF all] by blast
  then show ?thesis using that [OF sz len inv] by blast
qed

text \<open>A new holding starts with an entitlement and no page.\<close>

lemma ledger_reserve:
  assumes "ledger pool_inv p hs" and "can_reserve_op p n"
  shows "ledger pool_inv (add_op p n) (hs @ [([], unat n)])"
  using assms add_law by (simp add: ledger_def)

text \<open>Mapping more pages within the entitlement succeeds.\<close>

lemma ledger_take:
  assumes "ledger pool_inv p hs" and "i < length hs"
    and "length (fst (hs ! i)) + unat n \<le> snd (hs ! i)"
  shows "\<exists>ids p'. take_op p n pref = Inr (ids, p') \<and> length ids = unat n \<and>
    ledger pool_inv p' (hs[i := (fst (hs ! i) @ ids, snd (hs ! i))])"
proof -
  obtain E M where
    s: "size M \<le> E" and len: "length (fst (hs ! i)) \<le> snd (hs ! i)" and
    inv: "pool_inv p (E + snd (hs ! i)) (M + mset (fst (hs ! i)))" and
    put: "\<forall>p' h. pool_inv p' (E + snd h) (M + mset (fst h)) \<longrightarrow> length (fst h) \<le> snd h \<longrightarrow>
           ledger pool_inv p' (hs[i := h])" by (rule ledger_focus [OF assms(1,2)])
  have "size (M + mset (fst (hs ! i))) + unat n \<le> E + snd (hs ! i)" using s assms(3) by simp
  from take_total [OF inv this, of pref] obtain ids p' where
    "take_op p n pref = Inr (ids, p')" "length ids = unat n"
    "pool_inv p' (E + snd (hs ! i)) (M + mset (fst (hs ! i)) + mset ids)" by blast
  moreover from this(3) have "ledger pool_inv p' (hs[i := (fst (hs ! i) @ ids, snd (hs ! i))])"
    using assms(3) calculation(2) by (intro put [rule_format]) (simp_all add: add.assoc)
  ultimately show ?thesis by blast
qed

text \<open>Returning the pages behind the first \<open>n\<close>.\<close>

lemma ledger_trim:
  assumes "ledger pool_inv p hs" and "i < length hs"
  shows "ledger pool_inv (give_op p (drop n (fst (hs ! i))))
    (hs[i := (take n (fst (hs ! i)), snd (hs ! i))])"
proof -
  obtain E M where
    s: "size M \<le> E" and len: "length (fst (hs ! i)) \<le> snd (hs ! i)" and
    inv: "pool_inv p (E + snd (hs ! i)) (M + mset (fst (hs ! i)))" and
    put: "\<forall>p' h. pool_inv p' (E + snd h) (M + mset (fst h)) \<longrightarrow> length (fst h) \<le> snd h \<longrightarrow>
           ledger pool_inv p' (hs[i := h])" by (rule ledger_focus [OF assms])
  have "mset (fst (hs ! i)) = mset (take n (fst (hs ! i))) + mset (drop n (fst (hs ! i)))"
    by (simp flip: mset_append)
  then have "pool_inv p (E + snd (hs ! i))
      (M + mset (take n (fst (hs ! i))) + mset (drop n (fst (hs ! i))))"
    using inv by (simp add: add.assoc)
  from give_back [OF this] show ?thesis using len by (intro put [rule_format]) simp_all
qed

text \<open>Changing the entitlement, upwards when the pool has room for it.\<close>

lemma ledger_replace:
  assumes "ledger pool_inv p hs" and "i < length hs" and "snd (hs ! i) = unat old"
    and "length (fst (hs ! i)) \<le> unat new" and "can_replace p old new \<or> unat new \<le> unat old"
  shows "ledger pool_inv (replace_op p old new) (hs[i := (fst (hs ! i), unat new)])"
proof -
  obtain E M where
    s: "size M \<le> E" and len: "length (fst (hs ! i)) \<le> snd (hs ! i)" and
    inv: "pool_inv p (E + snd (hs ! i)) (M + mset (fst (hs ! i)))" and
    put: "\<forall>p' h. pool_inv p' (E + snd h) (M + mset (fst h)) \<longrightarrow> length (fst h) \<le> snd h \<longrightarrow>
           ledger pool_inv p' (hs[i := h])" by (rule ledger_focus [OF assms(1,2)])
  have "pool_inv (replace_op p old new) (E + unat new) (M + mset (fst (hs ! i)))"
    using assms(5)
  proof
    assume "can_replace p old new"
    with inv [unfolded assms(3)] show ?thesis by (rule replace_grow)
  next
    assume "unat new \<le> unat old"
    with inv [unfolded assms(3)] show ?thesis by (rule replace_shrink)
  qed
  then show ?thesis using assms(4) by (intro put [rule_format]) simp_all
qed

text \<open>No page is mapped twice, neither within a holding nor by two of them.\<close>

lemma ledger_distinct:
  assumes "ledger pool_inv p hs" and "i < length hs"
  shows "distinct (fst (hs ! i))"
    and "j < length hs \<Longrightarrow> i \<noteq> j \<Longrightarrow> set (fst (hs ! i)) \<inter> set (fst (hs ! j)) = {}"
proof -
  let ?M = "\<Sum>h\<leftarrow>hs. mset (fst h)"
  have one: "count ?M q \<le> 1" for q
    using assms(1) unfolding ledger_def by (blast intro: mapped_distinct)
  obtain R where R: "?M = R + mset (fst (hs ! i))"
    and R': "\<And>y. (\<Sum>h\<leftarrow>hs[i := y]. mset (fst h)) = R + mset (fst y)"
    using sum_list_focus [OF assms(2), of "\<lambda>h. mset (fst h)"] by blast
  have "count (mset (fst (hs ! i))) q \<le> 1" for q
    using one [of q] unfolding R count_union by linarith
  then show "distinct (fst (hs ! i))" by (rule distinct_of_count)
  show "set (fst (hs ! i)) \<inter> set (fst (hs ! j)) = {}" if j: "j < length hs" and ij: "i \<noteq> j"
  proof -
    have jl: "j < length (hs[i := ([], 0)])" using j by simp
    obtain S where "(\<Sum>h\<leftarrow>hs[i := ([], 0)]. mset (fst h)) = S + mset (fst (hs[i := ([], 0)] ! j))"
      using sum_list_focus [OF jl, of "\<lambda>h. mset (fst h)"] by blast
    then have RS: "R = S + mset (fst (hs ! j))"
      unfolding R' nth_list_update_neq [OF ij] by simp
    have two: "count (mset (fst (hs ! i))) q + count (mset (fst (hs ! j))) q \<le> 1" for q
      using one [of q] unfolding R unfolding RS count_union by linarith
    show ?thesis
    proof (rule ccontr)
      assume "\<not> ?thesis"
      then obtain q where "q \<in> set (fst (hs ! i))" "q \<in> set (fst (hs ! j))" by blast
      from count_mset_pos [OF this(1)] count_mset_pos [OF this(2)] two [of q] show False
        by linarith
    qed
  qed
qed

end

end
