(* ===== verification/Paged_KV.thy ===== *)
theory Paged_KV
  imports Tensor_Layout Page_Ledger
begin

text \<open>
  The paged KV cache of \<^verbatim>\<open>src/src/core/paged_kv_cache.cpp\<close>: the pool of physical page groups, the
  allocations that hold entitlements and mapped pages of it, the block-table rows they publish
  their mapping to, and the operations on bundles of pools. Pools and allocations are objects
  with identity in the source, so the model keeps them in a heap: a pool or an allocation is
  named by its index. An operation that can throw returns the heap together with its result, so
  that the state left behind by an exception is part of the model. The host vectors grow without
  bound (their \<^verbatim>\<open>reserve\<close> calls are not modelled), and the asynchronous copies into the device
  block tables are recorded, in order, in the pool.
\<close>

section \<open>Specifications and layouts\<close>

record plane_spec =
  ps_dtype :: dtype
  ps_leading_extent :: int
  ps_head_extent :: int
  ps_alignment :: u64

datatype plane_order = PageMajor | HeadMajor

record pool_spec =
  sp_page_group_count :: u32
  sp_logical_page_capacity :: u32
  sp_table_rows :: int
  sp_plane_order :: plane_order
  sp_planes :: "plane_spec list"

record plane_layout =
  pl_spec :: plane_spec
  pl_storage :: tensor_region

record pool_layout =
  lay_spec :: pool_spec
  lay_planes :: "plane_layout list"
  lay_block_tables :: tensor_region

definition kPagedKVPageSize :: nat where
  "kPagedKVPageSize = 64"

definition checked_i32 :: "u32 \<Rightarrow> int result" where
  "checked_i32 v =
     (if v = 0 \<or> v > 0x7FFFFFFF then Inl Invalid_argument else Inr (sint v))"

definition pages_for_tokens :: "u32 \<Rightarrow> u32" where
  "pages_for_tokens tokens =
     (if tokens = 0 then 0 else 1 + (tokens - 1) div of_nat kPagedKVPageSize)"

text \<open>The loop over the planes; the builder is the caller's, also when a plane is rejected.\<close>

fun plan_planes ::
  "layout_builder \<Rightarrow> plane_order \<Rightarrow> int \<Rightarrow> plane_spec list \<Rightarrow>
     layout_builder \<times> plane_layout list result" where
  "plan_planes b order physical_pages [] = (b, Inr [])"
| "plan_planes b order physical_pages (plane # planes) =
     (if ps_leading_extent plane \<le> 0 \<or> ps_head_extent plane \<le> 0 then (b, Inl Invalid_argument)
      else (case layout_add_tensor b (ps_dtype plane)
                   (if order = PageMajor
                    then [ps_leading_extent plane, int kPagedKVPageSize, ps_head_extent plane,
                          physical_pages]
                    else [ps_leading_extent plane, int kPagedKVPageSize, physical_pages,
                          ps_head_extent plane])
                   (ps_alignment plane) of
              Inl e \<Rightarrow> (b, Inl e)
            | Inr (storage, b') \<Rightarrow>
                (case plan_planes b' order physical_pages planes of
                   (b'', Inl e) \<Rightarrow> (b'', Inl e)
                 | (b'', Inr rest) \<Rightarrow>
                     (b'', Inr (\<lparr>pl_spec = plane, pl_storage = storage\<rparr> # rest)))))"

definition plan_paged_kv_pool ::
  "layout_builder \<Rightarrow> pool_spec \<Rightarrow> layout_builder \<times> pool_layout result" where
  "plan_paged_kv_pool b spec =
     (case checked_i32 (sp_page_group_count spec) of
        Inl e \<Rightarrow> (b, Inl e)
      | Inr physical_pages \<Rightarrow>
     (case checked_i32 (sp_logical_page_capacity spec) of
        Inl e \<Rightarrow> (b, Inl e)
      | Inr logical_pages \<Rightarrow>
        if sp_table_rows spec \<le> 0 then (b, Inl Invalid_argument)
        else if sp_planes spec = [] then (b, Inl Invalid_argument)
        else (case plan_planes b (sp_plane_order spec) physical_pages (sp_planes spec) of
                (b', Inl e) \<Rightarrow> (b', Inl e)
              | (b', Inr planes) \<Rightarrow>
                  (case layout_add_tensor b' I32 [logical_pages, sp_table_rows spec] 256 of
                     Inl e \<Rightarrow> (b', Inl e)
                   | Inr (tables, b'') \<Rightarrow>
                       (b'', Inr \<lparr>lay_spec = spec, lay_planes = planes,
                                  lay_block_tables = tables\<rparr>)))))"

definition payload_bytes :: "pool_layout \<Rightarrow> u64" where
  "payload_bytes lay = sum_list (map (\<lambda>pl. lr_bytes (tr_region (pl_storage pl))) (lay_planes lay))"

definition metadata_bytes :: "pool_layout \<Rightarrow> u64" where
  "metadata_bytes lay = lr_bytes (tr_region (lay_block_tables lay))"

section \<open>The pool\<close>

text \<open>One asynchronous host-to-device copy of page ids, to a device address.\<close>

record table_write =
  tw_dst :: u64
  tw_ids :: "int list"

record paged_kv_pool =
  kp_spec :: pool_spec
  kp_planes :: "tensor list"
  kp_block_tables :: tensor
  kp_free_page_ids :: "int list"
  kp_row_in_use :: "bool list"
  kp_entitled_pages :: u32
  kp_mapped_pages :: u32
  kp_table_writes :: "table_write list"

fun bind_planes ::
  "device_span \<Rightarrow> plane_layout list \<Rightarrow> plane_spec list \<Rightarrow> tensor list result" where
  "bind_planes backing (pl # pls) (sp # sps) =
     (if ps_dtype (pl_spec pl) \<noteq> ps_dtype sp
         \<or> ps_leading_extent (pl_spec pl) \<noteq> ps_leading_extent sp
         \<or> ps_head_extent (pl_spec pl) \<noteq> ps_head_extent sp
      then Inl Logic_error
      else bind_result (tensor_region_bind (pl_storage pl) backing) (\<lambda>t.
        bind_result (bind_planes backing pls sps) (\<lambda>ts. Inr (t # ts))))"
| "bind_planes backing _ _ = Inr []"

text \<open>A negative row count converts to a size no vector can have.\<close>

definition make_pool :: "device_span \<Rightarrow> pool_layout \<Rightarrow> paged_kv_pool result" where
  "make_pool backing lay =
     (let spec = lay_spec lay in
      bind_result (tensor_region_bind (lay_block_tables lay) backing) (\<lambda>tables.
        if sp_table_rows spec < 0 then Inl Logic_error
        else if length (lay_planes lay) \<noteq> length (sp_planes spec) \<or> lay_planes lay = []
        then Inl Invalid_argument
        else if t_dtype tables \<noteq> I32 then Inl Logic_error
        else bind_result (checked_i32 (sp_logical_page_capacity spec)) (\<lambda>logical_pages.
          if t_ne tables ! 0 \<noteq> logical_pages \<or> t_ne tables ! 1 \<noteq> sp_table_rows spec
          then Inl Logic_error
          else bind_result (bind_planes backing (lay_planes lay) (sp_planes spec)) (\<lambda>planes.
            Inr \<lparr>kp_spec = spec, kp_planes = planes, kp_block_tables = tables,
                 kp_free_page_ids =
                   map (\<lambda>page. sint (of_nat page :: u32)) [0..<unat (sp_page_group_count spec)],
                 kp_row_in_use = replicate (nat (sp_table_rows spec)) False,
                 kp_entitled_pages = 0, kp_mapped_pages = 0, kp_table_writes = []\<rparr>))))"

abbreviation page_group_count :: "paged_kv_pool \<Rightarrow> u32" where
  "page_group_count p \<equiv> sp_page_group_count (kp_spec p)"

abbreviation logical_page_capacity :: "paged_kv_pool \<Rightarrow> u32" where
  "logical_page_capacity p \<equiv> sp_logical_page_capacity (kp_spec p)"

abbreviation table_row_count :: "paged_kv_pool \<Rightarrow> int" where
  "table_row_count p \<equiv> sp_table_rows (kp_spec p)"

definition block_table_row :: "paged_kv_pool \<Rightarrow> int \<Rightarrow> tensor result" where
  "block_table_row p row =
     (if row < 0 \<or> row \<ge> table_row_count p then Inl Out_of_range
      else bind_result (tensor_slice (kp_block_tables p) 1 row 1) (\<lambda>t.
        tensor_view t [sint (logical_page_capacity p)]))"

definition free_pages :: "paged_kv_pool \<Rightarrow> u32" where
  "free_pages p = of_nat (length (kp_free_page_ids p))"

definition can_reserve :: "paged_kv_pool \<Rightarrow> u32 \<Rightarrow> bool" where
  "can_reserve p n \<longleftrightarrow>
     n \<noteq> 0 \<and> n \<le> logical_page_capacity p \<and> n \<le> page_group_count p - kp_entitled_pages p"

definition can_replace_entitlement :: "paged_kv_pool \<Rightarrow> u32 \<Rightarrow> u32 \<Rightarrow> bool" where
  "can_replace_entitlement p old_pages new_pages \<longleftrightarrow>
     old_pages \<le> kp_entitled_pages p \<and> new_pages \<le> logical_page_capacity p \<and>
     new_pages \<le> page_group_count p - (kp_entitled_pages p - old_pages)"

text \<open>\<^verbatim>\<open>run_at\<close>: the ids from index \<open>start\<close> on are \<open>n\<close> consecutive page numbers.\<close>

definition run_at :: "int list \<Rightarrow> nat \<Rightarrow> nat \<Rightarrow> bool" where
  "run_at free n start \<longleftrightarrow>
     start + n \<le> length free \<and>
     list_all (\<lambda>offset. free ! (start + offset) = free ! start + int offset) [1..<n]"

definition lower_bound :: "int list \<Rightarrow> int \<Rightarrow> nat" where
  "lower_bound xs x = length (takeWhile (\<lambda>y. y < x) xs)"

definition preferred_run :: "int list \<Rightarrow> nat \<Rightarrow> int \<Rightarrow> nat option" where
  "preferred_run free n preferred_first =
     (if preferred_first \<ge> 0 then
        (let start = lower_bound free preferred_first in
         if start < length free \<and> free ! start = preferred_first \<and> run_at free n start
         then Some start else None)
      else None)"

definition first_run :: "int list \<Rightarrow> nat \<Rightarrow> nat option" where
  "first_run free n = find (run_at free n) [0..<length free + 1 - n]"

definition select_run :: "int list \<Rightarrow> nat \<Rightarrow> int \<Rightarrow> nat option" where
  "select_run free n preferred_first =
     (case preferred_run free n preferred_first of
        Some start \<Rightarrow> Some start
      | None \<Rightarrow> first_run free n)"

definition take_pages :: "paged_kv_pool \<Rightarrow> u32 \<Rightarrow> int \<Rightarrow> (int list \<times> paged_kv_pool) result" where
  "take_pages p n preferred_first =
     (let free = kp_free_page_ids p; c = unat n in
      if n = 0 then Inr ([], p)
      else if c > length free then Inl Logic_error
      else (let start = (case select_run free c preferred_first of Some b \<Rightarrow> b | None \<Rightarrow> 0) in
        Inr (take c (drop start free),
             p\<lparr>kp_free_page_ids := take start free @ drop (start + c) free,
               kp_mapped_pages := kp_mapped_pages p + n\<rparr>)))"

definition return_pages :: "paged_kv_pool \<Rightarrow> int list \<Rightarrow> paged_kv_pool" where
  "return_pages p pages =
     (if pages = [] then p
      else p\<lparr>kp_free_page_ids := sort (kp_free_page_ids p @ pages),
             kp_mapped_pages := kp_mapped_pages p - of_nat (length pages)\<rparr>)"

definition add_entitlement :: "paged_kv_pool \<Rightarrow> u32 \<Rightarrow> paged_kv_pool" where
  "add_entitlement p n = p\<lparr>kp_entitled_pages := kp_entitled_pages p + n\<rparr>"

definition replace_entitlement :: "paged_kv_pool \<Rightarrow> u32 \<Rightarrow> u32 \<Rightarrow> paged_kv_pool" where
  "replace_entitlement p old_pages new_pages =
     p\<lparr>kp_entitled_pages := kp_entitled_pages p - old_pages + new_pages\<rparr>"

definition acquire_row :: "paged_kv_pool \<Rightarrow> int \<Rightarrow> paged_kv_pool result" where
  "acquire_row p row =
     (if row < 0 \<or> row \<ge> table_row_count p then Inl Out_of_range
      else if kp_row_in_use p ! nat row then Inl Logic_error
      else Inr (p\<lparr>kp_row_in_use := (kp_row_in_use p)[nat row := True]\<rparr>))"

definition release_row :: "paged_kv_pool \<Rightarrow> int \<Rightarrow> paged_kv_pool" where
  "release_row p row = p\<lparr>kp_row_in_use := (kp_row_in_use p)[nat row := False]\<rparr>"

section \<open>Allocations\<close>

text \<open>\<open>ka_pool\<close> is the index of the owning pool, \<open>None\<close> for the null pointer.\<close>

record kv_allocation =
  ka_pool :: "nat option"
  ka_page_ids :: "int list"
  ka_page_entitlement :: u32
  ka_bound_row :: int

definition null_allocation :: kv_allocation where
  "null_allocation =
     \<lparr>ka_pool = None, ka_page_ids = [], ka_page_entitlement = 0, ka_bound_row = - 1\<rparr>"

record kv_heap =
  kh_pools :: "paged_kv_pool list"
  kh_allocs :: "kv_allocation list"

type_synonym kv_outcome = "kv_heap \<times> unit result"

definition kv_put :: "kv_heap \<Rightarrow> nat \<Rightarrow> paged_kv_pool \<Rightarrow> nat \<Rightarrow> kv_allocation \<Rightarrow> kv_heap" where
  "kv_put h k p i a =
     h\<lparr>kh_pools := (kh_pools h)[k := p], kh_allocs := (kh_allocs h)[i := a]\<rparr>"

definition mapped_page_count :: "kv_allocation \<Rightarrow> u32" where
  "mapped_page_count a = of_nat (length (ka_page_ids a))"

definition mapped_token_capacity :: "kv_allocation \<Rightarrow> u32" where
  "mapped_token_capacity a = mapped_page_count a * of_nat kPagedKVPageSize"

definition reserve :: "kv_heap \<Rightarrow> nat \<Rightarrow> u32 \<Rightarrow> kv_heap \<times> nat result" where
  "reserve h k n =
     (let p = kh_pools h ! k in
      if \<not> can_reserve p n then (h, Inl Bad_alloc)
      else (h\<lparr>kh_pools := (kh_pools h)[k := add_entitlement p n],
              kh_allocs := kh_allocs h @
                [\<lparr>ka_pool = Some k, ka_page_ids = [], ka_page_entitlement = n,
                  ka_bound_row = - 1\<rparr>]\<rparr>,
            Inr (length (kh_allocs h))))"

definition set_page_entitlement :: "kv_heap \<Rightarrow> nat \<Rightarrow> u32 \<Rightarrow> kv_outcome" where
  "set_page_entitlement h i pages =
     (let a = kh_allocs h ! i in
      case ka_pool a of
        None \<Rightarrow> (h, Inl Invalid_argument)
      | Some k \<Rightarrow>
          if pages < mapped_page_count a then (h, Inl Invalid_argument)
          else (let p = kh_pools h ! k in
            if \<not> can_replace_entitlement p (ka_page_entitlement a) pages then (h, Inl Bad_alloc)
            else (kv_put h k (replace_entitlement p (ka_page_entitlement a) pages)
                         i (a\<lparr>ka_page_entitlement := pages\<rparr>), Inr ())))"

definition cancel_unmapped_entitlement :: "kv_heap \<Rightarrow> nat \<Rightarrow> kv_heap" where
  "cancel_unmapped_entitlement h i =
     (let a = kh_allocs h ! i in
      case ka_pool a of
        None \<Rightarrow> h
      | Some k \<Rightarrow>
          kv_put h k (replace_entitlement (kh_pools h ! k) (ka_page_entitlement a)
                        (mapped_page_count a))
                 i (a\<lparr>ka_page_entitlement := mapped_page_count a\<rparr>))"

text \<open>The enqueued copy goes to the row's address plus four bytes per preceding entry.\<close>

definition publish_range ::
  "paged_kv_pool \<Rightarrow> kv_allocation \<Rightarrow> u32 \<Rightarrow> u32 \<Rightarrow> paged_kv_pool result" where
  "publish_range p a first_page page_count =
     (if page_count = 0 then Inr p
      else bind_result (block_table_row p (ka_bound_row a)) (\<lambda>row.
        Inr (p\<lparr>kp_table_writes := kp_table_writes p @
                [\<lparr>tw_dst = t_data row + 4 * ucast first_page,
                  tw_ids = take (unat page_count) (drop (unat first_page) (ka_page_ids a))\<rparr>]\<rparr>)))"

definition publish_mapping :: "kv_heap \<Rightarrow> nat \<Rightarrow> kv_outcome" where
  "publish_mapping h i =
     (let a = kh_allocs h ! i in
      if ka_bound_row a < 0 then (h, Inl Logic_error)
      else (let k = the (ka_pool a) in
        case publish_range (kh_pools h ! k) a 0 (mapped_page_count a) of
          Inl e \<Rightarrow> (h, Inl e)
        | Inr p \<Rightarrow> (kv_put h k p i a, Inr ())))"

definition materialize_pages :: "kv_heap \<Rightarrow> nat \<Rightarrow> u32 \<Rightarrow> kv_outcome" where
  "materialize_pages h i pages =
     (let a = kh_allocs h ! i in
      case ka_pool a of
        None \<Rightarrow> (h, Inl Invalid_argument)
      | Some k \<Rightarrow>
          if pages < mapped_page_count a \<or> pages > ka_page_entitlement a
          then (h, Inl Invalid_argument)
          else (let old_count = mapped_page_count a; n = pages - old_count in
            if n = 0 then (h, Inr ())
            else (let preferred = (if ka_page_ids a = [] then - 1 else last (ka_page_ids a) + 1) in
              case take_pages (kh_pools h ! k) n preferred of
                Inl e \<Rightarrow> (h, Inl e)
              | Inr (acquired, p) \<Rightarrow>
                  (let a' = a\<lparr>ka_page_ids := ka_page_ids a @ acquired\<rparr> in
                   if ka_bound_row a \<ge> 0 then
                     (case publish_range p a' old_count n of
                        Inl e \<Rightarrow> (kv_put h k p i a', Inl e)
                      | Inr p' \<Rightarrow> (kv_put h k p' i a', Inr ()))
                   else (kv_put h k p i a', Inr ())))))"

definition materialize_tokens :: "kv_heap \<Rightarrow> nat \<Rightarrow> u32 \<Rightarrow> kv_outcome" where
  "materialize_tokens h i tokens = materialize_pages h i (pages_for_tokens tokens)"

definition trim_pages :: "kv_heap \<Rightarrow> nat \<Rightarrow> u32 \<Rightarrow> kv_outcome" where
  "trim_pages h i pages =
     (let a = kh_allocs h ! i in
      case ka_pool a of
        None \<Rightarrow> (h, Inl Logic_error)
      | Some k \<Rightarrow>
          if pages > mapped_page_count a then (h, Inl Invalid_argument)
          else if pages = mapped_page_count a then (h, Inr ())
          else (kv_put h k
                  (return_pages (kh_pools h ! k)
                     (take (unat (mapped_page_count a - pages)) (drop (unat pages) (ka_page_ids a))))
                  i (a\<lparr>ka_page_ids := take (unat pages) (ka_page_ids a)\<rparr>), Inr ()))"

definition trim_tokens :: "kv_heap \<Rightarrow> nat \<Rightarrow> u32 \<Rightarrow> kv_outcome" where
  "trim_tokens h i tokens = trim_pages h i (pages_for_tokens tokens)"

definition bind_row :: "kv_heap \<Rightarrow> nat \<Rightarrow> int \<Rightarrow> kv_outcome" where
  "bind_row h i row =
     (let a = kh_allocs h ! i in
      case ka_pool a of
        None \<Rightarrow> (h, Inl Logic_error)
      | Some k \<Rightarrow>
          if ka_bound_row a \<ge> 0 then (h, Inl Logic_error)
          else (case acquire_row (kh_pools h ! k) row of
                  Inl e \<Rightarrow> (h, Inl e)
                | Inr p \<Rightarrow> publish_mapping (kv_put h k p i (a\<lparr>ka_bound_row := row\<rparr>)) i))"

definition unbind_row :: "kv_heap \<Rightarrow> nat \<Rightarrow> kv_heap" where
  "unbind_row h i =
     (let a = kh_allocs h ! i in
      if ka_bound_row a < 0 then h
      else (let k = the (ka_pool a) in
        kv_put h k (release_row (kh_pools h ! k) (ka_bound_row a)) i (a\<lparr>ka_bound_row := - 1\<rparr>)))"

definition block_table :: "kv_heap \<Rightarrow> nat \<Rightarrow> tensor result" where
  "block_table h i =
     (let a = kh_allocs h ! i in
      if ka_bound_row a < 0 then Inl Logic_error
      else block_table_row (kh_pools h ! the (ka_pool a)) (ka_bound_row a))"

text \<open>\<^verbatim>\<open>release\<close>, which is also the destructor. The row is unbound first; what is left is
  \<^verbatim>\<open>bound_row_ == -1\<close>.\<close>

definition release_allocation :: "kv_heap \<Rightarrow> nat \<Rightarrow> kv_heap" where
  "release_allocation h i =
     (case ka_pool (kh_allocs h ! i) of
        None \<Rightarrow> h
      | Some k \<Rightarrow>
          (let h1 = unbind_row h i; a = kh_allocs h1 ! i;
               p = return_pages (kh_pools h1 ! k) (ka_page_ids a)
           in kv_put h1 k (replace_entitlement p (ka_page_entitlement a) 0)
                i (a\<lparr>ka_page_ids := [], ka_page_entitlement := 0, ka_pool := None\<rparr>)))"

text \<open>The moved-from allocation is null: \<^verbatim>\<open>std::move\<close> of a vector leaves it empty.\<close>

definition move_construct :: "kv_heap \<Rightarrow> nat \<Rightarrow> kv_heap" where
  "move_construct h j =
     h\<lparr>kh_allocs := (kh_allocs h)[j := null_allocation] @ [kh_allocs h ! j]\<rparr>"

definition move_assign :: "kv_heap \<Rightarrow> nat \<Rightarrow> nat \<Rightarrow> kv_heap" where
  "move_assign h i j =
     (if i = j then h
      else (let h1 = release_allocation h i in
        h1\<lparr>kh_allocs := (kh_allocs h1)[i := kh_allocs h1 ! j, j := null_allocation]\<rparr>))"

section \<open>Bundles over several pools\<close>

record kv_reservation =
  kr_pool :: "nat option"
  kr_page_entitlement :: u32

text \<open>The nested loop: each reservation against the ones before it.\<close>

fun distinct_pools_loop :: "kv_reservation list \<Rightarrow> kv_reservation list \<Rightarrow> unit result" where
  "distinct_pools_loop seen [] = Inr ()"
| "distinct_pools_loop seen (r # rs) =
     (if kr_pool r = None \<or> kr_page_entitlement r = 0 then Inl Invalid_argument
      else if list_ex (\<lambda>s. kr_pool s = kr_pool r) seen then Inl Invalid_argument
      else distinct_pools_loop (seen @ [r]) rs)"

definition validate_distinct_pools :: "kv_reservation list \<Rightarrow> unit result" where
  "validate_distinct_pools rs = distinct_pools_loop [] rs"

text \<open>The pushing loop; an exception unwinds the vector of the allocations made so far.\<close>

fun reserve_loop :: "kv_heap \<Rightarrow> nat list \<Rightarrow> kv_reservation list \<Rightarrow> kv_heap \<times> nat list result" where
  "reserve_loop h made [] = (h, Inr made)"
| "reserve_loop h made (r # rs) =
     (case reserve h (the (kr_pool r)) (kr_page_entitlement r) of
        (h', Inl e) \<Rightarrow> (fold (\<lambda>i h. release_allocation h i) made h', Inl e)
      | (h', Inr i) \<Rightarrow> reserve_loop h' (made @ [i]) rs)"

definition reserve_paged_kv_bundle ::
  "kv_heap \<Rightarrow> kv_reservation list \<Rightarrow> kv_heap \<times> nat list result" where
  "reserve_paged_kv_bundle h rs =
     (case validate_distinct_pools rs of
        Inl e \<Rightarrow> (h, Inl e)
      | Inr _ \<Rightarrow>
          if list_ex (\<lambda>r. \<not> can_reserve (kh_pools h ! the (kr_pool r)) (kr_page_entitlement r)) rs
          then (h, Inl Bad_alloc)
          else reserve_loop h [] rs)"

record kv_resize =
  kz_allocation :: "nat option"
  kz_mapped_pages :: u32
  kz_page_entitlement :: u32

fun resize_validate :: "kv_heap \<Rightarrow> kv_resize list \<Rightarrow> kv_resize list \<Rightarrow> unit result" where
  "resize_validate h seen [] = Inr ()"
| "resize_validate h seen (c # cs) =
     (case kz_allocation c of
        None \<Rightarrow> Inl Invalid_argument
      | Some i \<Rightarrow>
          (let a = kh_allocs h ! i in
           case ka_pool a of
             None \<Rightarrow> Inl Invalid_argument
           | Some k \<Rightarrow>
               if kz_mapped_pages c > mapped_page_count a
                  \<or> kz_mapped_pages c > kz_page_entitlement c
               then Inl Invalid_argument
               else if list_ex (\<lambda>s. kz_allocation s = Some i
                         \<or> ka_pool (kh_allocs h ! the (kz_allocation s)) = Some k) seen
               then Inl Invalid_argument
               else if \<not> can_replace_entitlement (kh_pools h ! k) (ka_page_entitlement a)
                         (kz_page_entitlement c)
               then Inl Bad_alloc
               else resize_validate h (seen @ [c]) cs))"

fun resize_apply :: "kv_heap \<Rightarrow> kv_resize list \<Rightarrow> kv_outcome" where
  "resize_apply h [] = (h, Inr ())"
| "resize_apply h (c # cs) =
     (case trim_pages h (the (kz_allocation c)) (kz_mapped_pages c) of
        (h1, Inl e) \<Rightarrow> (h1, Inl e)
      | (h1, Inr _) \<Rightarrow>
          (case set_page_entitlement h1 (the (kz_allocation c)) (kz_page_entitlement c) of
             (h2, Inl e) \<Rightarrow> (h2, Inl e)
           | (h2, Inr _) \<Rightarrow> resize_apply h2 cs))"

definition resize_paged_kv_bundle :: "kv_heap \<Rightarrow> kv_resize list \<Rightarrow> kv_outcome" where
  "resize_paged_kv_bundle h cs =
     (case resize_validate h [] cs of
        Inl e \<Rightarrow> (h, Inl e)
      | Inr _ \<Rightarrow> resize_apply h cs)"

end
