(* ===== verification/Paged_KV_Safety.thy ===== *)
theory Paged_KV_Safety
  imports Paged_KV
begin

text \<open>
  The accounts of the paged KV cache: the pool keeps the page contract of the ledger, every
  operation of \<^verbatim>\<open>paged_kv_cache.cpp\<close> keeps the invariant of the heap of pools and allocations
  (no page is owned twice, entitlements never exceed the pool, a block-table row has one owner),
  and the operations that the source validates up front cannot fail half way.
\<close>

section \<open>Invariants\<close>

text \<open>The pool's accounts against \<open>E\<close> entitled pages and the mapped ids \<open>M\<close>.\<close>

definition pool_inv :: "paged_kv_pool \<Rightarrow> nat \<Rightarrow> int multiset \<Rightarrow> bool" where
  "pool_inv p E M \<longleftrightarrow>
     unat (kp_entitled_pages p) = E \<and> E \<le> unat (page_group_count p) \<and>
     unat (kp_mapped_pages p) = size M \<and>
     mset (kp_free_page_ids p) + M = mset (map int [0..<unat (page_group_count p)]) \<and>
     sorted (kp_free_page_ids p)"

text \<open>The block-table matrix of a planned pool.\<close>

definition table_matrix :: "u64 \<Rightarrow> int \<Rightarrow> int \<Rightarrow> tensor" where
  "table_matrix d c r =
     \<lparr>t_data = d, t_dtype = I32, t_ne = [c, r, 1, 1], t_nb = [4, 4 * c, 4 * c * r, 4 * c * r]\<rparr>"

text \<open>What construction fixes: the block tables are such a matrix, with one flag per row.\<close>

definition pool_shape :: "paged_kv_pool \<Rightarrow> bool" where
  "pool_shape p \<longleftrightarrow>
     length (kp_row_in_use p) = nat (table_row_count p) \<and>
     logical_page_capacity p \<le> 0x7FFFFFFF \<and>
     (let c = sint (logical_page_capacity p); r = table_row_count p in
      kp_block_tables p = table_matrix (t_data (kp_block_tables p)) c r \<and>
      0 < c \<and> 4 * c * r \<le> i64_max)"

text \<open>The address of a row of the block tables, and what publishing a range enqueues.\<close>

definition row_base :: "paged_kv_pool \<Rightarrow> int \<Rightarrow> u64" where
  "row_base p row =
     (if t_data (kp_block_tables p) \<noteq> 0
      then t_data (kp_block_tables p) + word_of_int (row * (4 * sint (logical_page_capacity p)))
      else 0)"

definition publish_writes :: "paged_kv_pool \<Rightarrow> kv_allocation \<Rightarrow> u32 \<Rightarrow> u32 \<Rightarrow> table_write list" where
  "publish_writes p a first n =
     (if n = 0 then []
      else [\<lparr>tw_dst = row_base p (ka_bound_row a) + 4 * ucast first,
             tw_ids = take (unat n) (drop (unat first) (ka_page_ids a))\<rparr>])"

definition holding_of :: "nat \<Rightarrow> kv_allocation \<Rightarrow> holding" where
  "holding_of k a =
     (if ka_pool a = Some k then (ka_page_ids a, unat (ka_page_entitlement a)) else ([], 0))"

definition binds :: "nat \<Rightarrow> nat \<Rightarrow> kv_allocation \<Rightarrow> nat" where
  "binds k r a = of_bool (ka_pool a = Some k \<and> ka_bound_row a = int r)"

definition rows_inv :: "nat \<Rightarrow> paged_kv_pool \<Rightarrow> kv_allocation list \<Rightarrow> bool" where
  "rows_inv k p as \<longleftrightarrow>
     (\<forall>r < nat (table_row_count p). (\<Sum>a\<leftarrow>as. binds k r a) = of_bool (kp_row_in_use p ! r))"

definition alloc_ok :: "paged_kv_pool list \<Rightarrow> kv_allocation \<Rightarrow> bool" where
  "alloc_ok ps a \<longleftrightarrow>
     (case ka_pool a of
        None \<Rightarrow> ka_page_ids a = [] \<and> ka_page_entitlement a = 0 \<and> ka_bound_row a = - 1
      | Some k \<Rightarrow> k < length ps \<and> length (ka_page_ids a) \<le> unat (ka_page_entitlement a) \<and>
                  ka_page_entitlement a \<le> logical_page_capacity (ps ! k) \<and>
                  (ka_bound_row a = - 1 \<or>
                   0 \<le> ka_bound_row a \<and> ka_bound_row a < table_row_count (ps ! k)))"

definition heap_inv :: "kv_heap \<Rightarrow> bool" where
  "heap_inv h \<longleftrightarrow>
     (\<forall>k < length (kh_pools h).
        pool_shape (kh_pools h ! k) \<and>
        ledger pool_inv (kh_pools h ! k) (map (holding_of k) (kh_allocs h)) \<and>
        rows_inv k (kh_pools h ! k) (kh_allocs h)) \<and>
     (\<forall>a \<in> set (kh_allocs h). alloc_ok (kh_pools h) a)"

section \<open>The pool keeps the page contract\<close>

lemma run_atD: "run_at free n b \<Longrightarrow> b + n \<le> length free"
  by (simp add: run_at_def)

lemma find_SomeD: "find P xs = Some x \<Longrightarrow> P x \<and> x \<in> set xs"
  by (induction xs) (auto split: if_splits)

lemma select_run_at:
  "select_run free n pref = Some b \<Longrightarrow> run_at free n b"
  by (auto simp: select_run_def preferred_run_def first_run_def Let_def
      split: option.splits if_splits dest!: find_SomeD)

text \<open>In a sorted list of distinct numbers, consecutive members are adjacent.\<close>

lemma consecutive_adjacent:
  assumes "sorted free" and "distinct free" and "b < length free"
    and "{free ! b..<free ! b + int n} \<subseteq> set free" and "o' < n"
  shows "b + o' < length free \<and> free ! (b + o') = free ! b + int o'"
  using assms(5)
proof (induction o')
  case 0
  then show ?case using assms(3) by simp
next
  case (Suc m)
  then have IH: "b + m < length free" "free ! (b + m) = free ! b + int m" by auto
  have "free ! b + int (Suc m) \<in> set free" using assms(4) Suc.prems by (auto simp: subset_iff)
  then obtain j where j: "j < length free" "free ! j = free ! b + int (Suc m)" by (auto simp: in_set_conv_nth)
  have "\<not> j \<le> b + m" using sorted_nth_mono [OF assms(1), of j "b + m"] IH j by auto
  then have "b + Suc m \<le> j" by simp
  then have lt: "b + Suc m < length free" and le: "free ! (b + Suc m) \<le> free ! b + int (Suc m)"
    using j sorted_nth_mono [OF assms(1), of "b + Suc m" j] by auto
  have "free ! (b + m) \<le> free ! (b + Suc m)" using sorted_nth_mono [OF assms(1), of "b + m" "b + Suc m"] lt by simp
  moreover have "free ! (b + m) \<noteq> free ! (b + Suc m)" using nth_eq_iff_index_eq [OF assms(2) IH(1) lt] by simp
  ultimately show ?case using lt le IH(2) by simp
qed

lemma run_at_iff:
  assumes "sorted free" and "distinct free" and "b < length free" and "0 < n"
  shows "run_at free n b \<longleftrightarrow> {free ! b..<free ! b + int n} \<subseteq> set free"
proof
  assume r: "run_at free n b"
  show "{free ! b..<free ! b + int n} \<subseteq> set free"
  proof
    fix x assume x: "x \<in> {free ! b..<free ! b + int n}"
    define m where "m = nat (x - free ! b)"
    have m: "m < n" "x = free ! b + int m" using x by (auto simp: m_def)
    have "free ! (b + m) = free ! b + int m" using r m(1) by (cases "m = 0") (auto simp: run_at_def list_all_iff)
    moreover have "b + m < length free" using run_atD [OF r] m(1) by simp
    ultimately show "x \<in> set free" using m(2) by (metis nth_mem)
  qed
next
  assume sub: "{free ! b..<free ! b + int n} \<subseteq> set free"
  note adj = consecutive_adjacent [OF assms(1-3) sub]
  have "b + n \<le> length free" using adj [of "n - 1"] assms(4) by linarith
  then show "run_at free n b" using adj by (simp add: run_at_def list_all_iff)
qed

lemma run_at_upto:
  assumes "run_at free n b" and "0 < n"
  shows "take n (drop b free) = [free ! b..free ! b + int n - 1]"
proof (rule nth_equalityI)
  show "length (take n (drop b free)) = length [free ! b..free ! b + int n - 1]"
    using run_atD [OF assms(1)] by simp
  fix i assume "i < length (take n (drop b free))"
  then have i: "i < n" by simp
  then have "free ! (b + i) = free ! b + int i"
    using assms(1) by (cases "i = 0") (auto simp: run_at_def list_all_iff)
  then show "take n (drop b free) ! i = [free ! b..free ! b + int n - 1] ! i"
    using i run_atD [OF assms(1)] by (simp add: nth_upto)
qed

lemma lower_bound_hit:
  assumes "sorted free" and "x \<in> set free"
  shows "lower_bound free x < length free \<and> free ! lower_bound free x = x"
proof -
  have "takeWhile (\<lambda>y. y < x) free \<noteq> free" using assms(2) by (metis less_irrefl takeWhile_eq_all_conv)
  then have lt: "lower_bound free x < length free"
    unfolding lower_bound_def using length_takeWhile_le [of "\<lambda>y. y < x" free]
    by (metis le_neq_implies_less takeWhile_eq_take take_all_iff order_refl)
  have ge: "\<not> free ! lower_bound free x < x"
    using lt unfolding lower_bound_def by (rule nth_length_takeWhile)
  obtain j where j: "j < length free" "free ! j = x" using assms(2) by (auto simp: in_set_conv_nth)
  have "\<not> j < lower_bound free x"
  proof
    assume "j < lower_bound free x"
    then have "takeWhile (\<lambda>y. y < x) free ! j < x"
      using nth_mem set_takeWhileD unfolding lower_bound_def by metis
    then show False using \<open>j < lower_bound free x\<close> j unfolding lower_bound_def by (simp add: takeWhile_nth)
  qed
  then have "free ! lower_bound free x \<le> x" using sorted_nth_mono [OF assms(1)] j by (metis not_less)
  then show ?thesis using lt ge by simp
qed

text \<open>What page selection returns, in terms of the set of free pages.\<close>

lemma preferred_run_iff:
  assumes "sorted free" and "distinct free" and "0 < n"
  shows "preferred_run free n pref =
    (if 0 \<le> pref \<and> {pref..<pref + int n} \<subseteq> set free then Some (lower_bound free pref) else None)"
proof (cases "pref \<in> set free")
  case True
  note lb = lower_bound_hit [OF assms(1) True]
  show ?thesis using run_at_iff [OF assms(1,2) _ assms(3), of "lower_bound free pref"] lb
    by (simp add: preferred_run_def Let_def)
next
  case False
  have "pref \<in> {pref..<pref + int n}" using assms(3) by simp
  then have "\<not> {pref..<pref + int n} \<subseteq> set free" using False by blast
  moreover have "\<not> (lower_bound free pref < length free \<and> free ! lower_bound free pref = pref)"
    using False nth_mem [of "lower_bound free pref" free] by metis
  ultimately show ?thesis by (auto simp: preferred_run_def Let_def)
qed

lemma find_first:
  "find P [0..<m] = Some b \<Longrightarrow> P b \<and> b < m \<and> (\<forall>j < b. \<not> P j)"
  by (auto simp: find_Some_iff)

lemma first_run_None:
  assumes "sorted free" and "distinct free" and "0 < n"
  shows "first_run free n = None \<longleftrightarrow> (\<forall>f. \<not> {f..<f + int n} \<subseteq> set free)"
proof
  assume none: "first_run free n = None"
  show "\<forall>f. \<not> {f..<f + int n} \<subseteq> set free"
  proof (intro allI notI)
    fix f assume sub: "{f..<f + int n} \<subseteq> set free"
    then have "f \<in> set free" using assms(3) by auto
    then obtain b where b: "b < length free" "free ! b = f" by (auto simp: in_set_conv_nth)
    then have r: "run_at free n b" using run_at_iff [OF assms(1,2) b(1) assms(3)] sub by simp
    then have "b < length free + 1 - n" using run_atD [OF r] by simp
    then show False using none r by (simp add: first_run_def find_None_iff)
  qed
next
  assume a: "\<forall>f. \<not> {f..<f + int n} \<subseteq> set free"
  have "\<not> run_at free n b" for b
  proof
    assume r: "run_at free n b"
    then have "b < length free" using run_atD [OF r] assms(3) by simp
    then show False using run_at_iff [OF assms(1,2) _ assms(3)] r a by blast
  qed
  then show "first_run free n = None" by (simp add: first_run_def find_None_iff)
qed

lemma first_run_lowest:
  assumes "sorted free" and "distinct free" and "0 < n" and "first_run free n = Some b"
  shows "run_at free n b \<and> (\<forall>f < free ! b. \<not> {f..<f + int n} \<subseteq> set free)"
proof -
  note ff = find_first [OF assms(4) [unfolded first_run_def]]
  have b: "b < length free" using run_atD [of free n b] ff assms(3) by simp
  have "\<not> {f..<f + int n} \<subseteq> set free" if "f < free ! b" for f
  proof
    assume sub: "{f..<f + int n} \<subseteq> set free"
    then have "f \<in> set free" using assms(3) by auto
    then obtain j where j: "j < length free" "free ! j = f" by (auto simp: in_set_conv_nth)
    have "\<not> b \<le> j" using sorted_nth_mono [OF assms(1), of b j] j that by auto
    then have "\<not> run_at free n j" using ff by simp
    then show False using run_at_iff [OF assms(1,2) j(1) assms(3)] sub j(2) by simp
  qed
  then show ?thesis using ff by blast
qed

lemma select_run_spec:
  assumes "sorted free" and "distinct free" and "0 < n"
    and ids_def: "ids = take n (drop (case select_run free n pref of Some b \<Rightarrow> b | None \<Rightarrow> 0) free)"
  shows "if 0 \<le> pref \<and> {pref..<pref + int n} \<subseteq> set free then ids = [pref..pref + int n - 1]
    else if \<exists>f. {f..<f + int n} \<subseteq> set free
    then \<exists>f. ids = [f..f + int n - 1] \<and> (\<forall>f' < f. \<not> {f'..<f' + int n} \<subseteq> set free)
    else ids = take n free"
proof (cases "0 \<le> pref \<and> {pref..<pref + int n} \<subseteq> set free")
  case True
  then have pr: "preferred_run free n pref = Some (lower_bound free pref)"
    using preferred_run_iff [OF assms(1-3)] by simp
  then have sel: "select_run free n pref = Some (lower_bound free pref)" by (simp add: select_run_def)
  have "pref \<in> set free" using True assms(3) by auto
  from lower_bound_hit [OF assms(1) this] run_at_upto [OF select_run_at [OF sel] assms(3)]
  have "ids = [pref..pref + int n - 1]" by (simp add: ids_def sel)
  then show ?thesis using True by simp
next
  case False
  then have "preferred_run free n pref = None"
    unfolding preferred_run_iff [OF assms(1-3)] by (rule if_not_P)
  then have sel: "select_run free n pref = first_run free n" by (simp add: select_run_def)
  show ?thesis
  proof (cases "first_run free n")
    case None
    then have "ids = take n free" by (simp add: ids_def sel)
    moreover have "\<not> (\<exists>f. {f..<f + int n} \<subseteq> set free)" using None first_run_None [OF assms(1-3)] by blast
    ultimately show ?thesis using False by (simp only: if_False)
  next
    case (Some b)
    note low = first_run_lowest [OF assms(1-3) Some]
    have "ids = [free ! b..free ! b + int n - 1]"
      using run_at_upto [OF low [THEN conjunct1] assms(3)] by (simp add: ids_def sel Some)
    moreover have "\<exists>f. {f..<f + int n} \<subseteq> set free" using Some first_run_None [OF assms(1-3)] by (metis option.distinct(1))
    ultimately show ?thesis using False low by (simp only: if_False if_True) blast
  qed
qed

lemma sorted_drop_middle: "sorted (xs @ ys @ zs) \<Longrightarrow> sorted (xs @ (zs :: 'a :: linorder list))"
  by (auto simp: sorted_append)

lemma take_pages_split:
  assumes "b + n \<le> length xs"
  shows "mset (take b xs @ drop (b + n) xs) + mset (take n (drop b xs)) = mset xs"
    and "length (take n (drop b xs)) = n"
    and "sorted xs \<Longrightarrow> sorted (take b xs @ drop (b + n) xs)"
proof -
  have d: "take b xs @ take n (drop b xs) @ drop (b + n) xs = xs"
    using append_take_drop_id [of n "drop b xs"] append_take_drop_id [of b xs]
    by (simp add: add.commute)
  have "mset (take b xs @ drop (b + n) xs) + mset (take n (drop b xs))
      = mset (take b xs @ take n (drop b xs) @ drop (b + n) xs)" by simp
  then show "mset (take b xs @ drop (b + n) xs) + mset (take n (drop b xs)) = mset xs"
    unfolding d .
  show "length (take n (drop b xs)) = n" using assms by simp
  show "sorted (take b xs @ drop (b + n) xs)" if "sorted xs"
    using sorted_drop_middle [of "take b xs" "take n (drop b xs)" "drop (b + n) xs"] that
    unfolding d by blast
qed

lemma take_pages_start:
  assumes "unat n \<le> length (kp_free_page_ids p)" and "n \<noteq> 0"
  obtains b where "b + unat n \<le> length (kp_free_page_ids p)"
    and "take_pages p n pref = Inr (take (unat n) (drop b (kp_free_page_ids p)),
           p\<lparr>kp_free_page_ids := take b (kp_free_page_ids p) @ drop (b + unat n) (kp_free_page_ids p),
             kp_mapped_pages := kp_mapped_pages p + n\<rparr>)"
proof -
  let ?s = "select_run (kp_free_page_ids p) (unat n) pref"
  let ?b = "case ?s of Some b \<Rightarrow> b | None \<Rightarrow> 0"
  have "?b + unat n \<le> length (kp_free_page_ids p)"
    using assms(1) by (auto split: option.split dest: select_run_at run_atD)
  moreover have "take_pages p n pref = Inr (take (unat n) (drop ?b (kp_free_page_ids p)),
           p\<lparr>kp_free_page_ids := take ?b (kp_free_page_ids p) @ drop (?b + unat n) (kp_free_page_ids p),
             kp_mapped_pages := kp_mapped_pages p + n\<rparr>)"
    using assms by (simp add: take_pages_def Let_def)
  ultimately show ?thesis by (rule that)
qed

lemma pool_free_length:
  "pool_inv p E M \<Longrightarrow> length (kp_free_page_ids p) + size M = unat (page_group_count p)"
proof -
  assume "pool_inv p E M"
  then have "size (mset (kp_free_page_ids p) + M) = size (mset (map int [0..<unat (page_group_count p)]))"
    by (simp add: pool_inv_def)
  then show ?thesis by simp
qed

lemma pool_inv_exchange:
  assumes "pool_inv p E M" and "mset free + M' = mset (kp_free_page_ids p) + M"
    and "sorted free" and "unat m = size M'"
  shows "pool_inv (p\<lparr>kp_free_page_ids := free, kp_mapped_pages := m\<rparr>) E M'"
  using assms by (simp add: pool_inv_def)

lemma pool_take:
  assumes "pool_inv p E M" and "size M + unat n \<le> E"
  shows "\<exists>ids p'. take_pages p n pref = Inr (ids, p') \<and> length ids = unat n \<and>
           pool_inv p' E (M + mset ids)"
proof (cases "n = 0")
  case True
  then show ?thesis using assms by (simp add: take_pages_def)
next
  case False
  have le: "unat n \<le> length (kp_free_page_ids p)"
    using pool_free_length [OF assms(1)] assms by (simp add: pool_inv_def)
  obtain b where b: "b + unat n \<le> length (kp_free_page_ids p)" and
    t: "take_pages p n pref = Inr (take (unat n) (drop b (kp_free_page_ids p)),
           p\<lparr>kp_free_page_ids := take b (kp_free_page_ids p) @ drop (b + unat n) (kp_free_page_ids p),
             kp_mapped_pages := kp_mapped_pages p + n\<rparr>)"
    by (rule take_pages_start [OF le False])
  have "unat (kp_mapped_pages p) + unat n < 4294967296"
    using assms unat_u32_bound [of "page_group_count p"] unfolding pool_inv_def by linarith
  then have m: "unat (kp_mapped_pages p + n) = unat (kp_mapped_pages p) + unat n"
    by (simp add: unat_add_no_overflow)
  let ?free = "take b (kp_free_page_ids p) @ drop (b + unat n) (kp_free_page_ids p)"
  let ?ids = "take (unat n) (drop b (kp_free_page_ids p))"
  have "mset ?free + (M + mset ?ids) = mset (kp_free_page_ids p) + M"
    unfolding take_pages_split(1) [OF b, symmetric] by (simp only: ac_simps)
  moreover have "sorted ?free"
    using assms(1) take_pages_split(3) [OF b] by (simp only: pool_inv_def)
  moreover have "unat (kp_mapped_pages p + n) = size (M + mset ?ids)"
    using assms(1) m take_pages_split(2) [OF b] by (simp only: pool_inv_def size_union size_mset)
  ultimately have "pool_inv (p\<lparr>kp_free_page_ids := ?free, kp_mapped_pages := kp_mapped_pages p + n\<rparr>)
      E (M + mset ?ids)"
    by (rule pool_inv_exchange [OF assms(1)])
  then show ?thesis using t take_pages_split(2) [OF b] by blast
qed

lemma pool_give:
  assumes "pool_inv p E (M + mset ids)"
  shows "pool_inv (return_pages p ids) E M"
proof (cases "ids = []")
  case True
  then show ?thesis using assms by (simp add: return_pages_def)
next
  case False
  have sz: "unat (kp_mapped_pages p) = size M + length ids" using assms by (simp add: pool_inv_def)
  then have "length ids < 4294967296" using unat_u32_bound [of "kp_mapped_pages p"] by linarith
  then have l: "unat (of_nat (length ids) :: u32) = length ids"
    by (simp add: unat_of_nat)
  have "unat (kp_mapped_pages p - of_nat (length ids)) = size M"
    using sz l by (simp add: unat_sub word_le_nat_alt)
  moreover have "mset (sort (kp_free_page_ids p @ ids)) + M = mset (kp_free_page_ids p) + (M + mset ids)"
    by simp
  ultimately show ?thesis using False pool_inv_exchange [OF assms]
    by (simp add: return_pages_def)
qed

lemma pool_replace:
  assumes "pool_inv p (E + unat old) M"
    and "can_replace_entitlement p old new \<or> unat new \<le> unat old"
  shows "pool_inv (replace_entitlement p old new) (E + unat new) M"
proof -
  have e: "unat (kp_entitled_pages p) = E + unat old" and
    le: "E + unat old \<le> unat (page_group_count p)" using assms by (simp_all add: pool_inv_def)
  have d: "unat (kp_entitled_pages p - old) = E" using e by (simp add: unat_sub word_le_nat_alt)
  have fits: "E + unat new \<le> unat (page_group_count p)"
    using assms(2)
  proof
    assume "can_replace_entitlement p old new"
    then have "unat new \<le> unat (page_group_count p - (kp_entitled_pages p - old))"
      by (simp add: can_replace_entitlement_def word_le_nat_alt)
    moreover have "unat (page_group_count p - (kp_entitled_pages p - old)) = unat (page_group_count p) - E"
      using d le by (subst unat_sub) (simp_all add: word_le_nat_alt)
    ultimately show ?thesis using le by linarith
  qed (use le in linarith)
  then have "unat (kp_entitled_pages p - old) + unat new < 4294967296"
    using d unat_u32_bound [of "page_group_count p"] by linarith
  then have "unat (kp_entitled_pages p - old + new) = E + unat new"
    using d by (simp add: unat_add_no_overflow)
  then show ?thesis using assms(1) fits by (simp add: pool_inv_def replace_entitlement_def)
qed

lemmas pool_grow = pool_replace [OF _ disjI1]
lemmas pool_shrink = pool_replace [OF _ disjI2]

lemma pool_add:
  assumes "pool_inv p E M" and "can_reserve p n"
  shows "pool_inv (add_entitlement p n) (E + unat n) M"
proof -
  have e: "unat (kp_entitled_pages p) = E" "E \<le> unat (page_group_count p)"
    using assms by (simp_all add: pool_inv_def)
  have "unat n \<le> unat (page_group_count p - kp_entitled_pages p)"
    using assms(2) by (simp add: can_reserve_def word_le_nat_alt)
  then have le: "E + unat n \<le> unat (page_group_count p)"
    using e by (simp add: unat_sub word_le_nat_alt)
  then have "unat (kp_entitled_pages p) + unat n < 4294967296"
    using e unat_u32_bound [of "page_group_count p"] by linarith
  then have "unat (kp_entitled_pages p + n) = E + unat n"
    using e by (simp add: unat_add_no_overflow)
  then show ?thesis using assms(1) le by (simp add: pool_inv_def add_entitlement_def)
qed

lemma pool_distinct: "pool_inv p E M \<Longrightarrow> count M q \<le> 1"
proof -
  assume "pool_inv p E M"
  then have "count (mset (kp_free_page_ids p) + M) q
      = count (mset (map int [0..<unat (page_group_count p)])) q"
    by (simp add: pool_inv_def)
  moreover have "distinct (map int [0..<unat (page_group_count p)])" by (simp add: distinct_map)
  then have "count (mset (map int [0..<unat (page_group_count p)])) q \<le> 1"
    unfolding distinct_count_atmost_1 by (simp only: split: if_split) simp
  ultimately show ?thesis unfolding count_union by linarith
qed

interpretation kp: page_pool pool_inv take_pages return_pages can_reserve add_entitlement
  can_replace_entitlement replace_entitlement
  by unfold_locales (fact pool_take pool_give pool_add pool_grow pool_shrink pool_distinct)+

section \<open>Updating one pool and one allocation\<close>

lemma table_matrix_row:
  assumes "kp_block_tables p = table_matrix d c r" and "0 < c" and "4 * c * r \<le> i64_max"
    and "c = sint (logical_page_capacity p)" and "r = table_row_count p" and "0 \<le> row" and "row < r"
  shows "block_table_row p row = Inr \<lparr>t_data = (if d \<noteq> 0 then d + word_of_int (row * (4 * c)) else 0),
    t_dtype = I32, t_ne = [c, 1, 1, 1], t_nb = [4, 4 * c, 4 * c, 4 * c]\<rparr>"
proof -
  have "4 * c \<le> 4 * c * r" using assms(2,6,7) by simp
  moreover have "row * (4 * c) \<le> r * (4 * c)" using assms(2,7) by (intro mult_right_mono) simp_all
  moreover have "r * (4 * c) = 4 * c * r" by simp
  ultimately have le: "4 * c \<le> i64_max" "row * (4 * c) \<le> i64_max" "c \<le> i64_max"
    using assms(2,3) by linarith+
  have slice: "tensor_slice (kp_block_tables p) 1 row 1
      = Inr \<lparr>t_data = (if d \<noteq> 0 then d + word_of_int (row * (4 * c)) else 0),
          t_dtype = I32, t_ne = [c, 1, 1, 1], t_nb = [4, 4 * c, 4 * c * r, 4 * c * r]\<rparr>"
    using assms le by (simp add: tensor_slice_def Let_def table_matrix_def bind_result_def
        checked_mul_i64_eq_Inr [THEN iffD2])
  have mul: "checked_mul_i64 4 c = Inr (4 * c)" "checked_mul_i64 1 c = Inr c" "checked_mul_i64 c 1 = Inr c"
    "checked_mul_i64 (4 * c) 1 = Inr (4 * c)" using assms(2) le by (simp_all add: checked_mul_i64_eq_Inr)
  show ?thesis
    using assms(2,5-7) slice mul
    by (simp add: block_table_row_def assms(4) [symmetric] bind_result_def tensor_view_def is_contiguous_def
        normalize_shape_def shape_numel_def tensor_numel_def make_tensor_def contiguous_strides_def
        numeral_3_eq_3)
qed

lemma pool_shape_row:
  assumes "pool_shape p" and "0 \<le> row" and "row < table_row_count p"
  shows "\<exists>t. block_table_row p row = Inr t \<and> t_data t = row_base p row"
  using table_matrix_row [of p "t_data (kp_block_tables p)" "sint (logical_page_capacity p)"
      "table_row_count p" row] assms
  by (simp add: pool_shape_def Let_def row_base_def)

lemma pool_shape_cong:
  assumes "pool_shape p" and "kp_spec p' = kp_spec p" and "kp_block_tables p' = kp_block_tables p"
    and "length (kp_row_in_use p') = length (kp_row_in_use p)"
  shows "pool_shape p'"
  using assms(1) unfolding pool_shape_def assms(2,3,4) .

lemma pool_inv_writes [simp]: "pool_inv (p\<lparr>kp_table_writes := w\<rparr>) = pool_inv p"
  by (simp add: pool_inv_def fun_eq_iff)

lemma pool_inv_rows [simp]: "pool_inv (p\<lparr>kp_row_in_use := w\<rparr>) = pool_inv p"
  by (simp add: pool_inv_def fun_eq_iff)

lemma ledger_cong_pool: "pool_inv p' = pool_inv p \<Longrightarrow> ledger pool_inv p' = ledger pool_inv p"
  by (simp add: ledger_def fun_eq_iff)

lemma heap_invD:
  assumes "heap_inv h" and "k < length (kh_pools h)"
  shows "pool_shape (kh_pools h ! k)"
    and "ledger pool_inv (kh_pools h ! k) (map (holding_of k) (kh_allocs h))"
    and "rows_inv k (kh_pools h ! k) (kh_allocs h)"
  using assms by (simp_all add: heap_inv_def)

lemma heap_inv_alloc_ok:
  "heap_inv h \<Longrightarrow> i < length (kh_allocs h) \<Longrightarrow> alloc_ok (kh_pools h) (kh_allocs h ! i)"
  by (simp add: heap_inv_def)

lemma alloc_ok_cong:
  assumes "alloc_ok ps a" and "length ps' = length ps"
    and "\<And>k. k < length ps \<Longrightarrow> kp_spec (ps' ! k) = kp_spec (ps ! k)"
  shows "alloc_ok ps' a"
  using assms by (auto simp: alloc_ok_def split: option.splits)

lemma holding_of_other: "ka_pool a \<noteq> Some k \<Longrightarrow> holding_of k a = ([], 0)"
  by (simp add: holding_of_def)

lemma binds_other: "ka_pool a \<noteq> Some k \<Longrightarrow> binds k r a = 0"
  by (simp add: binds_def)

lemma holding_of_row [simp]: "holding_of k (a\<lparr>ka_bound_row := r\<rparr>) = holding_of k a"
  by (simp add: holding_of_def)

lemma map_update_id: "i < length xs \<Longrightarrow> (map f xs)[i := f (xs ! i)] = map f xs"
  by (simp add: list_update_same_conv)

lemma map_update_same: "i < length xs \<Longrightarrow> f y = f (xs ! i) \<Longrightarrow> map f (xs[i := y]) = map f xs"
  by (simp add: map_update list_update_same_conv)

lemma heap_inv_put:
  assumes inv: "heap_inv h" and i: "i < length (kh_allocs h)" and k: "k < length (kh_pools h)"
    and own: "ka_pool (kh_allocs h ! i) = Some k" and own': "ka_pool a' = None \<or> ka_pool a' = Some k"
    and frame: "kp_spec p' = kp_spec (kh_pools h ! k)"
      "kp_block_tables p' = kp_block_tables (kh_pools h ! k)"
      "length (kp_row_in_use p') = length (kp_row_in_use (kh_pools h ! k))"
    and led: "ledger pool_inv p' ((map (holding_of k) (kh_allocs h))[i := holding_of k a'])"
    and rows: "\<And>r B. r < nat (table_row_count (kh_pools h ! k)) \<Longrightarrow>
      B + binds k r (kh_allocs h ! i) = of_bool (kp_row_in_use (kh_pools h ! k) ! r) \<Longrightarrow>
      B + binds k r a' = of_bool (kp_row_in_use p' ! r)"
    and ok: "alloc_ok (kh_pools h) a'"
  shows "heap_inv (kv_put h k p' i a')"
proof -
  let ?as = "kh_allocs h" and ?ps = "kh_pools h"
  have "pool_shape (?ps[k := p'] ! k') \<and>
      ledger pool_inv (?ps[k := p'] ! k') (map (holding_of k') (?as[i := a'])) \<and>
      rows_inv k' (?ps[k := p'] ! k') (?as[i := a'])" if k': "k' < length ?ps" for k'
  proof (cases "k' = k")
    case True
    have "rows_inv k p' (?as[i := a'])"
      unfolding rows_inv_def frame(1)
    proof (intro allI impI)
      fix r assume r: "r < nat (table_row_count (?ps ! k))"
      obtain B where B: "(\<Sum>a\<leftarrow>?as. binds k r a) = B + binds k r (?as ! i)"
        and B': "\<And>y. (\<Sum>a\<leftarrow>?as[i := y]. binds k r a) = B + binds k r y"
        using sum_list_focus [OF i, of "binds k r"] by blast
      have "B + binds k r (?as ! i) = of_bool (kp_row_in_use (?ps ! k) ! r)"
        using heap_invD(3) [OF inv k] r unfolding rows_inv_def B [symmetric] by blast
      then show "(\<Sum>a\<leftarrow>?as[i := a']. binds k r a) = of_bool (kp_row_in_use p' ! r)"
        unfolding B' by (rule rows [OF r])
    qed
    moreover have "pool_shape p'" by (rule pool_shape_cong [OF heap_invD(1) [OF inv k] frame])
    ultimately show ?thesis using True k led by (simp add: map_update)
  next
    case False
    then have ne: "ka_pool (?as ! i) \<noteq> Some k'" "ka_pool a' \<noteq> Some k'" using own own' by auto
    have "map (holding_of k') (?as[i := a']) = map (holding_of k') ?as"
      by (rule map_update_same [OF i]) (simp add: holding_of_other ne)
    moreover have "map (binds k' r) (?as[i := a']) = map (binds k' r) ?as" for r
      by (rule map_update_same [OF i]) (simp add: binds_other ne)
    ultimately show ?thesis using False heap_invD [OF inv k'] by (simp add: rows_inv_def)
  qed
  moreover have "\<forall>a \<in> set (?as[i := a']). alloc_ok (?ps[k := p']) a"
  proof (rule ball_set_update)
    have "alloc_ok (?ps[k := p']) a" if "alloc_ok ?ps a" for a
      using that by (rule alloc_ok_cong) (simp_all add: nth_list_update [OF k] frame(1))
    then show "\<forall>a \<in> set ?as. alloc_ok (?ps[k := p']) a" and "alloc_ok (?ps[k := p']) a'"
      using inv ok by (auto simp: heap_inv_def)
  qed
  ultimately show ?thesis by (simp add: heap_inv_def kv_put_def)
qed

lemma owned_facts:
  assumes "heap_inv h" and "i < length (kh_allocs h)" and "ka_pool (kh_allocs h ! i) = Some k"
  shows "k < length (kh_pools h)"
    and "length (ka_page_ids (kh_allocs h ! i)) \<le> unat (ka_page_entitlement (kh_allocs h ! i))"
    and "unat (mapped_page_count (kh_allocs h ! i)) = length (ka_page_ids (kh_allocs h ! i))"
    and "ka_bound_row (kh_allocs h ! i) = - 1 \<or> 0 \<le> ka_bound_row (kh_allocs h ! i) \<and>
           ka_bound_row (kh_allocs h ! i) < table_row_count (kh_pools h ! k)"
    and "map (holding_of k) (kh_allocs h) ! i
           = (ka_page_ids (kh_allocs h ! i), unat (ka_page_entitlement (kh_allocs h ! i)))"
    and "ka_page_entitlement (kh_allocs h ! i) \<le> logical_page_capacity (kh_pools h ! k)"
proof -
  let ?a = "kh_allocs h ! i"
  have ok: "alloc_ok (kh_pools h) ?a" by (rule heap_inv_alloc_ok [OF assms(1,2)])
  then show "k < length (kh_pools h)" and le: "length (ka_page_ids ?a) \<le> unat (ka_page_entitlement ?a)"
    and "ka_bound_row ?a = - 1 \<or> 0 \<le> ka_bound_row ?a \<and> ka_bound_row ?a < table_row_count (kh_pools h ! k)"
    and "ka_page_entitlement ?a \<le> logical_page_capacity (kh_pools h ! k)"
    using assms(3) by (simp_all add: alloc_ok_def)
  have "length (ka_page_ids ?a) < 4294967296"
    using le unat_u32_bound [of "ka_page_entitlement ?a"] by linarith
  then show "unat (mapped_page_count ?a) = length (ka_page_ids ?a)"
    by (simp add: mapped_page_count_def unat_of_nat)
  show "map (holding_of k) (kh_allocs h) ! i = (ka_page_ids ?a, unat (ka_page_entitlement ?a))"
    using assms(2,3) by (simp add: holding_of_def)
qed

lemma owned_holding:
  assumes "heap_inv h" and "i < length (kh_allocs h)" and "ka_pool (kh_allocs h ! i) = Some k"
  shows "(map (holding_of k) (kh_allocs h))
      [i := (ka_page_ids (kh_allocs h ! i), unat (ka_page_entitlement (kh_allocs h ! i)))]
    = map (holding_of k) (kh_allocs h)"
  unfolding owned_facts(5) [OF assms, symmetric] by (rule list_update_id)

lemma kv_put_simps [simp]:
  "kh_allocs (kv_put h k p i a) = (kh_allocs h)[i := a]"
  "kh_pools (kv_put h k p i a) = (kh_pools h)[k := p]"
  by (simp_all add: kv_put_def)

text \<open>The common case: the allocation keeps its pool and its row.\<close>

lemma heap_inv_put_pages:
  assumes inv: "heap_inv h" and i: "i < length (kh_allocs h)"
    and own: "ka_pool (kh_allocs h ! i) = Some k" "ka_pool a' = Some k"
    and row: "ka_bound_row a' = ka_bound_row (kh_allocs h ! i)"
    and frame: "kp_spec p' = kp_spec (kh_pools h ! k)"
      "kp_block_tables p' = kp_block_tables (kh_pools h ! k)"
      "kp_row_in_use p' = kp_row_in_use (kh_pools h ! k)"
    and led: "ledger pool_inv p' ((map (holding_of k) (kh_allocs h))
      [i := (ka_page_ids a', unat (ka_page_entitlement a'))])"
    and le: "length (ka_page_ids a') \<le> unat (ka_page_entitlement a')"
      "ka_page_entitlement a' \<le> logical_page_capacity (kh_pools h ! k)"
  shows "heap_inv (kv_put h k p' i a')"
proof (rule heap_inv_put [OF inv i _ own(1) disjI2 [OF own(2)] frame(1,2)])
  note f = owned_facts [OF inv i own(1)]
  show "k < length (kh_pools h)" by (rule f(1))
  show "length (kp_row_in_use p') = length (kp_row_in_use (kh_pools h ! k))" by (simp add: frame)
  show "ledger pool_inv p' ((map (holding_of k) (kh_allocs h))[i := holding_of k a'])"
    using led by (simp add: holding_of_def own)
  show "B + binds k r a' = of_bool (kp_row_in_use p' ! r)"
    if "B + binds k r (kh_allocs h ! i) = of_bool (kp_row_in_use (kh_pools h ! k) ! r)" for r B
    using that by (simp add: binds_def own row frame)
  show "alloc_ok (kh_pools h) a'" using f(1,4) le by (simp add: alloc_ok_def own row)
qed

lemma take_pages_frame:
  "take_pages p n pref = Inr (ids, p') \<Longrightarrow>
     kp_spec p' = kp_spec p \<and> kp_block_tables p' = kp_block_tables p \<and>
     kp_row_in_use p' = kp_row_in_use p \<and> kp_table_writes p' = kp_table_writes p"
  by (auto simp: take_pages_def Let_def split: if_splits)

lemma take_pages_subset:
  "take_pages p n pref = Inr (ids, p') \<Longrightarrow> set ids \<subseteq> set (kp_free_page_ids p)"
  by (auto simp: take_pages_def Let_def split: if_splits dest!: in_set_takeD in_set_dropD)

lemma return_pages_frame [simp]:
  "kp_spec (return_pages p ids) = kp_spec p"
  "kp_block_tables (return_pages p ids) = kp_block_tables p"
  "kp_row_in_use (return_pages p ids) = kp_row_in_use p"
  "kp_table_writes (return_pages p ids) = kp_table_writes p"
  by (simp_all add: return_pages_def)

lemma replace_entitlement_frame [simp]:
  "kp_spec (replace_entitlement p m n) = kp_spec p"
  "kp_block_tables (replace_entitlement p m n) = kp_block_tables p"
  "kp_row_in_use (replace_entitlement p m n) = kp_row_in_use p"
  "kp_table_writes (replace_entitlement p m n) = kp_table_writes p"
  by (simp_all add: replace_entitlement_def)

text \<open>A bound row can always be published: its view exists.\<close>

lemma publish_range_total:
  assumes "pool_shape p" and "0 \<le> ka_bound_row a" and "ka_bound_row a < table_row_count p"
  shows "publish_range p a first n
    = Inr (p\<lparr>kp_table_writes := kp_table_writes p @ publish_writes p a first n\<rparr>)"
  using pool_shape_row [OF assms] by (auto simp: publish_range_def publish_writes_def bind_result_def)

section \<open>The operations keep the invariant\<close>

lemma set_page_entitlement_inv:
  assumes "heap_inv h" and "i < length (kh_allocs h)"
  shows "heap_inv (fst (set_page_entitlement h i pages))"
proof (cases "snd (set_page_entitlement h i pages) = Inr ()")
  case True
  then obtain k where k: "ka_pool (kh_allocs h ! i) = Some k"
    and ge: "\<not> pages < mapped_page_count (kh_allocs h ! i)"
    and can: "can_replace_entitlement (kh_pools h ! k) (ka_page_entitlement (kh_allocs h ! i)) pages"
    by (auto simp: set_page_entitlement_def Let_def split: option.splits if_splits)
  note f = owned_facts [OF assms k]
  have "length (ka_page_ids (kh_allocs h ! i)) \<le> unat pages"
    using ge f(3) by (simp add: word_less_nat_alt)
  with k ge can show ?thesis
    using kp.ledger_replace [OF heap_invD(2) [OF assms(1) f(1)], of i _ pages] assms f
    by (simp add: set_page_entitlement_def Let_def heap_inv_put_pages can_replace_entitlement_def)
next
  case False
  then have "fst (set_page_entitlement h i pages) = h"
    by (auto simp: set_page_entitlement_def Let_def split: option.splits if_splits)
  then show ?thesis using assms by simp
qed

lemma cancel_unmapped_entitlement_inv:
  assumes "heap_inv h" and "i < length (kh_allocs h)"
  shows "heap_inv (cancel_unmapped_entitlement h i)"
proof (cases "ka_pool (kh_allocs h ! i)")
  case None
  then show ?thesis using assms by (simp add: cancel_unmapped_entitlement_def)
next
  case (Some k)
  note f = owned_facts [OF assms Some]
  have "mapped_page_count (kh_allocs h ! i) \<le> logical_page_capacity (kh_pools h ! k)"
    using f(2,3,6) by (simp add: word_le_nat_alt)
  then show ?thesis
    using kp.ledger_replace [OF heap_invD(2) [OF assms(1) f(1)], of i _
        "mapped_page_count (kh_allocs h ! i)"] assms f Some
    by (simp add: cancel_unmapped_entitlement_def Let_def heap_inv_put_pages)
qed

lemma trim_pages_inv:
  assumes "heap_inv h" and "i < length (kh_allocs h)"
  shows "heap_inv (fst (trim_pages h i pages))"
proof (cases "ka_pool (kh_allocs h ! i)")
  case None
  then show ?thesis using assms by (simp add: trim_pages_def)
next
  case (Some k)
  note f = owned_facts [OF assms Some]
  let ?a = "kh_allocs h ! i"
  show ?thesis
  proof (cases "pages < mapped_page_count ?a")
    case True
    have u: "unat (mapped_page_count ?a - pages) = length (ka_page_ids ?a) - unat pages"
      using True f(3) by (simp add: unat_sub word_less_nat_alt word_le_nat_alt)
    have "ledger pool_inv (return_pages (kh_pools h ! k) (drop (unat pages) (ka_page_ids ?a)))
        ((map (holding_of k) (kh_allocs h))
          [i := (take (unat pages) (ka_page_ids ?a), unat (ka_page_entitlement ?a))])"
      using kp.ledger_trim [OF heap_invD(2) [OF assms(1) f(1)], of i "unat pages"] assms(2) f(5)
      by simp
    with Some True f u assms show ?thesis
      by (simp add: trim_pages_def Let_def heap_inv_put_pages not_less_iff_gr_or_eq)
  next
    case False
    then show ?thesis using assms Some by (auto simp: trim_pages_def Let_def)
  qed
qed

text \<open>
  \<open>materialize_pages\<close> succeeds exactly when the request lies between the mapped pages and the
  entitlement; neither the pool nor the block table can refuse it.
\<close>

lemma materialize_pages_total:
  assumes "heap_inv h" and "i < length (kh_allocs h)" and k: "ka_pool (kh_allocs h ! i) = Some k"
    and range: "mapped_page_count (kh_allocs h ! i) \<le> pages" "pages \<le> ka_page_entitlement (kh_allocs h ! i)"
  shows "\<exists>h' acquired p'. materialize_pages h i pages = (h', Inr ()) \<and> heap_inv h' \<and>
    h' = kv_put h k p' i ((kh_allocs h ! i)\<lparr>ka_page_ids := ka_page_ids (kh_allocs h ! i) @ acquired\<rparr>) \<and>
    length (ka_page_ids (kh_allocs h ! i) @ acquired) = unat pages \<and>
    set acquired \<subseteq> set (kp_free_page_ids (kh_pools h ! k)) \<and>
    kp_spec p' = kp_spec (kh_pools h ! k) \<and> kp_block_tables p' = kp_block_tables (kh_pools h ! k) \<and>
    kp_table_writes p' = kp_table_writes (kh_pools h ! k) @
      (if 0 \<le> ka_bound_row (kh_allocs h ! i)
       then publish_writes (kh_pools h ! k)
              ((kh_allocs h ! i)\<lparr>ka_page_ids := ka_page_ids (kh_allocs h ! i) @ acquired\<rparr>)
              (mapped_page_count (kh_allocs h ! i)) (pages - mapped_page_count (kh_allocs h ! i))
       else [])"
proof -
  let ?a = "kh_allocs h ! i" and ?p = "kh_pools h ! k"
  note f = owned_facts [OF assms(1,2) k]
  define n where "n = pages - mapped_page_count ?a"
  have un: "length (ka_page_ids ?a) + unat n = unat pages"
    using range(1) f(3) by (simp add: n_def unat_sub word_le_nat_alt)
  have put_same: "kv_put h k ?p i (?a\<lparr>ka_page_ids := ka_page_ids ?a @ []\<rparr>) = h" by (simp add: kv_put_def)
  show ?thesis
  proof (cases "n = 0")
    case True
    then have "materialize_pages h i pages = (h, Inr ())"
      using k range by (simp add: materialize_pages_def Let_def n_def not_less)
    moreover have "publish_writes ?p a' f (pages - mapped_page_count ?a) = []" for a' f
      using True by (simp add: publish_writes_def n_def)
    ultimately show ?thesis using True un assms(1) put_same
      by (intro exI [of _ h] exI [of _ "[]"] exI [of _ ?p]) (simp del: append_Nil2)
  next
    case False
    then have ne: "pages \<noteq> mapped_page_count ?a" by (simp add: n_def)
    define pref where "pref = (if ka_page_ids ?a = [] then - 1 else last (ka_page_ids ?a) + 1)"
    obtain acq p1 where t: "take_pages ?p n pref = Inr (acq, p1)" "length acq = unat n"
      and led: "ledger pool_inv p1 ((map (holding_of k) (kh_allocs h))
        [i := (ka_page_ids ?a @ acq, unat (ka_page_entitlement ?a))])"
      using kp.ledger_take [OF heap_invD(2) [OF assms(1) f(1)], of i n pref] assms(2) f(5) un range(2)
      by (auto simp: word_le_nat_alt)
    note fr = take_pages_frame [OF t(1)]
    let ?a' = "?a\<lparr>ka_page_ids := ka_page_ids ?a @ acq\<rparr>"
    have len: "length (ka_page_ids ?a') = unat pages" using un t(2) by simp
    have le: "length (ka_page_ids ?a') \<le> unat (ka_page_entitlement ?a')"
      using len range(2) by (simp add: word_le_nat_alt)
    let ?ws = "if 0 \<le> ka_bound_row ?a then publish_writes p1 ?a' (mapped_page_count ?a) n else []"
    have keep: "heap_inv (kv_put h k (p1\<lparr>kp_table_writes := w\<rparr>) i ?a')" for w
      using led le fr f(6) by (intro heap_inv_put_pages [OF assms(1,2) k])
        (simp_all add: k ledger_cong_pool [OF pool_inv_writes])
    have mat: "materialize_pages h i pages
        = (kv_put h k (p1\<lparr>kp_table_writes := kp_table_writes p1 @ ?ws\<rparr>) i ?a', Inr ())"
    proof (cases "0 \<le> ka_bound_row ?a")
      case True
      have "pool_shape p1" by (rule pool_shape_cong [OF heap_invD(1) [OF assms(1) f(1)]]) (simp_all add: fr)
      then have "publish_range p1 ?a' (mapped_page_count ?a) n
          = Inr (p1\<lparr>kp_table_writes := kp_table_writes p1 @ publish_writes p1 ?a' (mapped_page_count ?a) n\<rparr>)"
        using True f(4) fr by (intro publish_range_total) auto
      then show ?thesis using k range ne t True
        by (simp add: materialize_pages_def Let_def n_def [symmetric] pref_def [symmetric] not_less)
    next
      case nb: False
      have "materialize_pages h i pages = (kv_put h k p1 i ?a', Inr ())"
        using k range ne t nb
        by (simp add: materialize_pages_def Let_def n_def [symmetric] pref_def [symmetric] not_less)
      then show ?thesis using nb by simp
    qed
    have same: "publish_writes p1 = publish_writes ?p"
      using fr by (simp add: publish_writes_def row_base_def fun_eq_iff)
    show ?thesis
      using mat keep len take_pages_subset [OF t(1)] fr
      by (intro exI [of _ "kv_put h k (p1\<lparr>kp_table_writes := kp_table_writes p1 @ ?ws\<rparr>) i ?a'"]
          exI [of _ acq] exI [of _ "p1\<lparr>kp_table_writes := kp_table_writes p1 @ ?ws\<rparr>"])
        (simp add: same n_def)
  qed
qed

lemma materialize_pages_rejects:
  assumes "ka_pool (kh_allocs h ! i) = None \<or> pages < mapped_page_count (kh_allocs h ! i) \<or>
    ka_page_entitlement (kh_allocs h ! i) < pages"
  shows "materialize_pages h i pages = (h, Inl Invalid_argument)"
  using assms by (auto simp: materialize_pages_def Let_def split: option.splits)

lemma materialize_pages_inv:
  assumes "heap_inv h" and "i < length (kh_allocs h)"
  shows "heap_inv (fst (materialize_pages h i pages))"
proof (cases "ka_pool (kh_allocs h ! i) = None \<or> pages < mapped_page_count (kh_allocs h ! i) \<or>
    ka_page_entitlement (kh_allocs h ! i) < pages")
  case True
  then show ?thesis using assms by (simp add: materialize_pages_rejects)
next
  case False
  then obtain k where "ka_pool (kh_allocs h ! i) = Some k" by auto
  from materialize_pages_total [OF assms this, of pages] False show ?thesis by (auto simp: not_less)
qed

lemma publish_mapping_total:
  assumes "heap_inv h" and "i < length (kh_allocs h)" and k: "ka_pool (kh_allocs h ! i) = Some k"
    and "0 \<le> ka_bound_row (kh_allocs h ! i)"
  defines "q \<equiv> (kh_pools h ! k)\<lparr>kp_table_writes := kp_table_writes (kh_pools h ! k) @
    publish_writes (kh_pools h ! k) (kh_allocs h ! i) 0 (mapped_page_count (kh_allocs h ! i))\<rparr>"
  shows "publish_mapping h i = (kv_put h k q i (kh_allocs h ! i), Inr ())"
    and "heap_inv (kv_put h k q i (kh_allocs h ! i))"
proof -
  let ?a = "kh_allocs h ! i" and ?p = "kh_pools h ! k"
  note f = owned_facts [OF assms(1,2) k]
  have b: "ka_bound_row ?a < table_row_count ?p" using f(4) assms(4) by auto
  have w: "publish_range ?p ?a 0 (mapped_page_count ?a) = Inr q"
    unfolding q_def by (rule publish_range_total [OF heap_invD(1) [OF assms(1) f(1)] assms(4) b])
  show "heap_inv (kv_put h k q i ?a)"
    by (rule heap_inv_put_pages [OF assms(1,2) k k])
      (use heap_invD(2) [OF assms(1) f(1)] f(2,6) in
        \<open>simp_all add: q_def ledger_cong_pool [OF pool_inv_writes] owned_holding [OF assms(1,2) k]\<close>)
  show "publish_mapping h i = (kv_put h k q i ?a, Inr ())"
    using w k assms(4) by (simp add: publish_mapping_def Let_def)
qed

lemma bound_is_owned:
  assumes "heap_inv h" and "i < length (kh_allocs h)" and "0 \<le> ka_bound_row (kh_allocs h ! i)"
  obtains k where "ka_pool (kh_allocs h ! i) = Some k"
  using heap_inv_alloc_ok [OF assms(1,2)] assms(3) that
  by (cases "ka_pool (kh_allocs h ! i)") (auto simp: alloc_ok_def)

lemma publish_mapping_inv:
  assumes "heap_inv h" and "i < length (kh_allocs h)"
  shows "heap_inv (fst (publish_mapping h i))"
proof (cases "0 \<le> ka_bound_row (kh_allocs h ! i)")
  case True
  obtain k where "ka_pool (kh_allocs h ! i) = Some k" by (rule bound_is_owned [OF assms True])
  from publish_mapping_total [OF assms this True] show ?thesis by simp
next
  case False
  then show ?thesis using assms by (simp add: publish_mapping_def Let_def)
qed

lemma acquire_row_cases:
  "acquire_row p row = (if 0 \<le> row \<and> row < table_row_count p \<and> \<not> kp_row_in_use p ! nat row
     then Inr (p\<lparr>kp_row_in_use := (kp_row_in_use p)[nat row := True]\<rparr>)
     else Inl (if 0 \<le> row \<and> row < table_row_count p then Logic_error else Out_of_range))"
  by (auto simp: acquire_row_def)

lemma acquired_row_inv:
  assumes "heap_inv h" and "i < length (kh_allocs h)" and k: "ka_pool (kh_allocs h ! i) = Some k"
    and b: "ka_bound_row (kh_allocs h ! i) < 0"
    and row: "0 \<le> row" "row < table_row_count (kh_pools h ! k)" "\<not> kp_row_in_use (kh_pools h ! k) ! nat row"
  shows "heap_inv (kv_put h k ((kh_pools h ! k)
           \<lparr>kp_row_in_use := (kp_row_in_use (kh_pools h ! k))[nat row := True]\<rparr>)
           i ((kh_allocs h ! i)\<lparr>ka_bound_row := row\<rparr>))"
proof -
  let ?a = "kh_allocs h ! i" and ?p = "kh_pools h ! k"
  note f = owned_facts [OF assms(1,2) k]
  have len: "length (kp_row_in_use ?p) = nat (table_row_count ?p)"
    using heap_invD(1) [OF assms(1) f(1)] by (simp add: pool_shape_def)
  show ?thesis
  proof (rule heap_inv_put [OF assms(1,2) f(1) k])
    show "ledger pool_inv (?p\<lparr>kp_row_in_use := (kp_row_in_use ?p)[nat row := True]\<rparr>)
        ((map (holding_of k) (kh_allocs h))[i := holding_of k (?a\<lparr>ka_bound_row := row\<rparr>)])"
      using heap_invD(2) [OF assms(1) f(1)] assms(2)
      by (simp add: ledger_cong_pool [OF pool_inv_rows] map_update_id)
    show "alloc_ok (kh_pools h) (?a\<lparr>ka_bound_row := row\<rparr>)"
      using heap_inv_alloc_ok [OF assms(1,2)] row k by (simp add: alloc_ok_def)
    show "B + binds k r (?a\<lparr>ka_bound_row := row\<rparr>)
        = of_bool (kp_row_in_use (?p\<lparr>kp_row_in_use := (kp_row_in_use ?p)[nat row := True]\<rparr>) ! r)"
      if "r < nat (table_row_count ?p)" "B + binds k r ?a = of_bool (kp_row_in_use ?p ! r)" for r B
      using that b row k len by (cases "int r = row") (auto simp: binds_def nth_list_update)
  qed (simp_all add: k)
qed

lemma bind_row_inv:
  assumes "heap_inv h" and "i < length (kh_allocs h)"
  shows "heap_inv (fst (bind_row h i row))"
proof (cases "ka_pool (kh_allocs h ! i)")
  case None
  then show ?thesis using assms by (simp add: bind_row_def)
next
  case (Some k)
  then show ?thesis using assms acquired_row_inv [OF assms Some, of row]
    by (auto simp: bind_row_def Let_def acquire_row_cases not_le intro!: publish_mapping_inv)
qed

text \<open>Binding an unbound allocation to a free row succeeds and publishes the mapping.\<close>

lemma bind_row_total:
  assumes "heap_inv h" and "i < length (kh_allocs h)" and k: "ka_pool (kh_allocs h ! i) = Some k"
    and b: "ka_bound_row (kh_allocs h ! i) < 0"
    and row: "0 \<le> row" "row < table_row_count (kh_pools h ! k)" "\<not> kp_row_in_use (kh_pools h ! k) ! nat row"
  shows "bind_row h i row = (kv_put h k ((kh_pools h ! k)
      \<lparr>kp_row_in_use := (kp_row_in_use (kh_pools h ! k))[nat row := True],
       kp_table_writes := kp_table_writes (kh_pools h ! k) @ publish_writes (kh_pools h ! k)
         ((kh_allocs h ! i)\<lparr>ka_bound_row := row\<rparr>) 0 (mapped_page_count (kh_allocs h ! i))\<rparr>)
      i ((kh_allocs h ! i)\<lparr>ka_bound_row := row\<rparr>), Inr ())"
proof -
  let ?p = "(kh_pools h ! k)\<lparr>kp_row_in_use := (kp_row_in_use (kh_pools h ! k))[nat row := True]\<rparr>"
  let ?a = "(kh_allocs h ! i)\<lparr>ka_bound_row := row\<rparr>"
  let ?h = "kv_put h k ?p i ?a"
  have kl: "k < length (kh_pools h)" by (rule owned_facts(1) [OF assms(1,2) k])
  have "heap_inv ?h" by (rule acquired_row_inv [OF assms])
  moreover have "i < length (kh_allocs ?h)" "ka_pool (kh_allocs ?h ! i) = Some k"
    "0 \<le> ka_bound_row (kh_allocs ?h ! i)" using assms(2) k row(1) by simp_all
  ultimately have "publish_mapping ?h i = (kv_put ?h k (?p\<lparr>kp_table_writes := kp_table_writes ?p @
      publish_writes ?p ?a 0 (mapped_page_count ?a)\<rparr>) i ?a, Inr ())"
    using publish_mapping_total(1) [of ?h i k] assms(2) kl by simp
  moreover have "publish_writes ?p ?a = publish_writes (kh_pools h ! k) ?a"
    by (simp add: publish_writes_def row_base_def fun_eq_iff)
  ultimately show ?thesis
    using k b row by (simp add: bind_row_def Let_def acquire_row_cases kv_put_def mapped_page_count_def)
qed

lemma unbind_row_inv:
  assumes "heap_inv h" and "i < length (kh_allocs h)"
  shows "heap_inv (unbind_row h i)"
proof (cases "0 \<le> ka_bound_row (kh_allocs h ! i)")
  case False
  then show ?thesis using assms by (simp add: unbind_row_def Let_def)
next
  case True
  obtain k where k: "ka_pool (kh_allocs h ! i) = Some k" by (rule bound_is_owned [OF assms True])
  let ?a = "kh_allocs h ! i" and ?p = "kh_pools h ! k"
  note f = owned_facts [OF assms k]
  have len: "length (kp_row_in_use ?p) = nat (table_row_count ?p)"
    using heap_invD(1) [OF assms(1) f(1)] by (simp add: pool_shape_def)
  have "heap_inv (kv_put h k (release_row ?p (ka_bound_row ?a)) i (?a\<lparr>ka_bound_row := - 1\<rparr>))"
  proof (rule heap_inv_put [OF assms f(1) k])
    show "ledger pool_inv (release_row ?p (ka_bound_row ?a))
        ((map (holding_of k) (kh_allocs h))[i := holding_of k (?a\<lparr>ka_bound_row := - 1\<rparr>)])"
      using heap_invD(2) [OF assms(1) f(1)] assms(2)
      by (simp add: release_row_def ledger_cong_pool [OF pool_inv_rows] map_update_id)
    show "alloc_ok (kh_pools h) (?a\<lparr>ka_bound_row := - 1\<rparr>)"
      using heap_inv_alloc_ok [OF assms] k by (simp add: alloc_ok_def)
    show "B + binds k r (?a\<lparr>ka_bound_row := - 1\<rparr>) = of_bool (kp_row_in_use (release_row ?p (ka_bound_row ?a)) ! r)"
      if "r < nat (table_row_count ?p)" "B + binds k r ?a = of_bool (kp_row_in_use ?p ! r)" for r B
    proof (cases "int r = ka_bound_row ?a")
      case bound: True
      then have "nat (ka_bound_row ?a) = r" by linarith
      moreover have "kp_row_in_use ?p ! r \<and> B = 0"
        using that(2) bound k by (cases "kp_row_in_use ?p ! r") (simp_all add: binds_def)
      ultimately show ?thesis using that(1) len by (simp add: binds_def release_row_def)
    next
      case False
      then have "nat (ka_bound_row ?a) \<noteq> r" using True by linarith
      then show ?thesis using that(2) False k by (simp add: binds_def release_row_def)
    qed
  qed (simp_all add: k release_row_def)
  then show ?thesis using True k by (simp add: unbind_row_def Let_def)
qed

end
