(* ===== verification/Paged_KV_Bundle.thy ===== *)
theory Paged_KV_Bundle
  imports Paged_KV_Safety
begin

text \<open>
  Lifetimes and bundles of the paged KV cache: releasing and moving allocations, reserving and
  resizing several pools at once, and every state reachable through the public operations of
  \<^verbatim>\<open>paged_kv_cache.h\<close>.
\<close>

section \<open>Reachable heaps\<close>

text \<open>A pool as the engine creates it: planned through a layout builder, then bound.\<close>

definition planned_pool :: "paged_kv_pool \<Rightarrow> bool" where
  "planned_pool p \<longleftrightarrow>
     (\<exists>b spec b' lay backing.
        unat (span_data backing) + unat (span_bytes backing) \<le> 2 ^ 64 \<and>
        plan_paged_kv_pool b spec = (b', Inr lay) \<and> make_pool backing lay = Inr p)"

inductive kv_reachable :: "kv_heap \<Rightarrow> bool" where
  start: "(\<forall>p \<in> set ps. planned_pool p) \<Longrightarrow> kv_reachable \<lparr>kh_pools = ps, kh_allocs = []\<rparr>"
| null: "kv_reachable h \<Longrightarrow> kv_reachable (h\<lparr>kh_allocs := kh_allocs h @ [null_allocation]\<rparr>)"
| reserve: "kv_reachable h \<Longrightarrow> k < length (kh_pools h) \<Longrightarrow> kv_reachable (fst (reserve h k n))"
| entitlement: "kv_reachable h \<Longrightarrow> i < length (kh_allocs h) \<Longrightarrow>
    kv_reachable (fst (set_page_entitlement h i n))"
| cancel: "kv_reachable h \<Longrightarrow> i < length (kh_allocs h) \<Longrightarrow>
    kv_reachable (cancel_unmapped_entitlement h i)"
| materialize: "kv_reachable h \<Longrightarrow> i < length (kh_allocs h) \<Longrightarrow>
    kv_reachable (fst (materialize_pages h i n))"
| trim: "kv_reachable h \<Longrightarrow> i < length (kh_allocs h) \<Longrightarrow> kv_reachable (fst (trim_pages h i n))"
| bind_op: "kv_reachable h \<Longrightarrow> i < length (kh_allocs h) \<Longrightarrow> kv_reachable (fst (bind_row h i row))"
| publish_op: "kv_reachable h \<Longrightarrow> i < length (kh_allocs h) \<Longrightarrow> kv_reachable (fst (publish_mapping h i))"
| unbind: "kv_reachable h \<Longrightarrow> i < length (kh_allocs h) \<Longrightarrow> kv_reachable (unbind_row h i)"
| release: "kv_reachable h \<Longrightarrow> i < length (kh_allocs h) \<Longrightarrow> kv_reachable (release_allocation h i)"
| mv_new: "kv_reachable h \<Longrightarrow> j < length (kh_allocs h) \<Longrightarrow> kv_reachable (move_construct h j)"
| move_over: "kv_reachable h \<Longrightarrow> i < length (kh_allocs h) \<Longrightarrow> j < length (kh_allocs h) \<Longrightarrow>
    kv_reachable (move_assign h i j)"
| bundle_op: "kv_reachable h \<Longrightarrow>
    (\<forall>r \<in> set rs. \<forall>k. kr_pool r = Some k \<longrightarrow> k < length (kh_pools h)) \<Longrightarrow>
    kv_reachable (fst (reserve_paged_kv_bundle h rs))"
| resize: "kv_reachable h \<Longrightarrow>
    (\<forall>c \<in> set cs. \<forall>i. kz_allocation c = Some i \<longrightarrow> i < length (kh_allocs h)) \<Longrightarrow>
    kv_reachable (fst (resize_paged_kv_bundle h cs))"

text \<open>What the validation loop has established for one change.\<close>

definition resize_ok :: "kv_heap \<Rightarrow> kv_resize \<Rightarrow> nat \<Rightarrow> nat \<Rightarrow> bool" where
  "resize_ok h c i k \<longleftrightarrow>
     kz_allocation c = Some i \<and> ka_pool (kh_allocs h ! i) = Some k \<and>
     kz_mapped_pages c \<le> mapped_page_count (kh_allocs h ! i) \<and>
     kz_mapped_pages c \<le> kz_page_entitlement c \<and>
     can_replace_entitlement (kh_pools h ! k) (ka_page_entitlement (kh_allocs h ! i))
       (kz_page_entitlement c)"

definition resize_pool :: "kv_heap \<Rightarrow> kv_resize \<Rightarrow> nat option" where
  "resize_pool h c = Option.bind (kz_allocation c) (\<lambda>i. ka_pool (kh_allocs h ! i))"

section \<open>Release and moves\<close>

lemma unbind_row_simps [simp]:
  assumes "i < length (kh_allocs h)"
  shows "ka_pool (kh_allocs (unbind_row h i) ! i) = ka_pool (kh_allocs h ! i)"
    and "ka_page_ids (kh_allocs (unbind_row h i) ! i) = ka_page_ids (kh_allocs h ! i)"
    and "ka_page_entitlement (kh_allocs (unbind_row h i) ! i) = ka_page_entitlement (kh_allocs h ! i)"
    and "length (kh_allocs (unbind_row h i)) = length (kh_allocs h)"
    and "ka_bound_row (kh_allocs (unbind_row h i) ! i) < 0"
  using assms by (auto simp: unbind_row_def Let_def)

lemma release_inv:
  assumes "heap_inv h" and i: "i < length (kh_allocs h)"
  shows "heap_inv (release_allocation h i)" (is ?inv)
    and "kh_allocs (release_allocation h i) ! i = null_allocation" (is ?null)
proof -
  have "?inv \<and> ?null"
  proof (cases "ka_pool (kh_allocs h ! i)")
    case None
    then have "kh_allocs h ! i = null_allocation"
      using heap_inv_alloc_ok [OF assms] by (simp add: alloc_ok_def null_allocation_def)
    then show ?thesis using None assms by (simp add: release_allocation_def)
  next
    case (Some k)
    define h1 where "h1 = unbind_row h i"
    have inv: "heap_inv h1" unfolding h1_def by (rule unbind_row_inv [OF assms])
    have i1: "i < length (kh_allocs h1)" and k: "ka_pool (kh_allocs h1 ! i) = Some k"
      and b: "ka_bound_row (kh_allocs h1 ! i) < 0" using i Some by (simp_all add: h1_def)
    note f = owned_facts [OF inv i1 k]
    let ?a = "kh_allocs h1 ! i" and ?p = "kh_pools h1 ! k"
    let ?q = "replace_entitlement (return_pages ?p (ka_page_ids ?a)) (ka_page_entitlement ?a) 0"
    have "?a\<lparr>ka_page_ids := [], ka_page_entitlement := 0, ka_pool := None\<rparr> = null_allocation"
      using f(4) b by (intro kv_allocation.equality) (auto simp: null_allocation_def)
    then have r: "release_allocation h i = kv_put h1 k ?q i null_allocation"
      using Some by (simp add: release_allocation_def h1_def [symmetric] Let_def)
    have "ledger pool_inv (return_pages ?p (ka_page_ids ?a))
        ((map (holding_of k) (kh_allocs h1))[i := ([], unat (ka_page_entitlement ?a))])"
      using kp.ledger_trim [OF heap_invD(2) [OF inv f(1)], of i 0] i1 f(5) by simp
    then have "ledger pool_inv ?q ((map (holding_of k) (kh_allocs h1))[i := ([], 0)])"
      using kp.ledger_replace [of _ "(map (holding_of k) (kh_allocs h1))[i := ([], unat (ka_page_entitlement ?a))]"
          i "ka_page_entitlement ?a" 0] i1 by simp
    then have "heap_inv (kv_put h1 k ?q i null_allocation)"
      using inv i1 f k b by (intro heap_inv_put) (auto simp: null_allocation_def holding_of_def binds_def alloc_ok_def)
    then show ?thesis using r i1 by simp
  qed
  then show ?inv ?null by auto
qed

lemma sum_list_up_to_null:
  fixes f :: "kv_allocation \<Rightarrow> 'b :: comm_monoid_add"
  assumes "f null_allocation = 0"
    and "mset as' + replicate_mset m null_allocation = mset as + replicate_mset n null_allocation"
  shows "(\<Sum>a\<leftarrow>as'. f a) = (\<Sum>a\<leftarrow>as. f a)"
proof -
  have "(\<Sum>a\<in>#mset as' + replicate_mset m null_allocation. f a)
      = (\<Sum>a\<in>#mset as + replicate_mset n null_allocation. f a)" by (simp only: assms(2))
  moreover have "(\<Sum>a\<in>#replicate_mset j null_allocation. f a) = 0" for j
    by (induction j) (simp_all add: assms(1))
  ultimately show ?thesis by (simp flip: sum_mset_sum_list)
qed

lemma holding_of_null [simp]: "holding_of k null_allocation = ([], 0)"
  by (simp add: holding_of_def null_allocation_def)

lemma binds_null [simp]: "binds k r null_allocation = 0"
  by (simp add: binds_def null_allocation_def)

lemma alloc_ok_null [simp]: "alloc_ok ps null_allocation"
  by (simp add: alloc_ok_def null_allocation_def)

text \<open>Moving allocations around, or adding null ones, keeps the invariant.\<close>

lemma heap_inv_permute:
  assumes "heap_inv h"
    and eq: "mset as + replicate_mset m null_allocation
             = mset (kh_allocs h) + replicate_mset n null_allocation"
  shows "heap_inv (h\<lparr>kh_allocs := as\<rparr>)"
proof -
  have "set_mset (mset as) \<subseteq> set_mset (mset (kh_allocs h) + replicate_mset n null_allocation)"
    unfolding eq [symmetric] by simp
  then have sub: "set as \<subseteq> insert null_allocation (set (kh_allocs h))"
    by (auto split: if_splits)
  have "ledger pool_inv p (map (holding_of k) as)"
    if "ledger pool_inv p (map (holding_of k) (kh_allocs h))" for p k
  proof -
    have "(\<Sum>a\<leftarrow>as. snd (holding_of k a)) = (\<Sum>a\<leftarrow>kh_allocs h. snd (holding_of k a))"
      and "(\<Sum>a\<leftarrow>as. mset (fst (holding_of k a))) = (\<Sum>a\<leftarrow>kh_allocs h. mset (fst (holding_of k a)))"
      by (rule sum_list_up_to_null [OF _ eq], simp)+
    moreover have "\<forall>h\<in>set (map (holding_of k) as). length (fst h) \<le> snd h"
      using that sub by (auto simp: ledger_def)
    ultimately show ?thesis using that by (simp add: ledger_def o_def)
  qed
  moreover have "(\<Sum>a\<leftarrow>as. binds k r a) = (\<Sum>a\<leftarrow>kh_allocs h. binds k r a)" for k r
    by (rule sum_list_up_to_null [OF _ eq]) simp
  ultimately show ?thesis using assms(1) sub by (auto simp: heap_inv_def rows_inv_def)
qed

lemma move_construct_inv:
  assumes "heap_inv h" and "j < length (kh_allocs h)"
  shows "heap_inv (move_construct h j)"
  unfolding move_construct_def
  by (rule heap_inv_permute [OF assms(1), where m = 0 and n = 1]) (simp add: mset_update assms(2))

lemma move_assign_inv:
  assumes "heap_inv h" and "i < length (kh_allocs h)" and "j < length (kh_allocs h)"
  shows "heap_inv (move_assign h i j)"
proof (cases "i = j")
  case True
  then show ?thesis using assms by (simp add: move_assign_def)
next
  case False
  define h1 where "h1 = release_allocation h i"
  have l: "length (kh_allocs h1) = length (kh_allocs h)"
    using assms(2) by (auto simp: h1_def release_allocation_def Let_def split: option.splits)
  have "mset ((kh_allocs h1)[i := kh_allocs h1 ! j, j := null_allocation]) = mset (kh_allocs h1)"
    using release_inv(2) [OF assms(1,2)] mset_swap [of i "kh_allocs h1" j] assms(2,3) l
      list_update_swap [OF False, of "kh_allocs h1"]
    by (simp add: h1_def)
  then have "heap_inv (h1\<lparr>kh_allocs := (kh_allocs h1)[i := kh_allocs h1 ! j, j := null_allocation]\<rparr>)"
    using release_inv(1) [OF assms(1,2)] by (intro heap_inv_permute [where m = 0 and n = 0]) (simp_all add: h1_def)
  then show ?thesis using False by (simp add: move_assign_def h1_def [symmetric] Let_def)
qed

section \<open>Reservation\<close>

lemma ledger_add_empty: "ledger pinv p (hs @ [([], 0)]) = ledger pinv p hs"
  by (simp add: ledger_def)

lemma add_entitlement_frame [simp]:
  "kp_spec (add_entitlement p n) = kp_spec p"
  "kp_block_tables (add_entitlement p n) = kp_block_tables p"
  "kp_row_in_use (add_entitlement p n) = kp_row_in_use p"
  by (simp_all add: add_entitlement_def)

lemma reserve_inv:
  assumes inv: "heap_inv h" and k: "k < length (kh_pools h)" and can: "can_reserve (kh_pools h ! k) n"
  shows "heap_inv (fst (reserve h k n))"
proof -
  let ?ps = "kh_pools h" and ?as = "kh_allocs h"
  let ?new = "\<lparr>ka_pool = Some k, ka_page_ids = [], ka_page_entitlement = n, ka_bound_row = - 1\<rparr>"
  let ?q = "add_entitlement (?ps ! k) n"
  have "pool_shape (?ps[k := ?q] ! k') \<and>
      ledger pool_inv (?ps[k := ?q] ! k') (map (holding_of k') (?as @ [?new])) \<and>
      rows_inv k' (?ps[k := ?q] ! k') (?as @ [?new])" if k': "k' < length ?ps" for k'
  proof (cases "k' = k")
    case True
    have "pool_shape ?q" by (rule pool_shape_cong [OF heap_invD(1) [OF inv k]]) simp_all
    moreover have "ledger pool_inv ?q (map (holding_of k) ?as @ [([], unat n)])"
      by (rule kp.ledger_reserve [OF heap_invD(2) [OF inv k] can])
    ultimately show ?thesis using True k heap_invD(3) [OF inv k]
      by (simp add: rows_inv_def binds_def holding_of_def)
  next
    case False
    then show ?thesis using heap_invD [OF inv k']
      by (simp add: rows_inv_def binds_def holding_of_def ledger_add_empty)
  qed
  moreover have "alloc_ok (?ps[k := ?q]) a" if "alloc_ok ?ps a" for a
    using that by (rule alloc_ok_cong) (simp_all add: nth_list_update [OF k])
  ultimately show ?thesis using inv can k
    by (auto simp: heap_inv_def reserve_def Let_def alloc_ok_def can_reserve_def)
qed

lemma reserve_fails: "\<not> can_reserve (kh_pools h ! k) n \<Longrightarrow> reserve h k n = (h, Inl Bad_alloc)"
  by (simp add: reserve_def)

lemma distinct_pools_loop_ok:
  "distinct_pools_loop seen rs = Inr () \<Longrightarrow>
     (\<forall>r\<in>set rs. kr_pool r \<noteq> None \<and> kr_pool r \<notin> kr_pool ` set seen) \<and> distinct (map kr_pool rs)"
proof (induction seen rs rule: distinct_pools_loop.induct)
  case (2 seen r rs)
  from 2(2) have r: "kr_pool r \<noteq> None" "kr_pool r \<notin> kr_pool ` set seen"
    and rest: "distinct_pools_loop (seen @ [r]) rs = Inr ()" and "kr_page_entitlement r \<noteq> 0"
    by (auto simp: list_ex_iff image_iff split: if_splits)
  then have "(\<forall>q\<in>set rs. kr_pool q \<noteq> None \<and> kr_pool q \<notin> kr_pool ` set (seen @ [r])) \<and>
      distinct (map kr_pool rs)" using 2 by (auto split: if_splits)
  then show ?case using r by auto
qed simp

text \<open>Once every pool can serve its share, the pushing loop cannot fail.\<close>

lemma reserve_loop_total:
  assumes "heap_inv h" and "distinct (map kr_pool rs)"
    and "\<And>r. r \<in> set rs \<Longrightarrow> \<exists>k < length (kh_pools h). kr_pool r = Some k \<and>
           can_reserve (kh_pools h ! k) (kr_page_entitlement r)"
  shows "\<exists>h'. reserve_loop h made rs = (h', Inr (made @ [length (kh_allocs h)..<length (kh_allocs h) + length rs])) \<and>
    heap_inv h' \<and> kh_allocs h' = kh_allocs h @ map (\<lambda>r. \<lparr>ka_pool = kr_pool r, ka_page_ids = [],
      ka_page_entitlement = kr_page_entitlement r, ka_bound_row = - 1\<rparr>) rs"
  using assms
proof (induction rs arbitrary: h made)
  case Nil
  then show ?case by simp
next
  case (Cons r rs)
  obtain k where k: "k < length (kh_pools h)" "kr_pool r = Some k"
    "can_reserve (kh_pools h ! k) (kr_page_entitlement r)" using Cons.prems(3) by auto
  define h1 where "h1 = fst (reserve h k (kr_page_entitlement r))"
  have pools: "kh_pools h1 = (kh_pools h)[k := add_entitlement (kh_pools h ! k) (kr_page_entitlement r)]"
    and allocs: "kh_allocs h1 = kh_allocs h @ [\<lparr>ka_pool = Some k, ka_page_ids = [],
      ka_page_entitlement = kr_page_entitlement r, ka_bound_row = - 1\<rparr>]"
    and res: "reserve h k (kr_page_entitlement r) = (h1, Inr (length (kh_allocs h)))"
    using k(3) by (simp_all add: h1_def reserve_def Let_def)
  have "heap_inv h1" unfolding h1_def by (rule reserve_inv [OF Cons.prems(1) k(1,3)])
  moreover have "distinct (map kr_pool rs)" using Cons.prems(2) by simp
  moreover have "\<exists>k' < length (kh_pools h1). kr_pool q = Some k' \<and>
      can_reserve (kh_pools h1 ! k') (kr_page_entitlement q)" if q: "q \<in> set rs" for q
  proof -
    obtain k' where "k' < length (kh_pools h)" "kr_pool q = Some k'"
      "can_reserve (kh_pools h ! k') (kr_page_entitlement q)" using Cons.prems(3) [of q] q by auto
    moreover have "k' \<noteq> k" using calculation(2) k(2) Cons.prems(2) q by (metis distinct.simps(2) image_eqI list.set_map list.simps(9))
    ultimately show ?thesis by (auto simp: pools)
  qed
  ultimately obtain h' where "reserve_loop h1 (made @ [length (kh_allocs h)]) rs
      = (h', Inr ((made @ [length (kh_allocs h)]) @ [length (kh_allocs h1)..<length (kh_allocs h1) + length rs]))"
    "heap_inv h'" "kh_allocs h' = kh_allocs h1 @ map (\<lambda>r. \<lparr>ka_pool = kr_pool r, ka_page_ids = [],
      ka_page_entitlement = kr_page_entitlement r, ka_bound_row = - 1\<rparr>) rs"
    using Cons.IH [of h1 "made @ [length (kh_allocs h)]"] by blast
  then show ?case using k(2) res allocs by (simp add: upt_rec)
qed

section \<open>Resizing a bundle\<close>

lemma resize_validate_ok:
  "resize_validate h seen cs = Inr () \<Longrightarrow> (\<forall>s\<in>set seen. \<exists>i. kz_allocation s = Some i) \<Longrightarrow>
     (\<forall>c\<in>set cs. (\<exists>i k. resize_ok h c i k) \<and> resize_pool h c \<notin> resize_pool h ` set seen) \<and>
     distinct (map (resize_pool h) cs)"
proof (induction h seen cs rule: resize_validate.induct)
  case (2 h seen c cs)
  from 2(2) obtain i k where c: "kz_allocation c = Some i" "ka_pool (kh_allocs h ! i) = Some k"
    and ok: "resize_ok h c i k"
    and fresh: "\<forall>s\<in>set seen. ka_pool (kh_allocs h ! the (kz_allocation s)) \<noteq> Some k"
    and rest: "resize_validate h (seen @ [c]) cs = Inr ()"
    by (auto simp: Let_def list_ex_iff resize_ok_def not_less split: option.splits if_splits)
  have seen: "\<forall>s\<in>set (seen @ [c]). \<exists>i. kz_allocation s = Some i" using 2(3) c(1) by auto
  have rp: "resize_pool h c = Some k" using c by (simp add: resize_pool_def)
  have "resize_pool h s \<noteq> Some k" if "s \<in> set seen" for s
    using that fresh 2(3) by (fastforce simp: resize_pool_def)
  then have new: "resize_pool h c \<notin> resize_pool h ` set seen" using rp by (metis imageE)
  have IH: "(\<forall>c'\<in>set cs. (\<exists>i k. resize_ok h c' i k) \<and> resize_pool h c' \<notin> resize_pool h ` set (seen @ [c])) \<and>
      distinct (map (resize_pool h) cs)"
    using 2(2) c by (intro 2(1) [OF c(1) refl c(2)]) (auto simp: rest seen Let_def split: if_splits)
  then show ?case using ok new by auto
qed simp

lemma trim_pages_total:
  assumes "heap_inv h" and "i < length (kh_allocs h)" and k: "ka_pool (kh_allocs h ! i) = Some k"
    and "n \<le> mapped_page_count (kh_allocs h ! i)"
  obtains p' where "trim_pages h i n = (kv_put h k p' i ((kh_allocs h ! i)
      \<lparr>ka_page_ids := take (unat n) (ka_page_ids (kh_allocs h ! i))\<rparr>), Inr ())"
    and "kp_spec p' = kp_spec (kh_pools h ! k)"
    and "kp_entitled_pages p' = kp_entitled_pages (kh_pools h ! k)"
proof (cases "n = mapped_page_count (kh_allocs h ! i)")
  case True
  have "take (unat n) (ka_page_ids (kh_allocs h ! i)) = ka_page_ids (kh_allocs h ! i)"
    using owned_facts(3) [OF assms(1-3)] True by simp
  then have "trim_pages h i n = (kv_put h k (kh_pools h ! k) i ((kh_allocs h ! i)
      \<lparr>ka_page_ids := take (unat n) (ka_page_ids (kh_allocs h ! i))\<rparr>), Inr ())"
    using True k by (simp add: trim_pages_def Let_def kv_put_def)
  then show ?thesis using that by blast
next
  case False
  have "kp_entitled_pages (return_pages q ids) = kp_entitled_pages q" for q ids
    by (simp add: return_pages_def)
  then show ?thesis using that False assms(4) k by (auto simp: trim_pages_def Let_def not_less)
qed

lemma resize_one:
  assumes inv: "heap_inv h" and i: "i < length (kh_allocs h)" and ok: "resize_ok h c i k"
  obtains h1 p where "heap_inv h1"
    and "resize_apply h (c # cs) = resize_apply h1 cs"
    and "h1 = kv_put h k p i ((kh_allocs h ! i)
      \<lparr>ka_page_ids := take (unat (kz_mapped_pages c)) (ka_page_ids (kh_allocs h ! i)),
       ka_page_entitlement := kz_page_entitlement c\<rparr>)"
proof -
  let ?a = "kh_allocs h ! i" and ?n = "kz_mapped_pages c" and ?e = "kz_page_entitlement c"
  have k: "ka_pool ?a = Some k" and c: "kz_allocation c = Some i" using ok by (simp_all add: resize_ok_def)
  obtain p1 where t: "trim_pages h i ?n = (kv_put h k p1 i (?a\<lparr>ka_page_ids := take (unat ?n) (ka_page_ids ?a)\<rparr>), Inr ())"
    and p1: "kp_spec p1 = kp_spec (kh_pools h ! k)" "kp_entitled_pages p1 = kp_entitled_pages (kh_pools h ! k)"
    by (rule trim_pages_total [OF inv i k, of ?n]) (use ok in \<open>auto simp: resize_ok_def\<close>)
  define h1 where "h1 = kv_put h k p1 i (?a\<lparr>ka_page_ids := take (unat ?n) (ka_page_ids ?a)\<rparr>)"
  have inv1: "heap_inv h1" using trim_pages_inv [OF inv i, of ?n] by (simp add: t h1_def)
  have kl: "k < length (kh_pools h)" by (rule owned_facts(1) [OF inv i k])
  have i1: "i < length (kh_allocs h1)" and k1: "ka_pool (kh_allocs h1 ! i) = Some k"
    using i k by (simp_all add: h1_def)
  have "unat (mapped_page_count (kh_allocs h1 ! i)) \<le> unat ?n"
    using owned_facts(3) [OF inv1 i1 k1] i by (simp add: h1_def)
  then have m: "\<not> ?e < mapped_page_count (kh_allocs h1 ! i)"
    using ok by (simp add: resize_ok_def word_less_nat_alt word_le_nat_alt)
  have can: "can_replace_entitlement p1 (ka_page_entitlement ?a) ?e"
    using ok p1 by (simp add: resize_ok_def can_replace_entitlement_def)
  define h2 where "h2 = fst (set_page_entitlement h1 i ?e)"
  have s: "set_page_entitlement h1 i ?e = (h2, Inr ())"
    and h2: "h2 = kv_put h k (replace_entitlement p1 (ka_page_entitlement ?a) ?e) i
      (?a\<lparr>ka_page_ids := take (unat ?n) (ka_page_ids ?a), ka_page_entitlement := ?e\<rparr>)"
    using k1 m can i kl by (simp_all add: h2_def set_page_entitlement_def Let_def h1_def kv_put_def)
  have "heap_inv h2" unfolding h2_def by (rule set_page_entitlement_inv [OF inv1 i1])
  moreover have "resize_apply h (c # cs) = resize_apply h2 cs"
    by (simp add: c t s h1_def [symmetric])
  ultimately show ?thesis using that h2 by blast
qed

text \<open>
  The applying loop goes through for validated changes of distinct pools: every named allocation
  ends with the prefix of its pages and the entitlement asked for, every other one is untouched.
\<close>

lemma resize_apply_total:
  assumes "heap_inv h" and "distinct (map (resize_pool h) cs)"
    and "\<And>c. c \<in> set cs \<Longrightarrow> \<exists>i < length (kh_allocs h). \<exists>k. resize_ok h c i k"
  shows "\<exists>h'. resize_apply h cs = (h', Inr ()) \<and> heap_inv h' \<and>
    length (kh_allocs h') = length (kh_allocs h) \<and>
    (\<forall>c\<in>set cs. kh_allocs h' ! the (kz_allocation c) = (kh_allocs h ! the (kz_allocation c))
       \<lparr>ka_page_ids := take (unat (kz_mapped_pages c)) (ka_page_ids (kh_allocs h ! the (kz_allocation c))),
        ka_page_entitlement := kz_page_entitlement c\<rparr>) \<and>
    (\<forall>j. Some j \<notin> kz_allocation ` set cs \<longrightarrow> kh_allocs h' ! j = kh_allocs h ! j)"
  using assms
proof (induction cs arbitrary: h)
  case Nil
  then show ?case by simp
next
  case (Cons c cs)
  obtain i k where i: "i < length (kh_allocs h)" and ok: "resize_ok h c i k"
    using Cons.prems(3) [of c] by auto
  have ci: "kz_allocation c = Some i" and rp: "resize_pool h c = Some k"
    using ok by (simp_all add: resize_ok_def resize_pool_def)
  obtain h1 p where inv1: "heap_inv h1" and app: "resize_apply h (c # cs) = resize_apply h1 cs"
    and h1: "h1 = kv_put h k p i ((kh_allocs h ! i)
      \<lparr>ka_page_ids := take (unat (kz_mapped_pages c)) (ka_page_ids (kh_allocs h ! i)),
       ka_page_entitlement := kz_page_entitlement c\<rparr>)"
    by (rule resize_one [OF Cons.prems(1) i ok])
  have other: "i' \<noteq> i \<and> k' \<noteq> k" if q: "q \<in> set cs" "resize_ok h q i' k'" for q i' k'
  proof -
    have "resize_pool h q = Some k'" using q(2) by (simp add: resize_ok_def resize_pool_def)
    moreover have "resize_pool h q \<noteq> resize_pool h c" using Cons.prems(2) q(1) by (metis distinct.simps(2) image_eqI list.set_map list.simps(9))
    ultimately have "k' \<noteq> k" using rp by simp
    then show ?thesis using ok q(2) by (auto simp: resize_ok_def)
  qed
  have same: "resize_pool h1 q = resize_pool h q" if "q \<in> set cs" for q
    using i by (cases "kz_allocation q") (auto simp: resize_pool_def h1 nth_list_update)
  have mp: "map (resize_pool h1) cs = map (resize_pool h) cs" by (rule map_cong [OF refl same])
  have d: "distinct (map (resize_pool h1) cs)" unfolding mp using Cons.prems(2) by simp
  have oks: "\<exists>i' < length (kh_allocs h1). \<exists>k'. resize_ok h1 q i' k'" if q: "q \<in> set cs" for q
  proof -
    obtain i' k' where "i' < length (kh_allocs h)" "resize_ok h q i' k'" using Cons.prems(3) [of q] q by auto
    moreover have "i' \<noteq> i" "k' \<noteq> k" using other [OF q calculation(2)] by simp_all
    ultimately have "i' < length (kh_allocs h1) \<and> resize_ok h1 q i' k'" by (simp add: resize_ok_def h1)
    then show ?thesis by blast
  qed
  have fresh: "Some i \<notin> kz_allocation ` set cs"
  proof
    assume "Some i \<in> kz_allocation ` set cs"
    then obtain q where q: "q \<in> set cs" "kz_allocation q = Some i" by auto
    obtain i' k' where ok': "resize_ok h q i' k'" using Cons.prems(3) [of q] q by auto
    then show False using other [OF q(1) ok'] q(2) by (simp add: resize_ok_def)
  qed
  from Cons.IH [OF inv1 d oks] obtain h' where IH: "resize_apply h1 cs = (h', Inr ())" "heap_inv h'"
    "length (kh_allocs h') = length (kh_allocs h1)"
    "\<forall>c\<in>set cs. kh_allocs h' ! the (kz_allocation c) = (kh_allocs h1 ! the (kz_allocation c))
       \<lparr>ka_page_ids := take (unat (kz_mapped_pages c)) (ka_page_ids (kh_allocs h1 ! the (kz_allocation c))),
        ka_page_entitlement := kz_page_entitlement c\<rparr>"
    "\<forall>j. Some j \<notin> kz_allocation ` set cs \<longrightarrow> kh_allocs h' ! j = kh_allocs h1 ! j" by blast
  have "kh_allocs h1 ! the (kz_allocation q) = kh_allocs h ! the (kz_allocation q)" if q: "q \<in> set cs" for q
  proof -
    obtain i' k' where ok': "resize_ok h q i' k'" using Cons.prems(3) [of q] q by auto
    then show ?thesis using other [OF q ok'] by (simp add: resize_ok_def h1)
  qed
  then have mid: "\<forall>c\<in>set cs. kh_allocs h' ! the (kz_allocation c) = (kh_allocs h ! the (kz_allocation c))
       \<lparr>ka_page_ids := take (unat (kz_mapped_pages c)) (ka_page_ids (kh_allocs h ! the (kz_allocation c))),
        ka_page_entitlement := kz_page_entitlement c\<rparr>" using IH(4) by simp
  have hd: "kh_allocs h' ! i = kh_allocs h1 ! i" using IH(5) fresh by blast
  have "\<forall>j. Some j \<notin> kz_allocation ` set (c # cs) \<longrightarrow> kh_allocs h' ! j = kh_allocs h ! j"
    using IH(5) ci by (auto simp: h1)
  then show ?case using app IH(1-3) mid hd i by (simp add: ci h1)
qed

lemma resize_bundle_cases:
  assumes "heap_inv h" and "\<forall>c \<in> set cs. \<forall>i. kz_allocation c = Some i \<longrightarrow> i < length (kh_allocs h)"
  shows "(\<exists>e. resize_paged_kv_bundle h cs = (h, Inl e)) \<or>
    (\<exists>h'. resize_paged_kv_bundle h cs = (h', Inr ()) \<and> heap_inv h' \<and>
      length (kh_allocs h') = length (kh_allocs h) \<and>
      (\<forall>c\<in>set cs. kh_allocs h' ! the (kz_allocation c) = (kh_allocs h ! the (kz_allocation c))
         \<lparr>ka_page_ids := take (unat (kz_mapped_pages c)) (ka_page_ids (kh_allocs h ! the (kz_allocation c))),
          ka_page_entitlement := kz_page_entitlement c\<rparr>) \<and>
      (\<forall>j. Some j \<notin> kz_allocation ` set cs \<longrightarrow> kh_allocs h' ! j = kh_allocs h ! j))"
proof (cases "resize_validate h [] cs")
  case (Inl e)
  then show ?thesis by (simp add: resize_paged_kv_bundle_def)
next
  case (Inr u)
  then have "resize_validate h [] cs = Inr ()" by simp
  from resize_validate_ok [OF this]
  have ok: "\<forall>c\<in>set cs. \<exists>i k. resize_ok h c i k" and d: "distinct (map (resize_pool h) cs)" by auto
  have "\<exists>i < length (kh_allocs h). \<exists>k. resize_ok h c i k" if c: "c \<in> set cs" for c
  proof -
    obtain i k where r: "resize_ok h c i k" using ok c by blast
    then have "i < length (kh_allocs h)" using assms(2) c by (simp add: resize_ok_def)
    with r show ?thesis by blast
  qed
  from resize_apply_total [OF assms(1) d this] Inr show ?thesis
    by (simp add: resize_paged_kv_bundle_def)
qed

lemma reserve_bundle_cases:
  assumes "heap_inv h" and "\<forall>r \<in> set rs. \<forall>k. kr_pool r = Some k \<longrightarrow> k < length (kh_pools h)"
  shows "(\<exists>e. reserve_paged_kv_bundle h rs = (h, Inl e)) \<or>
    (\<exists>h'. reserve_paged_kv_bundle h rs
            = (h', Inr [length (kh_allocs h)..<length (kh_allocs h) + length rs]) \<and> heap_inv h' \<and>
      kh_allocs h' = kh_allocs h @ map (\<lambda>r. \<lparr>ka_pool = kr_pool r, ka_page_ids = [],
        ka_page_entitlement = kr_page_entitlement r, ka_bound_row = - 1\<rparr>) rs)"
proof (cases "validate_distinct_pools rs")
  case (Inl e)
  then show ?thesis by (simp add: reserve_paged_kv_bundle_def)
next
  case (Inr u)
  then have v: "(\<forall>r\<in>set rs. kr_pool r \<noteq> None) \<and> distinct (map kr_pool rs)"
    using distinct_pools_loop_ok [of "[]" rs] by (simp add: validate_distinct_pools_def)
  show ?thesis
  proof (cases "list_ex (\<lambda>r. \<not> can_reserve (kh_pools h ! the (kr_pool r)) (kr_page_entitlement r)) rs")
    case True
    then show ?thesis using Inr by (simp add: reserve_paged_kv_bundle_def)
  next
    case False
    then have "\<exists>k < length (kh_pools h). kr_pool r = Some k \<and>
        can_reserve (kh_pools h ! k) (kr_page_entitlement r)" if r: "r \<in> set rs" for r
    proof -
      obtain k where k: "kr_pool r = Some k" using v r by blast
      moreover have "can_reserve (kh_pools h ! the (kr_pool r)) (kr_page_entitlement r)"
        using False r by (simp add: list_ex_iff)
      ultimately show ?thesis using assms(2) r by simp
    qed
    from reserve_loop_total [OF assms(1) v [THEN conjunct2] this, of "[]"] False Inr show ?thesis
      by (simp add: reserve_paged_kv_bundle_def)
  qed
qed

section \<open>Construction\<close>

lemma distinct_mset_subset:
  assumes "distinct ys" and "mset xs \<subseteq># mset ys"
  shows "distinct xs"
proof (rule distinct_of_count)
  fix q
  have "count (mset xs) q \<le> count (mset ys) q" using assms(2) by (rule mset_subset_eq_count)
  moreover have "count (mset ys) q \<le> 1"
    using assms(1) unfolding distinct_count_atmost_1 by (simp only: split: if_split) simp
  ultimately show "count (mset xs) q \<le> 1" by linarith
qed

lemma checked_i32_eq_Inr:
  "checked_i32 v = Inr n \<longleftrightarrow> v \<noteq> 0 \<and> v \<le> 0x7FFFFFFF \<and> n = uint v"
  by (auto simp: checked_i32_def sint_small not_less)

lemma make_table_matrix:
  assumes "make_tensor d I32 [c, r, 1, 1] = Inr t"
  shows "t = table_matrix d c r \<and> 0 < c \<and> 0 < r \<and> 4 * c * r \<le> i64_max"
  using assms
  by (auto simp: make_tensor_def normalize_shape_def contiguous_strides_def bind_result_eq_Inr
      checked_mul_i64_eq_Inr table_matrix_def numeral_3_eq_3 split: if_splits)

lemma plan_poolD:
  assumes "plan_paged_kv_pool b spec = (b', Inr lay)"
  shows "\<exists>pp c b1 tables b2. checked_i32 (sp_page_group_count spec) = Inr pp \<and>
    checked_i32 (sp_logical_page_capacity spec) = Inr c \<and>
    layout_add_tensor b1 I32 [c, sp_table_rows spec] 256 = Inr (tables, b2) \<and>
    lay_spec lay = spec \<and> lay_block_tables lay = tables"
proof -
  obtain pp where pp: "checked_i32 (sp_page_group_count spec) = Inr pp"
    using assms by (cases "checked_i32 (sp_page_group_count spec)") (simp_all add: plan_paged_kv_pool_def)
  obtain c where c: "checked_i32 (sp_logical_page_capacity spec) = Inr c"
    using assms pp by (cases "checked_i32 (sp_logical_page_capacity spec)") (simp_all add: plan_paged_kv_pool_def)
  obtain b1 r where pl: "plan_planes b (sp_plane_order spec) pp (sp_planes spec) = (b1, r)"
    by (cases "plan_planes b (sp_plane_order spec) pp (sp_planes spec)")
  obtain planes where r: "r = Inr planes"
    using assms pp c pl by (cases r) (simp_all add: plan_paged_kv_pool_def split: if_split_asm)
  obtain tables b2 where t: "layout_add_tensor b1 I32 [c, sp_table_rows spec] 256 = Inr (tables, b2)"
    using assms pp c pl r by (cases "layout_add_tensor b1 I32 [c, sp_table_rows spec] 256")
      (auto simp: plan_paged_kv_pool_def split: if_split_asm)
  moreover from t have "lay_spec lay = spec \<and> lay_block_tables lay = tables"
    using assms pp c pl r by (auto simp: plan_paged_kv_pool_def split: if_split_asm)
  ultimately show ?thesis using pp c by blast
qed

lemma make_poolD:
  assumes "make_pool backing lay = Inr p"
  shows "\<exists>t. tensor_region_bind (lay_block_tables lay) backing = Inr t \<and>
    kp_spec p = lay_spec lay \<and> kp_block_tables p = t \<and>
    kp_row_in_use p = replicate (nat (sp_table_rows (lay_spec lay))) False \<and>
    kp_free_page_ids p = map (\<lambda>page. sint (of_nat page :: u32)) [0..<unat (sp_page_group_count (lay_spec lay))] \<and>
    kp_entitled_pages p = 0 \<and> kp_mapped_pages p = 0"
proof -
  obtain t where t: "tensor_region_bind (lay_block_tables lay) backing = Inr t"
    using assms by (auto simp: make_pool_def Let_def bind_result_eq_Inr)
  then show ?thesis using assms
    by (auto simp: make_pool_def Let_def bind_result_eq_Inr split: if_split_asm)
qed
lemma planned_poolE:
  assumes "planned_pool p"
  obtains d c r where "kp_block_tables p = table_matrix d c r" "0 < c" "4 * c * r \<le> i64_max"
    "c = sint (logical_page_capacity p)" "r = table_row_count p" "0 < r"
    "unat (page_group_count p) < 2 ^ 31" "logical_page_capacity p \<le> 0x7FFFFFFF"
    "kp_row_in_use p = replicate (nat r) False"
    "kp_free_page_ids p = map int [0..<unat (page_group_count p)]"
    "kp_entitled_pages p = 0" "kp_mapped_pages p = 0"
proof -
  obtain b spec b' lay backing where plan: "plan_paged_kv_pool b spec = (b', Inr lay)"
    and mk: "make_pool backing lay = Inr p" using assms by (auto simp: planned_pool_def)
  obtain pp c b1 tables b2 where pp: "checked_i32 (sp_page_group_count spec) = Inr pp"
    and c: "checked_i32 (sp_logical_page_capacity spec) = Inr c"
    and add: "layout_add_tensor b1 I32 [c, sp_table_rows spec] 256 = Inr (tables, b2)"
    and lay: "lay_spec lay = spec" "lay_block_tables lay = tables"
    using plan_poolD [OF plan] by blast
  from add have tr: "tr_shape tables = [c, sp_table_rows spec, 1, 1]" "tr_dtype tables = I32"
    by (auto simp: layout_add_tensor_def bind_result_eq_Inr numeral_2_eq_2)
  obtain t where t: "tensor_region_bind tables backing = Inr t"
    and p: "kp_spec p = spec" "kp_block_tables p = t"
      "kp_row_in_use p = replicate (nat (sp_table_rows spec)) False"
      "kp_free_page_ids p = map (\<lambda>page. sint (of_nat page :: u32)) [0..<unat (sp_page_group_count spec)]"
      "kp_entitled_pages p = 0" "kp_mapped_pages p = 0"
    using make_poolD [OF mk] unfolding lay by blast
  from t obtain d where "make_tensor d I32 [c, sp_table_rows spec, 1, 1] = Inr t"
    by (auto simp: tensor_region_bind_def bind_result_eq_Inr tr split: if_splits)
  from make_table_matrix [OF this] have m: "t = table_matrix d c (sp_table_rows spec)" "0 < c"
    "0 < sp_table_rows spec" "4 * c * sp_table_rows spec \<le> i64_max" by auto
  have "sp_page_group_count spec \<le> 0x7FFFFFFF" using pp by (simp add: checked_i32_eq_Inr)
  then have small: "unat (sp_page_group_count spec) < 2 ^ 31" by (simp add: word_le_nat_alt)
  have free: "kp_free_page_ids p = map int [0..<unat (sp_page_group_count spec)]"
    unfolding p(4) using small by (intro map_cong [OF refl] sint_of_nat_u32) simp
  have cc: "c = sint (sp_logical_page_capacity spec)" and lc: "sp_logical_page_capacity spec \<le> 0x7FFFFFFF"
    using c by (simp_all add: checked_i32_eq_Inr sint_small)
  show ?thesis
    by (rule that [of d c "sp_table_rows spec", unfolded p(1), OF p(2) [unfolded m(1)] m(2,4) cc refl m(3) small lc p(3) free p(5,6)])
qed

lemma planned_pool_inv:
  assumes "planned_pool p"
  shows "pool_inv p 0 {#} \<and> pool_shape p \<and> (\<forall>r < nat (table_row_count p). \<not> kp_row_in_use p ! r)"
  using assms
proof (rule planned_poolE)
  fix d c r
  assume t: "kp_block_tables p = table_matrix d c r" "0 < c" "4 * c * r \<le> i64_max"
    and c: "c = sint (logical_page_capacity p)" and r: "r = table_row_count p"
    and lc: "logical_page_capacity p \<le> 0x7FFFFFFF"
    and rows: "kp_row_in_use p = replicate (nat r) False"
    and free: "kp_free_page_ids p = map int [0..<unat (page_group_count p)]"
    and zero: "kp_entitled_pages p = 0" "kp_mapped_pages p = 0"
  have d: "t_data (kp_block_tables p) = d" using t(1) by (simp add: table_matrix_def)
  have "pool_shape p" using t rows lc unfolding pool_shape_def Let_def d c r by simp
  moreover have "pool_inv p 0 {#}" using free zero by (simp add: pool_inv_def sorted_map)
  ultimately show ?thesis using rows r by simp
qed

lemma fresh_heap_inv:
  assumes "\<forall>p \<in> set ps. planned_pool p"
  shows "heap_inv \<lparr>kh_pools = ps, kh_allocs = []\<rparr>"
proof -
  have "pool_inv (ps ! k) 0 {#} \<and> pool_shape (ps ! k) \<and>
      (\<forall>r < nat (table_row_count (ps ! k)). \<not> kp_row_in_use (ps ! k) ! r)" if "k < length ps" for k
    using assms that by (intro planned_pool_inv) simp
  then show ?thesis by (simp add: heap_inv_def ledger_def rows_inv_def)
qed

lemma kv_reachable_inv: "kv_reachable h \<Longrightarrow> heap_inv h"
proof (induction rule: kv_reachable.induct)
  case (start ps)
  then show ?case by (rule fresh_heap_inv)
next
  case (null h)
  then show ?case by (intro heap_inv_permute [where m = 0 and n = 1]) simp_all
next
  case (reserve h k n)
  then show ?case by (cases "can_reserve (kh_pools h ! k) n") (simp_all add: reserve_inv reserve_fails)
next
  case (bundle_op h rs)
  from reserve_bundle_cases [OF bundle_op(3,2)] bundle_op(3) show ?case by (elim disjE exE conjE) simp_all
next
  case (resize h cs)
  from resize_bundle_cases [OF resize(3,2)] resize(3) show ?case by (elim disjE exE conjE) simp_all
qed (rule set_page_entitlement_inv cancel_unmapped_entitlement_inv materialize_pages_inv
      trim_pages_inv bind_row_inv publish_mapping_inv unbind_row_inv release_inv(1) move_construct_inv
      move_assign_inv; assumption)+

section \<open>What the invariant says about pages and rows\<close>

lemma heap_pages_disjoint:
  assumes "heap_inv h" and "k < length (kh_pools h)"
  shows "\<forall>i j. i < length (kh_allocs h) \<and> j < length (kh_allocs h) \<and> i \<noteq> j \<and>
    ka_pool (kh_allocs h ! i) = Some k \<and> ka_pool (kh_allocs h ! j) = Some k \<longrightarrow>
    set (ka_page_ids (kh_allocs h ! i)) \<inter> set (ka_page_ids (kh_allocs h ! j)) = {}"
proof (intro allI impI)
  fix i j
  assume "i < length (kh_allocs h) \<and> j < length (kh_allocs h) \<and> i \<noteq> j \<and>
    ka_pool (kh_allocs h ! i) = Some k \<and> ka_pool (kh_allocs h ! j) = Some k"
  then show "set (ka_page_ids (kh_allocs h ! i)) \<inter> set (ka_page_ids (kh_allocs h ! j)) = {}"
    using kp.ledger_distinct(2) [OF heap_invD(2) [OF assms], of i j] by (simp add: holding_of_def)
qed

lemma heap_rows_exclusive:
  assumes "heap_inv h" and "k < length (kh_pools h)"
  shows "\<forall>i j. i < length (kh_allocs h) \<and> j < length (kh_allocs h) \<and> i \<noteq> j \<and>
    ka_pool (kh_allocs h ! i) = Some k \<and> ka_pool (kh_allocs h ! j) = Some k \<longrightarrow>
    ka_bound_row (kh_allocs h ! i) = ka_bound_row (kh_allocs h ! j) \<longrightarrow>
    ka_bound_row (kh_allocs h ! i) = - 1"
proof (intro allI impI, elim conjE)
  fix i j
  assume i: "i < length (kh_allocs h)" and j: "j < length (kh_allocs h)" and ij: "i \<noteq> j"
    and ki: "ka_pool (kh_allocs h ! i) = Some k" and kj: "ka_pool (kh_allocs h ! j) = Some k"
    and same: "ka_bound_row (kh_allocs h ! i) = ka_bound_row (kh_allocs h ! j)"
  show "ka_bound_row (kh_allocs h ! i) = - 1"
  proof (rule ccontr)
    assume "ka_bound_row (kh_allocs h ! i) \<noteq> - 1"
    then have b: "0 \<le> ka_bound_row (kh_allocs h ! i)"
      "ka_bound_row (kh_allocs h ! i) < table_row_count (kh_pools h ! k)"
      using owned_facts(4) [OF assms(1) i ki] by auto
    define r where "r = nat (ka_bound_row (kh_allocs h ! i))"
    have r: "r < nat (table_row_count (kh_pools h ! k))" "int r = ka_bound_row (kh_allocs h ! i)"
      using b by (simp_all add: r_def)
    let ?as = "kh_allocs h"
    have jl: "j < length (?as[i := null_allocation])" using j by simp
    obtain B where B: "(\<Sum>a\<leftarrow>?as. binds k r a) = B + binds k r (?as ! i)"
      and B': "\<And>y. (\<Sum>a\<leftarrow>?as[i := y]. binds k r a) = B + binds k r y"
      using sum_list_focus [OF i, of "binds k r"] by blast
    have "binds k r (?as[i := null_allocation] ! j) \<le> (\<Sum>a\<leftarrow>?as[i := null_allocation]. binds k r a)"
      using jl by (intro sum_list_ge_elem nth_mem)
    then have "binds k r (?as ! j) \<le> B" using ij by (simp add: B')
    then have "2 \<le> (\<Sum>a\<leftarrow>?as. binds k r a)"
      unfolding B using ki kj same r(2) by (simp add: binds_def)
    then show False using heap_invD(3) [OF assms] r(1) by (simp add: rows_inv_def of_bool_def split: if_splits)
  qed
qed

lemma heap_pages_in_pool:
  assumes "heap_inv h" and "k < length (kh_pools h)"
  shows "\<forall>i. i < length (kh_allocs h) \<and> ka_pool (kh_allocs h ! i) = Some k \<longrightarrow>
    distinct (ka_page_ids (kh_allocs h ! i)) \<and>
    length (ka_page_ids (kh_allocs h ! i)) \<le> unat (ka_page_entitlement (kh_allocs h ! i)) \<and>
    set (ka_page_ids (kh_allocs h ! i)) \<subseteq> {0..<int (unat (page_group_count (kh_pools h ! k)))} \<and>
    set (ka_page_ids (kh_allocs h ! i)) \<inter> set (kp_free_page_ids (kh_pools h ! k)) = {}"
proof (intro allI impI, elim conjE)
  fix i
  assume i: "i < length (kh_allocs h)" and ki: "ka_pool (kh_allocs h ! i) = Some k"
  let ?ids = "ka_page_ids (kh_allocs h ! i)" and ?p = "kh_pools h ! k"
  let ?hs = "map (holding_of k) (kh_allocs h)"
  note led = heap_invD(2) [OF assms] and f = owned_facts [OF assms(1) i ki]
  have il: "i < length ?hs" using i by simp
  obtain R where R: "(\<Sum>h\<leftarrow>?hs. mset (fst h)) = R + mset ?ids"
    using sum_list_focus [OF il, of "\<lambda>h. mset (fst h)"] f(5) by (metis fst_conv)
  have all: "mset (kp_free_page_ids ?p) + (R + mset ?ids) = mset (map int [0..<unat (page_group_count ?p)])"
    using led unfolding ledger_def pool_inv_def R by blast
  then have "mset ?ids \<subseteq># mset (map int [0..<unat (page_group_count ?p)])"
    by (metis mset_subset_eq_add_right add.assoc)
  then have "set ?ids \<subseteq> set (map int [0..<unat (page_group_count ?p)])"
    by (metis set_mset_mono set_mset_mset)
  then have sub: "set ?ids \<subseteq> {0..<int (unat (page_group_count ?p))}"
    by (simp add: image_int_atLeastLessThan)
  have "distinct (map int [0..<unat (page_group_count ?p)])" by (simp add: distinct_map)
  moreover have "mset (kp_free_page_ids ?p @ ?ids) \<subseteq># mset (map int [0..<unat (page_group_count ?p)])"
    unfolding all [symmetric] by simp
  ultimately have "distinct (kp_free_page_ids ?p @ ?ids)" by (rule distinct_mset_subset)
  then have "distinct ?ids \<and> set ?ids \<inter> set (kp_free_page_ids ?p) = {}" by auto
  with sub f(2) show "distinct ?ids \<and> length ?ids \<le> unat (ka_page_entitlement (kh_allocs h ! i)) \<and>
    set ?ids \<subseteq> {0..<int (unat (page_group_count ?p))} \<and> set ?ids \<inter> set (kp_free_page_ids ?p) = {}"
    by blast
qed

lemma heap_pool_counters:
  assumes "heap_inv h" and "k < length (kh_pools h)"
  shows "unat (kp_entitled_pages (kh_pools h ! k))
      = (\<Sum>a\<leftarrow>filter (\<lambda>a. ka_pool a = Some k) (kh_allocs h). unat (ka_page_entitlement a)) \<and>
    unat (kp_entitled_pages (kh_pools h ! k)) \<le> unat (page_group_count (kh_pools h ! k)) \<and>
    length (kp_free_page_ids (kh_pools h ! k)) + unat (kp_mapped_pages (kh_pools h ! k))
      = unat (page_group_count (kh_pools h ! k))"
proof -
  have inv: "pool_inv (kh_pools h ! k) (\<Sum>h\<leftarrow>map (holding_of k) (kh_allocs h). snd h)
      (\<Sum>h\<leftarrow>map (holding_of k) (kh_allocs h). mset (fst h))"
    using heap_invD(2) [OF assms] by (simp add: ledger_def)
  have "(\<Sum>h\<leftarrow>map (holding_of k) as. snd h)
      = (\<Sum>a\<leftarrow>filter (\<lambda>a. ka_pool a = Some k) as. unat (ka_page_entitlement a))" for as
    by (induction as) (simp_all add: holding_of_def)
  then show ?thesis using inv pool_free_length [OF inv] by (simp add: pool_inv_def)
qed

lemma heap_all_null:
  assumes "heap_inv h" and "k < length (kh_pools h)" and "\<forall>a \<in> set (kh_allocs h). ka_pool a = None"
  shows "kp_free_page_ids (kh_pools h ! k) = map int [0..<unat (page_group_count (kh_pools h ! k))] \<and>
    kp_entitled_pages (kh_pools h ! k) = 0 \<and> kp_mapped_pages (kh_pools h ! k) = 0 \<and>
    kp_row_in_use (kh_pools h ! k) = replicate (nat (table_row_count (kh_pools h ! k))) False"
proof -
  let ?p = "kh_pools h ! k"
  have "(\<Sum>x\<leftarrow>map (holding_of k) as. snd x) = 0 \<and> (\<Sum>x\<leftarrow>map (holding_of k) as. mset (fst x)) = {#}"
    if "\<forall>a \<in> set as. ka_pool a = None" for as
    using that by (induction as) (simp_all add: holding_of_def)
  from this [OF assms(3)] have inv: "pool_inv ?p 0 {#}"
    using heap_invD(2) [OF assms(1,2)] unfolding ledger_def by presburger
  have "mset (kp_free_page_ids ?p) = mset (map int [0..<unat (page_group_count ?p)])"
    and s: "sorted (kp_free_page_ids ?p)" using inv by (simp_all add: pool_inv_def)
  moreover have "sorted (map int [0..<unat (page_group_count ?p)])" by (simp add: sorted_map)
  ultimately have "kp_free_page_ids ?p = map int [0..<unat (page_group_count ?p)]"
    by (metis properties_for_sort)
  moreover have "kp_entitled_pages ?p = 0" "kp_mapped_pages ?p = 0"
    using inv by (simp_all add: pool_inv_def unat_eq_0)
  moreover have "kp_row_in_use ?p = replicate (nat (table_row_count ?p)) False"
  proof (rule nth_equalityI)
    show l: "length (kp_row_in_use ?p) = length (replicate (nat (table_row_count ?p)) False)"
      using heap_invD(1) [OF assms(1,2)] by (simp add: pool_shape_def)
    fix r assume "r < length (kp_row_in_use ?p)"
    then have r: "r < nat (table_row_count ?p)" using l by simp
    have "(\<Sum>a\<leftarrow>as. binds k r a) = 0" if "\<forall>a \<in> set as. ka_pool a = None" for as
      using that by (induction as) (simp_all add: binds_def)
    from this [OF assms(3)] have "of_bool (kp_row_in_use ?p ! r) = (0 :: nat)"
      using heap_invD(3) [OF assms(1,2)] r unfolding rows_inv_def by metis
    then show "kp_row_in_use ?p ! r = replicate (nat (table_row_count ?p)) False ! r" using r by simp
  qed
  ultimately show ?thesis by blast
qed

end
