(* ===== verification/Paged_KV_Transfer.thy ===== *)
theory Paged_KV_Transfer
  imports Paged_KV_Bundle
begin

text \<open>
  The transfers of \<^verbatim>\<open>core/paged_kv_cache.cpp\<close>: zeroing pages, packing the pages of an allocation
  into a host image and back, copying pages between allocations, and reading single logical
  pages. Host and device share one address space. A transfer is the list of the commands it
  enqueues, together with its result: an exception leaves the commands issued before it. What a
  command means is the list of the byte pairs it copies.
\<close>

section \<open>Commands\<close>

record copy_cmd =
  cc_dst :: u64
  cc_dst_pitch :: u64
  cc_src :: u64
  cc_src_pitch :: u64
  cc_width :: u64
  cc_height :: u64

type_synonym transfer = "copy_cmd list \<times> unit result"

text \<open>\<^verbatim>\<open>cudaMemcpyAsync\<close> is the two-dimensional copy with one row.\<close>

definition memcpy_2d :: "u64 \<Rightarrow> u64 \<Rightarrow> u64 \<Rightarrow> u64 \<Rightarrow> u64 \<Rightarrow> u64 \<Rightarrow> copy_cmd" where
  "memcpy_2d dst dpitch src spitch width height =
     \<lparr>cc_dst = dst, cc_dst_pitch = dpitch, cc_src = src, cc_src_pitch = spitch,
      cc_width = width, cc_height = height\<rparr>"

definition memcpy_1d :: "u64 \<Rightarrow> u64 \<Rightarrow> u64 \<Rightarrow> copy_cmd" where
  "memcpy_1d dst src n = memcpy_2d dst n src n n 1"

definition cmd_bytes :: "copy_cmd \<Rightarrow> (u64 \<times> u64) list" where
  "cmd_bytes c =
     concat (map (\<lambda>r. map (\<lambda>j. (cc_dst c + of_nat r * cc_dst_pitch c + of_nat j,
                                cc_src c + of_nat r * cc_src_pitch c + of_nat j))
                          [0..<unat (cc_width c)])
                 [0..<unat (cc_height c)])"

text \<open>\<^verbatim>\<open>cudaMemsetAsync\<close> and \<^verbatim>\<open>cudaMemset2DAsync\<close> to zero.\<close>

record zero_cmd =
  zc_dst :: u64
  zc_pitch :: u64
  zc_width :: u64
  zc_height :: u64

definition zero_bytes :: "zero_cmd \<Rightarrow> u64 list" where
  "zero_bytes c =
     concat (map (\<lambda>r. map (\<lambda>j. zc_dst c + of_nat r * zc_pitch c + of_nat j) [0..<unat (zc_width c)])
                 [0..<unat (zc_height c)])"

definition page_at :: "u64 \<Rightarrow> int \<Rightarrow> int \<Rightarrow> u64" where
  "page_at base page stride = base + word_of_int (page * stride)"

abbreviation nb :: "tensor \<Rightarrow> nat \<Rightarrow> int" where
  "nb t d \<equiv> t_nb t ! d"

abbreviation ne :: "tensor \<Rightarrow> nat \<Rightarrow> int" where
  "ne t d \<equiv> t_ne t ! d"

section \<open>Zeroing pages\<close>

fun zero_run :: "plane_order \<Rightarrow> tensor list \<Rightarrow> int \<Rightarrow> int \<Rightarrow> zero_cmd list" where
  "zero_run order [] first n = []"
| "zero_run order (plane # planes) first n =
     (if order = PageMajor
      then \<lparr>zc_dst = page_at (t_data plane) first (nb plane 3), zc_pitch = 0,
            zc_width = word_of_int n * word_of_int (nb plane 3), zc_height = 1\<rparr>
      else \<lparr>zc_dst = page_at (t_data plane) first (nb plane 2), zc_pitch = word_of_int (nb plane 3),
            zc_width = word_of_int n * word_of_int (nb plane 2),
            zc_height = word_of_int (ne plane 3)\<rparr>)
     # zero_run order planes first n"

text \<open>The inner loop: the end of the run of consecutive ids that \<open>e\<close> extends.\<close>

function consecutive_end :: "int list \<Rightarrow> nat \<Rightarrow> nat" where
  "consecutive_end ids e =
     (if e < length ids \<and> ids ! e = ids ! (e - 1) + 1 then consecutive_end ids (Suc e) else e)"
  by pat_completeness auto
termination by (relation "measure (\<lambda>(ids, e). length ids - e)") auto

lemma consecutive_end_ge: "e \<le> consecutive_end ids e"
proof (induction ids e rule: consecutive_end.induct)
  case (1 ids e)
  then show ?case by (subst consecutive_end.simps) (auto simp del: consecutive_end.simps)
qed

declare consecutive_end.simps [simp del]

lemma consecutive_end_gt: "b < consecutive_end ids (Suc b)"
  using consecutive_end_ge [of "Suc b" ids] by simp

function zero_loop :: "plane_order \<Rightarrow> tensor list \<Rightarrow> int list \<Rightarrow> nat \<Rightarrow> zero_cmd list" where
  "zero_loop order planes ids begin_at =
     (if begin_at < length ids then
        (let e = consecutive_end ids (Suc begin_at) in
         zero_run order planes (ids ! begin_at) (int (e - begin_at)) @ zero_loop order planes ids e)
      else [])"
  by pat_completeness auto
termination
  by (relation "measure (\<lambda>(order, planes, ids, b). length ids - b)")
    (simp_all add: diff_less_mono2 consecutive_end_gt)

declare zero_loop.simps [simp del]

definition zero_pages :: "paged_kv_pool \<Rightarrow> int list \<Rightarrow> zero_cmd list \<times> unit result" where
  "zero_pages p page_ids =
     (let ids = sort page_ids in
      if ids = [] then ([], Inr ())
      else if hd ids < 0 \<or> last ids \<ge> sint (page_group_count p) then ([], Inl Out_of_range)
      else if list_ex (\<lambda>i. ids ! i = ids ! Suc i) [0..<length ids - 1] then ([], Inl Invalid_argument)
      else (zero_loop (sp_plane_order (kp_spec p)) (kp_planes p) ids 0, Inr ()))"

section \<open>Packing and unpacking page-major planes\<close>

definition plane_page_bytes :: "tensor \<Rightarrow> plane_order \<Rightarrow> u64 result" where
  "plane_page_bytes plane order =
     (if order = PageMajor then
        (if nb plane 3 \<le> 0 then Inl Logic_error else Inr (word_of_int (nb plane 3)))
      else if ne plane 3 \<le> 0 \<or> nb plane 2 \<le> 0 then Inl Logic_error
      else Inr (word_of_int (ne plane 3) * word_of_int (nb plane 2)))"

text \<open>The inner loop of both directions: \<open>e\<close> stays inside \<open>limit\<close> pages with the same difference.\<close>

function stride_end :: "int list \<Rightarrow> nat \<Rightarrow> int \<Rightarrow> nat \<Rightarrow> nat" where
  "stride_end pages limit delta e =
     (if e + 1 < limit \<and> pages ! (e + 1) - pages ! e = delta
      then stride_end pages limit delta (Suc e) else e)"
  by pat_completeness auto
termination by (relation "measure (\<lambda>(pages, limit, delta, e). limit - e)") auto

lemma stride_end_ge: "e \<le> stride_end pages limit delta e"
proof (induction pages limit delta e rule: stride_end.induct)
  case (1 pages limit delta e)
  then show ?case by (subst stride_end.simps) (auto simp del: stride_end.simps)
qed

declare stride_end.simps [simp del]

lemma stride_end_gt: "b < stride_end pages limit delta (b + 1)"
  using stride_end_ge [of "b + 1" pages limit delta] by simp

function pack_page_major_pages ::
  "u64 \<Rightarrow> u64 \<Rightarrow> int \<Rightarrow> u64 \<Rightarrow> int list \<Rightarrow> nat \<Rightarrow> copy_cmd list" where
  "pack_page_major_pages out base page_stride bpp pages b =
     (if b < length pages then
        (if b + 1 \<ge> length pages
         then [memcpy_1d (out + of_nat b * bpp) (page_at base (pages ! b) page_stride) bpp]
         else (let delta = pages ! (b + 1) - pages ! b in
           if delta \<le> 0
           then memcpy_1d (out + of_nat b * bpp) (page_at base (pages ! b) page_stride) bpp
                # pack_page_major_pages out base page_stride bpp pages (Suc b)
           else (let e = stride_end pages (length pages) delta (b + 1); n = e - b + 1 in
             (if delta = 1
              then memcpy_1d (out + of_nat b * bpp) (page_at base (pages ! b) page_stride)
                     (of_nat n * bpp)
              else memcpy_2d (out + of_nat b * bpp) bpp (page_at base (pages ! b) page_stride)
                     (word_of_int delta * word_of_int page_stride) bpp (of_nat n))
             # pack_page_major_pages out base page_stride bpp pages (Suc e))))
      else [])"
  by pat_completeness auto
termination
  by (relation "measure (\<lambda>(out, base, s, bpp, pages, b). length pages - b)")
    (simp_all add: diff_less_mono2 less_SucI stride_end_gt [simplified])

declare pack_page_major_pages.simps [simp del]

function unpack_page_major_pages ::
  "u64 \<Rightarrow> int \<Rightarrow> u64 \<Rightarrow> u64 \<Rightarrow> int list \<Rightarrow> nat \<Rightarrow> nat \<Rightarrow> copy_cmd list" where
  "unpack_page_major_pages base page_stride bpp src pages dst_extent b =
     (if b < dst_extent then
        (if b + 1 \<ge> dst_extent
         then [memcpy_1d (page_at base (pages ! b) page_stride) (src + of_nat b * bpp) bpp]
         else (let delta = pages ! (b + 1) - pages ! b in
           if delta \<le> 0
           then memcpy_1d (page_at base (pages ! b) page_stride) (src + of_nat b * bpp) bpp
                # unpack_page_major_pages base page_stride bpp src pages dst_extent (Suc b)
           else (let e = stride_end pages dst_extent delta (b + 1); n = e - b + 1 in
             (if delta = 1
              then memcpy_1d (page_at base (pages ! b) page_stride) (src + of_nat b * bpp)
                     (of_nat n * bpp)
              else memcpy_2d (page_at base (pages ! b) page_stride)
                     (word_of_int delta * word_of_int page_stride)
                     (src + of_nat b * bpp) bpp bpp (of_nat n))
             # unpack_page_major_pages base page_stride bpp src pages dst_extent (Suc e))))
      else [])"
  by pat_completeness auto
termination
  by (relation "measure (\<lambda>(base, s, bpp, src, pages, n, b). n - b)")
    (simp_all add: diff_less_mono2 less_SucI stride_end_gt [simplified])

declare unpack_page_major_pages.simps [simp del]

section \<open>Host images\<close>

fun image_bytes_loop :: "plane_order \<Rightarrow> u32 \<Rightarrow> u64 \<Rightarrow> tensor list \<Rightarrow> u64 result" where
  "image_bytes_loop order page_count total_bytes [] = Inr total_bytes"
| "image_bytes_loop order page_count total_bytes (plane # planes) =
     bind_result (plane_page_bytes plane order) (\<lambda>bpp.
       if page_count \<noteq> 0 \<and> bpp > (- 1) div ucast page_count then Inl Overflow_error
       else (let plane_bytes = bpp * ucast page_count in
         if total_bytes > - 1 - plane_bytes then Inl Overflow_error
         else image_bytes_loop order page_count (total_bytes + plane_bytes) planes))"

definition paged_kv_host_image_bytes :: "paged_kv_pool \<Rightarrow> u32 \<Rightarrow> u64 result" where
  "paged_kv_host_image_bytes p page_count =
     image_bytes_loop (sp_plane_order (kp_spec p)) page_count 0 (kp_planes p)"

fun pack_planes :: "plane_order \<Rightarrow> int list \<Rightarrow> u64 \<Rightarrow> tensor list \<Rightarrow> transfer" where
  "pack_planes order pages out [] = ([], Inr ())"
| "pack_planes order pages out (plane # planes) =
     (case plane_page_bytes plane order of
        Inl e \<Rightarrow> ([], Inl e)
      | Inr bpp \<Rightarrow>
          (let cmds =
             (if order = PageMajor
              then pack_page_major_pages out (t_data plane) (nb plane 3) bpp pages 0
              else map (\<lambda>i. memcpy_2d (out + of_nat i * bpp) (word_of_int (nb plane 2))
                              (page_at (t_data plane) (pages ! i) (nb plane 2))
                              (word_of_int (nb plane 3)) (word_of_int (nb plane 2))
                              (word_of_int (ne plane 3)))
                       [0..<length pages]);
             (rest, r) = pack_planes order pages (out + of_nat (length pages) * bpp) planes
           in (cmds @ rest, r)))"

definition pack_paged_kv_allocation_to_host ::
  "kv_heap \<Rightarrow> nat \<Rightarrow> nat \<Rightarrow> u64 \<Rightarrow> u32 \<Rightarrow> transfer" where
  "pack_paged_kv_allocation_to_host h i k dst page_count =
     (let a = kh_allocs h ! i; p = kh_pools h ! k in
      if ka_pool a = None \<or> ka_pool a \<noteq> Some k then ([], Inl Invalid_argument)
      else if page_count > mapped_page_count a then ([], Inl Invalid_argument)
      else if dst = 0 \<and> page_count \<noteq> 0 then ([], Inl Invalid_argument)
      else if page_count = 0 then ([], Inr ())
      else pack_planes (sp_plane_order (kp_spec p)) (take (unat page_count) (ka_page_ids a)) dst
             (kp_planes p))"

definition pack_mapped_pages_to_host :: "kv_heap \<Rightarrow> nat \<Rightarrow> nat \<Rightarrow> u64 \<Rightarrow> transfer" where
  "pack_mapped_pages_to_host h i k dst =
     (let a = kh_allocs h ! i in
      if ka_pool a = None \<or> ka_pool a \<noteq> Some k then ([], Inl Invalid_argument)
      else pack_paged_kv_allocation_to_host h i k dst (mapped_page_count a))"

fun unpack_planes ::
  "plane_order \<Rightarrow> int list \<Rightarrow> u64 \<Rightarrow> u32 \<Rightarrow> u32 \<Rightarrow> tensor list \<Rightarrow> transfer" where
  "unpack_planes order pages src src_page_count dst_extent [] = ([], Inr ())"
| "unpack_planes order pages src src_page_count dst_extent (plane # planes) =
     (case plane_page_bytes plane order of
        Inl e \<Rightarrow> ([], Inl e)
      | Inr bpp \<Rightarrow>
          (let cmds =
             (if order = PageMajor
              then unpack_page_major_pages (t_data plane) (nb plane 3) bpp src pages (unat dst_extent) 0
              else map (\<lambda>i. memcpy_2d (page_at (t_data plane) (pages ! i) (nb plane 2))
                              (word_of_int (nb plane 3)) (src + of_nat i * bpp)
                              (word_of_int (nb plane 2)) (word_of_int (nb plane 2))
                              (word_of_int (ne plane 3)))
                       [0..<unat dst_extent]);
             (rest, r) = unpack_planes order pages (src + ucast src_page_count * bpp)
                           src_page_count dst_extent planes
           in (cmds @ rest, r)))"

definition unpack_paged_kv_allocation_from_host ::
  "kv_heap \<Rightarrow> nat \<Rightarrow> nat \<Rightarrow> u64 \<Rightarrow> u32 \<Rightarrow> u32 \<Rightarrow> transfer" where
  "unpack_paged_kv_allocation_from_host h i k src src_page_count dst_extent =
     (let a = kh_allocs h ! i; p = kh_pools h ! k in
      if ka_pool a = None \<or> ka_pool a \<noteq> Some k then ([], Inl Invalid_argument)
      else if dst_extent > src_page_count then ([], Inl Logic_error)
      else if dst_extent > mapped_page_count a then ([], Inl Logic_error)
      else if src = 0 \<and> dst_extent \<noteq> 0 then ([], Inl Invalid_argument)
      else unpack_planes (sp_plane_order (kp_spec p)) (ka_page_ids a) src src_page_count dst_extent
             (kp_planes p))"

section \<open>Copies between allocations\<close>

function paired_end :: "int list \<Rightarrow> int list \<Rightarrow> nat \<Rightarrow> nat \<Rightarrow> nat" where
  "paired_end src dst page_count e =
     (if e < page_count \<and> src ! e = src ! (e - 1) + 1 \<and> dst ! e = dst ! (e - 1) + 1
      then paired_end src dst page_count (Suc e) else e)"
  by pat_completeness auto
termination by (relation "measure (\<lambda>(src, dst, n, e). n - e)") auto

lemma paired_end_ge: "e \<le> paired_end src dst n e"
proof (induction src dst n e rule: paired_end.induct)
  case (1 src dst n e)
  then show ?case by (subst paired_end.simps) (auto simp del: paired_end.simps)
qed

declare paired_end.simps [simp del]

lemma paired_end_gt: "b < paired_end src dst n (Suc b)"
  using paired_end_ge [of "Suc b" src dst n] by simp

function copy_plane ::
  "plane_order \<Rightarrow> tensor \<Rightarrow> int list \<Rightarrow> int list \<Rightarrow> nat \<Rightarrow> nat \<Rightarrow> copy_cmd list" where
  "copy_plane order plane src dst page_count b =
     (if b < page_count then
        (let e = paired_end src dst page_count (Suc b); n = of_nat (e - b) in
         (if order = PageMajor
          then memcpy_1d (page_at (t_data plane) (dst ! b) (nb plane 3))
                 (page_at (t_data plane) (src ! b) (nb plane 3)) (n * word_of_int (nb plane 3))
          else memcpy_2d (page_at (t_data plane) (dst ! b) (nb plane 2)) (word_of_int (nb plane 3))
                 (page_at (t_data plane) (src ! b) (nb plane 2)) (word_of_int (nb plane 3))
                 (n * word_of_int (nb plane 2)) (word_of_int (ne plane 3)))
         # copy_plane order plane src dst page_count e)
      else [])"
  by pat_completeness auto
termination
  by (relation "measure (\<lambda>(order, plane, src, dst, n, b). n - b)")
    (simp_all add: diff_less_mono2 paired_end_gt)

declare copy_plane.simps [simp del]

definition copy_paged_kv_allocation :: "kv_heap \<Rightarrow> nat \<Rightarrow> nat \<Rightarrow> nat \<Rightarrow> u32 \<Rightarrow> transfer" where
  "copy_paged_kv_allocation h i j k page_count =
     (let source = kh_allocs h ! i; destination = kh_allocs h ! j; p = kh_pools h ! k in
      if ka_pool source \<noteq> Some k \<or> ka_pool destination \<noteq> Some k
         \<or> page_count > mapped_page_count source \<or> page_count > mapped_page_count destination
      then ([], Inl Invalid_argument)
      else if i = j then ([], Inl Invalid_argument)
      else (concat (map (\<lambda>plane.
              copy_plane (sp_plane_order (kp_spec p)) plane (take (unat page_count) (ka_page_ids source))
                (take (unat page_count) (ka_page_ids destination)) (unat page_count) 0) (kp_planes p)),
            Inr ()))"

section \<open>Single logical pages\<close>

definition paged_kv_logical_page_bytes :: "paged_kv_pool \<Rightarrow> u64 result" where
  "paged_kv_logical_page_bytes p = paged_kv_host_image_bytes p 1"

fun pack_logical_planes :: "plane_order \<Rightarrow> int \<Rightarrow> u64 \<Rightarrow> tensor list \<Rightarrow> transfer" where
  "pack_logical_planes order page_id out [] = ([], Inr ())"
| "pack_logical_planes order page_id out (plane # planes) =
     (case plane_page_bytes plane order of
        Inl e \<Rightarrow> ([], Inl e)
      | Inr bpp \<Rightarrow>
          (let cmd =
             (if order = PageMajor
              then memcpy_1d out (page_at (t_data plane) page_id (nb plane 3)) bpp
              else memcpy_2d out (word_of_int (nb plane 2))
                     (page_at (t_data plane) page_id (nb plane 2)) (word_of_int (nb plane 3))
                     (word_of_int (nb plane 2)) (word_of_int (ne plane 3)));
             (rest, r) = pack_logical_planes order page_id (out + bpp) planes
           in (cmd # rest, r)))"

definition pack_paged_kv_logical_page_to_host ::
  "kv_heap \<Rightarrow> nat \<Rightarrow> nat \<Rightarrow> u32 \<Rightarrow> u64 \<Rightarrow> transfer" where
  "pack_paged_kv_logical_page_to_host h i k logical_index dst =
     (let a = kh_allocs h ! i; p = kh_pools h ! k in
      if ka_pool a = None \<or> ka_pool a \<noteq> Some k then ([], Inl Invalid_argument)
      else if logical_index \<ge> mapped_page_count a then ([], Inl Logic_error)
      else if dst = 0 then ([], Inl Invalid_argument)
      else pack_logical_planes (sp_plane_order (kp_spec p)) (ka_page_ids a ! unat logical_index) dst
             (kp_planes p))"

fun unpack_logical_planes :: "plane_order \<Rightarrow> int \<Rightarrow> u64 \<Rightarrow> tensor list \<Rightarrow> transfer" where
  "unpack_logical_planes order page_id src [] = ([], Inr ())"
| "unpack_logical_planes order page_id src (plane # planes) =
     (case plane_page_bytes plane order of
        Inl e \<Rightarrow> ([], Inl e)
      | Inr bpp \<Rightarrow>
          (let cmd =
             (if order = PageMajor
              then memcpy_1d (page_at (t_data plane) page_id (nb plane 3)) src bpp
              else memcpy_2d (page_at (t_data plane) page_id (nb plane 2)) (word_of_int (nb plane 3))
                     src (word_of_int (nb plane 2)) (word_of_int (nb plane 2))
                     (word_of_int (ne plane 3)));
             (rest, r) = unpack_logical_planes order page_id (src + bpp) planes
           in (cmd # rest, r)))"

definition unpack_paged_kv_logical_page_from_host ::
  "kv_heap \<Rightarrow> nat \<Rightarrow> nat \<Rightarrow> u64 \<Rightarrow> u32 \<Rightarrow> transfer" where
  "unpack_paged_kv_logical_page_from_host h i k src logical_index =
     (let a = kh_allocs h ! i; p = kh_pools h ! k in
      if ka_pool a = None \<or> ka_pool a \<noteq> Some k then ([], Inl Invalid_argument)
      else if logical_index \<ge> mapped_page_count a then ([], Inl Logic_error)
      else if src = 0 then ([], Inl Invalid_argument)
      else unpack_logical_planes (sp_plane_order (kp_spec p)) (ka_page_ids a ! unat logical_index) src
             (kp_planes p))"

fun slice_planes ::
  "plane_order \<Rightarrow> u32 \<Rightarrow> u32 \<Rightarrow> u64 \<Rightarrow> tensor list \<Rightarrow> (u64 \<times> u64) list result" where
  "slice_planes order src_page_count logical_index src [] = Inr []"
| "slice_planes order src_page_count logical_index src (plane # planes) =
     bind_result (plane_page_bytes plane order) (\<lambda>bpp.
       bind_result (slice_planes order src_page_count logical_index
                      (src + ucast src_page_count * bpp) planes) (\<lambda>rest.
         Inr ((src + ucast logical_index * bpp, bpp) # rest)))"

text \<open>The slices a throwing call leaves behind in \<^verbatim>\<open>out\<close> are not modelled.\<close>

definition logical_page_host_slices ::
  "u64 \<Rightarrow> paged_kv_pool \<Rightarrow> u32 \<Rightarrow> u32 \<Rightarrow> (u64 \<times> u64) list result" where
  "logical_page_host_slices img p src_page_count logical_index =
     (if logical_index \<ge> src_page_count then Inl Logic_error
      else if img = 0 then Inl Invalid_argument
      else slice_planes (sp_plane_order (kp_spec p)) src_page_count logical_index img (kp_planes p))"

fun gather_slices :: "u64 \<Rightarrow> (u64 \<times> u64) list \<Rightarrow> copy_cmd list" where
  "gather_slices out [] = []"
| "gather_slices out ((src, n) # slices) =
     (if n \<noteq> 0 then [memcpy_1d out src n] else []) @ gather_slices (out + n) slices"

definition gather_logical_page_from_host_image ::
  "u64 \<Rightarrow> paged_kv_pool \<Rightarrow> u32 \<Rightarrow> u32 \<Rightarrow> u64 \<Rightarrow> transfer" where
  "gather_logical_page_from_host_image img p src_page_count logical_index dst =
     (if dst = 0 then ([], Inl Invalid_argument)
      else (case logical_page_host_slices img p src_page_count logical_index of
              Inl e \<Rightarrow> ([], Inl e)
            | Inr slices \<Rightarrow> (gather_slices dst slices, Inr ())))"

end
