(* ===== verification/Paged_KV_Static.thy ===== *)
theory Paged_KV_Static
  imports Paged_KV_Bundle
begin

text \<open>
  What no operation of the paged KV cache changes: a pool keeps the specification, the planes and
  the block tables it was built with. In particular the block tables of a reachable pool are the
  non-null memory of its backing span.
\<close>

definition static_part :: "paged_kv_pool \<Rightarrow> pool_spec \<times> tensor list \<times> tensor" where
  "static_part p = (kp_spec p, kp_planes p, kp_block_tables p)"

definition statics :: "kv_heap \<Rightarrow> (pool_spec \<times> tensor list \<times> tensor) list" where
  "statics h = map static_part (kh_pools h)"

lemma map_update_any: "f y = f (xs ! i) \<Longrightarrow> map f (xs[i := y]) = map f xs"
  by (cases "i < length xs") (simp_all add: map_update_same list_update_beyond)

lemma statics_put:
  "static_part p = static_part (kh_pools h ! k) \<Longrightarrow> statics (kv_put h k p i a) = statics h"
  by (simp add: statics_def kv_put_def map_update_any)

lemma statics_nth: "k < length (kh_pools h) \<Longrightarrow> statics h ! k = static_part (kh_pools h ! k)"
  by (simp add: statics_def)

lemma statics_allocs [simp]: "statics (h\<lparr>kh_allocs := as\<rparr>) = statics h"
  by (simp add: statics_def)

lemma static_simps [simp]:
  "static_part (return_pages p ids) = static_part p"
  "static_part (add_entitlement p n) = static_part p"
  "static_part (replace_entitlement p n m) = static_part p"
  "static_part (release_row p row) = static_part p"
  by (simp_all add: static_part_def return_pages_def add_entitlement_def replace_entitlement_def
      release_row_def)

lemma take_pages_static: "take_pages p n q = Inr (ids, p') \<Longrightarrow> static_part p' = static_part p"
  by (auto simp: take_pages_def Let_def static_part_def split: if_splits)

lemma publish_range_static: "publish_range p a f n = Inr p' \<Longrightarrow> static_part p' = static_part p"
  by (auto simp: publish_range_def bind_result_eq_Inr static_part_def split: if_splits)

lemma acquire_row_static: "acquire_row p row = Inr p' \<Longrightarrow> static_part p' = static_part p"
  by (auto simp: acquire_row_def static_part_def split: if_splits)

section \<open>Every operation\<close>

lemma reserve_statics [simp]: "statics (fst (reserve h k n)) = statics h"
  by (simp add: reserve_def Let_def statics_def map_update_any)

lemma set_page_entitlement_statics [simp]: "statics (fst (set_page_entitlement h i n)) = statics h"
  by (simp add: set_page_entitlement_def Let_def statics_put split: option.split)

lemma cancel_statics [simp]: "statics (cancel_unmapped_entitlement h i) = statics h"
  by (simp add: cancel_unmapped_entitlement_def Let_def statics_put split: option.split)

lemma trim_pages_statics [simp]: "statics (fst (trim_pages h i n)) = statics h"
  by (simp add: trim_pages_def Let_def statics_put split: option.split)

lemma unbind_row_statics [simp]: "statics (unbind_row h i) = statics h"
  by (simp add: unbind_row_def Let_def statics_put)

lemma release_statics [simp]: "statics (release_allocation h i) = statics h"
  by (simp add: release_allocation_def Let_def statics_put split: option.split)

lemma publish_mapping_statics [simp]: "statics (fst (publish_mapping h i)) = statics h"
  using publish_range_static
  by (auto simp: publish_mapping_def Let_def intro!: statics_put split: sum.split)

lemma bind_row_statics [simp]: "statics (fst (bind_row h i row)) = statics h"
  using acquire_row_static
  by (auto simp: bind_row_def Let_def intro!: statics_put split: option.split sum.split)

lemma materialize_pages_statics [simp]: "statics (fst (materialize_pages h i pages)) = statics h"
proof (cases "ka_pool (kh_allocs h ! i)")
  case (Some k)
  let ?a = "kh_allocs h ! i" and ?p = "kh_pools h ! k"
  define q where "q = (if ka_page_ids ?a = [] then - 1 else last (ka_page_ids ?a) + 1)"
  show ?thesis
  proof (cases "take_pages ?p (pages - mapped_page_count ?a) q")
    case (Inl e)
    then show ?thesis using Some by (simp add: materialize_pages_def Let_def q_def)
  next
    case (Inr y)
    obtain ids p where y: "y = (ids, p)" by fastforce
    have p: "static_part p = static_part ?p" by (rule take_pages_static [OF Inr [unfolded y]])
    have p': "static_part p' = static_part ?p" if "publish_range p a f n = Inr p'" for p' a f n
      using publish_range_static [OF that] p by simp
    show ?thesis using Some Inr p
      by (auto simp: materialize_pages_def Let_def q_def [symmetric] y dest: p' intro!: statics_put split: sum.split)
  qed
qed (simp add: materialize_pages_def)

lemma move_statics [simp]:
  "statics (move_construct h j) = statics h"
  "statics (move_assign h i j) = statics h"
  by (simp_all add: move_construct_def move_assign_def Let_def)

lemma fold_release_statics: "statics (fold (\<lambda>i h. release_allocation h i) made h) = statics h"
  by (induction made arbitrary: h) simp_all

lemma reserve_loop_statics: "statics (fst (reserve_loop h made rs)) = statics h"
proof (induction rs arbitrary: h made)
  case (Cons r rs)
  obtain h' x where r: "reserve h (the (kr_pool r)) (kr_page_entitlement r) = (h', x)" by fastforce
  then have "statics h' = statics h" using reserve_statics by (metis fst_conv)
  then show ?case using r Cons.IH by (cases x) (simp_all add: fold_release_statics)
qed simp

lemma resize_apply_statics: "statics (fst (resize_apply h cs)) = statics h"
proof (induction cs arbitrary: h)
  case (Cons c cs)
  obtain h1 x where t: "trim_pages h (the (kz_allocation c)) (kz_mapped_pages c) = (h1, x)" by fastforce
  obtain h2 y where e: "set_page_entitlement h1 (the (kz_allocation c)) (kz_page_entitlement c) = (h2, y)"
    by fastforce
  have "statics h1 = statics h" "statics h2 = statics h1"
    using t e trim_pages_statics set_page_entitlement_statics by (metis fst_conv)+
  then show ?case using t e Cons.IH by (cases x; cases y) simp_all
qed simp

lemma bundle_statics [simp]:
  "statics (fst (reserve_paged_kv_bundle h rs)) = statics h"
  "statics (fst (resize_paged_kv_bundle h cs)) = statics h"
  by (simp_all add: reserve_paged_kv_bundle_def resize_paged_kv_bundle_def reserve_loop_statics
      resize_apply_statics split: sum.split)

lemma kv_reachable_statics: "kv_reachable h \<Longrightarrow> \<forall>s \<in> set (statics h). \<exists>p. planned_pool p \<and> s = static_part p"
proof (induction rule: kv_reachable.induct)
  case (start ps)
  then show ?case by (auto simp: statics_def)
qed simp_all

lemma reachable_poolE:
  assumes "kv_reachable h" and "k < length (kh_pools h)"
  obtains p where "planned_pool p" and "kp_spec (kh_pools h ! k) = kp_spec p"
    and "kp_planes (kh_pools h ! k) = kp_planes p" and "kp_block_tables (kh_pools h ! k) = kp_block_tables p"
proof -
  have "static_part (kh_pools h ! k) \<in> set (statics h)" using assms(2) by (simp add: statics_def)
  then obtain p where "planned_pool p" "static_part (kh_pools h ! k) = static_part p"
    using kv_reachable_statics [OF assms(1)] by blast
  then show ?thesis using that by (simp add: static_part_def)
qed

section \<open>Memory of the block tables\<close>

lemma tensor_region_bindE:
  assumes "tensor_region_bind tr backing = Inr t"
  obtains "make_tensor (span_data backing + lr_offset (tr_region tr)) (tr_dtype tr) (tr_shape tr) = Inr t"
    and "span_data backing \<noteq> 0"
    and "unat (lr_offset (tr_region tr)) + unat (lr_bytes (tr_region tr)) \<le> unat (span_bytes backing)"
    and "tensor_bytes (t\<lparr>t_data := 0\<rparr>) = Inr (lr_bytes (tr_region tr))"
proof -
  from assms obtain e n s where e: "make_tensor 0 (tr_dtype tr) (tr_shape tr) = Inr e"
    and n: "tensor_bytes e = Inr n" "n = lr_bytes (tr_region tr)"
    and s: "region_bind (tr_region tr) backing = Inr s"
    and t: "make_tensor (span_data s) (tr_dtype tr) (tr_shape tr) = Inr t"
    by (auto simp: tensor_region_bind_def bind_result_eq_Inr split: if_splits)
  have d: "span_data s = span_data backing + lr_offset (tr_region tr)" "span_data backing \<noteq> 0"
    and le: "\<not> (lr_offset (tr_region tr) > span_bytes backing
      \<or> lr_bytes (tr_region tr) > span_bytes backing - lr_offset (tr_region tr))"
    using s by (auto simp: region_bind_def split: if_splits)
  have "e = t\<lparr>t_data := 0\<rparr>" using e t by (auto simp: make_tensor_def bind_result_eq_Inr)
  then show ?thesis using that t d n le unfolding range_test by auto
qed

lemma nonnull_address:
  assumes "span_data backing \<noteq> 0" and "unat (span_data backing) + unat (span_bytes backing) \<le> 2 ^ 64"
    and "unat off + n \<le> unat (span_bytes backing)" and "0 < n"
  shows "unat (span_data backing + off) = unat (span_data backing) + unat off"
    and "span_data backing + off \<noteq> 0"
proof -
  have "unat (span_data backing) + unat off < 2 ^ 64" using assms(2-4) by linarith
  then show u: "unat (span_data backing + off) = unat (span_data backing) + unat off"
    by (intro unat_add_no_overflow) simp
  have "0 < unat (span_data backing)" using assms(1) by (simp add: unat_gt_0)
  then show "span_data backing + off \<noteq> 0" using u by (metis add_is_0 less_numeral_extra(3) unat_0)
qed

text \<open>A bound tensor: its bytes are the planned region of the backing span.\<close>

lemma bound_tensor_memory:
  assumes "tensor_region_bind tr backing = Inr t"
    and "unat (span_data backing) + unat (span_bytes backing) \<le> 2 ^ 64"
  shows "t_data t \<noteq> 0"
    and "unat (t_data t) = unat (span_data backing) + unat (lr_offset (tr_region tr))"
    and "int (unat (lr_bytes (tr_region tr))) = prod_list (t_ne t) * uint (dtype_size (t_dtype t))"
    and "unat (t_data t) + unat (lr_bytes (tr_region tr)) \<le> unat (span_data backing) + unat (span_bytes backing)"
proof -
  from assms(1) have mk: "make_tensor (span_data backing + lr_offset (tr_region tr)) (tr_dtype tr) (tr_shape tr) = Inr t"
    and nz: "span_data backing \<noteq> 0"
    and le: "unat (lr_offset (tr_region tr)) + unat (lr_bytes (tr_region tr)) \<le> unat (span_bytes backing)"
    and bytes: "tensor_bytes (t\<lparr>t_data := 0\<rparr>) = Inr (lr_bytes (tr_region tr))"
    by (auto elim: tensor_region_bindE)
  from mk have d: "t_data t = span_data backing + lr_offset (tr_region tr)" and "t_ne t \<noteq> []"
    by (auto elim!: make_tensorE simp: tensor_rank4_def)
  then have n: "uint (lr_bytes (tr_region tr)) = prod_list (t_ne t) * uint (dtype_size (t_dtype t))
      \<and> (\<forall>x\<in>set (t_ne t). 0 < x)" using tensor_bytes_eq_Inr [OF bytes] by simp
  have "0 < prod_list xs" if "\<forall>x\<in>set xs. 0 < x" for xs :: "int list" using that by (induction xs) simp_all
  moreover have "0 < uint (dtype_size (t_dtype t))" by (cases "t_dtype t") simp_all
  ultimately have "0 < uint (lr_bytes (tr_region tr))" using n by simp
  then have "lr_bytes (tr_region tr) \<noteq> 0" by auto
  then have pos: "0 < unat (lr_bytes (tr_region tr))" by (simp add: unat_gt_0)
  note a = nonnull_address [OF nz assms(2) le pos]
  show "t_data t \<noteq> 0" and u: "unat (t_data t) = unat (span_data backing) + unat (lr_offset (tr_region tr))"
    using a by (simp_all add: d)
  show "int (unat (lr_bytes (tr_region tr))) = prod_list (t_ne t) * uint (dtype_size (t_dtype t))"
    using n by simp
  show "unat (t_data t) + unat (lr_bytes (tr_region tr)) \<le> unat (span_data backing) + unat (span_bytes backing)"
    using u le by simp
qed

lemma reachable_tables_nonnull:
  assumes "kv_reachable h" and "k < length (kh_pools h)"
  shows "t_data (kp_block_tables (kh_pools h ! k)) \<noteq> 0"
proof (rule reachable_poolE [OF assms])
  fix p assume pl: "planned_pool p" and eq: "kp_block_tables (kh_pools h ! k) = kp_block_tables p"
  then obtain lay backing where b: "unat (span_data backing) + unat (span_bytes backing) \<le> 2 ^ 64"
    and mk: "make_pool backing lay = Inr p" unfolding planned_pool_def by blast
  obtain t where "tensor_region_bind (lay_block_tables lay) backing = Inr t" "kp_block_tables p = t"
    using make_poolD [OF mk] by blast
  then show ?thesis using bound_tensor_memory(1) [OF _ b] eq by simp
qed

end
