(* ===== verification/Paged_KV_Image.thy ===== *)
theory Paged_KV_Image
  imports Paged_KV_Transfer Paged_KV_Static
begin

text \<open>
  What the transfers of the paged KV cache move. The byte of a page in a plane, and the image of
  a list of pages, are specified without any coalescing; the commands of the code copy exactly
  those bytes. The effect of a copy is the driver's: a parameter \<open>copy\<close> with the documented law.
\<close>

section \<open>Specification\<close>

definition page_bytes :: "plane_order \<Rightarrow> tensor \<Rightarrow> nat" where
  "page_bytes order t = (if order = PageMajor then nat (nb t 3) else nat (ne t 3) * nat (nb t 2))"

text \<open>A page of a head-major plane is one row of bytes per head, a plane stride apart.\<close>

definition plane_offset :: "plane_order \<Rightarrow> tensor \<Rightarrow> nat \<Rightarrow> nat \<Rightarrow> nat" where
  "plane_offset order t page x =
     (if order = PageMajor then page * nat (nb t 3) + x
      else page * nat (nb t 2) + x div nat (nb t 2) * nat (nb t 3) + x mod nat (nb t 2))"

definition plane_byte :: "plane_order \<Rightarrow> tensor \<Rightarrow> int \<Rightarrow> nat \<Rightarrow> u64" where
  "plane_byte order t page x = t_data t + of_nat (plane_offset order t (nat page) x)"

definition page_image :: "plane_order \<Rightarrow> tensor \<Rightarrow> nat \<Rightarrow> int \<Rightarrow> (nat \<times> u64) list" where
  "page_image order t off page =
     map (\<lambda>x. (off + x, plane_byte order t page x)) [0..<page_bytes order t]"

text \<open>The image of \<open>ids\<close> in a buffer laid out for \<open>n\<close> pages: plane after plane, page after page.\<close>

fun image_map :: "plane_order \<Rightarrow> nat \<Rightarrow> nat \<Rightarrow> int list \<Rightarrow> tensor list \<Rightarrow> (nat \<times> u64) list" where
  "image_map order n off ids [] = []"
| "image_map order n off ids (t # ts) =
     concat (map (\<lambda>i. page_image order t (off + i * page_bytes order t) (ids ! i)) [0..<length ids])
     @ image_map order n (off + n * page_bytes order t) ids ts"

definition image_size :: "plane_order \<Rightarrow> nat \<Rightarrow> tensor list \<Rightarrow> nat" where
  "image_size order n planes = n * sum_list (map (page_bytes order) planes)"

text \<open>The geometry of a plane of \<open>pages\<close> pages that lies in memory without wrapping around.\<close>

definition plane_wf :: "plane_order \<Rightarrow> nat \<Rightarrow> tensor \<Rightarrow> bool" where
  "plane_wf order pages t \<longleftrightarrow>
     (if order = PageMajor then 0 < nb t 3
      else 0 < nb t 2 \<and> 0 < ne t 3 \<and> nb t 3 = int pages * nb t 2) \<and>
     0 < pages \<and> pages * page_bytes order t < 2 ^ 64 \<and> unat (t_data t) + pages * page_bytes order t \<le> 2 ^ 64"

fun planes_apart :: "plane_order \<Rightarrow> nat \<Rightarrow> nat \<Rightarrow> tensor list \<Rightarrow> bool" where
  "planes_apart order pages lo [] = True"
| "planes_apart order pages lo (t # ts) \<longleftrightarrow>
     lo \<le> unat (t_data t) \<and> planes_apart order pages (unat (t_data t) + pages * page_bytes order t) ts"

definition swap_cmd :: "copy_cmd \<Rightarrow> copy_cmd" where
  "swap_cmd c =
     \<lparr>cc_dst = cc_src c, cc_dst_pitch = cc_src_pitch c, cc_src = cc_dst c,
      cc_src_pitch = cc_dst_pitch c, cc_width = cc_width c, cc_height = cc_height c\<rparr>"

abbreviation bytes_of :: "copy_cmd list \<Rightarrow> (u64 \<times> u64) list" where
  "bytes_of cs \<equiv> concat (map cmd_bytes cs)"

text \<open>A copy between disjoint byte sets gives every destination byte its source byte.\<close>

type_synonym memory = "u64 \<Rightarrow> 8 word"

definition byte_copy_law :: "(copy_cmd \<Rightarrow> memory \<Rightarrow> memory) \<Rightarrow> bool" where
  "byte_copy_law copy \<longleftrightarrow>
     (\<forall>c m. distinct (map fst (cmd_bytes c)) \<and> fst ` set (cmd_bytes c) \<inter> snd ` set (cmd_bytes c) = {} \<longrightarrow>
        copy c m = (\<lambda>x. case map_of (cmd_bytes c) x of None \<Rightarrow> m x | Some s \<Rightarrow> m s))"

abbreviation at_image :: "u64 \<Rightarrow> (nat \<times> u64) list \<Rightarrow> (u64 \<times> u64) list" where
  "at_image out ps \<equiv> map (\<lambda>(off, s). (out + of_nat off, s)) ps"

definition major_block :: "u64 \<Rightarrow> u64 \<Rightarrow> nat \<Rightarrow> int list \<Rightarrow> nat \<Rightarrow> (u64 \<times> u64) list" where
  "major_block out base B pages i =
     map (\<lambda>x. (out + of_nat (i * B + x), base + of_nat (nat (pages ! i) * B + x))) [0..<B]"

definition plane_image :: "plane_order \<Rightarrow> tensor \<Rightarrow> nat \<Rightarrow> int list \<Rightarrow> (nat \<times> u64) list" where
  "plane_image order t off ids =
     concat (map (\<lambda>i. page_image order t (off + i * page_bytes order t) (ids ! i)) [0..<length ids])"

fun regions_from :: "nat \<Rightarrow> plane_layout list \<Rightarrow> bool" where
  "regions_from lo [] = True"
| "regions_from lo (pl # pls) \<longleftrightarrow>
     lo \<le> unat (lr_offset (tr_region (pl_storage pl))) \<and>
     regions_from (unat (lr_offset (tr_region (pl_storage pl))) + unat (lr_bytes (tr_region (pl_storage pl)))) pls"

section \<open>Commands as byte lists\<close>

lemma map_upt_shift: "map f [a..<a + n] = map (\<lambda>j. f (a + j)) [0..<n]"
  by (rule nth_equalityI) simp_all

lemma concat_blocks:
  "concat (map (\<lambda>r. map (\<lambda>j. f (r * b + j)) [0..<b]) [0..<n]) = map f [0..<n * b]"
proof (induction n)
  case (Suc n)
  have "Suc n * b = n * b + b" by simp
  then have "map f [0..<Suc n * b] = map f [0..<n * b] @ map f [n * b..<n * b + b]"
    using upt_add_eq_append [of 0 "n * b" b] by (simp only: map_append le0)
  also have "map f [n * b..<n * b + b] = map (\<lambda>j. f (n * b + j)) [0..<b]" by (rule map_upt_shift)
  finally show ?case using Suc by simp
qed simp

lemma cmd_bytes_1d:
  "cmd_bytes (memcpy_1d d s n) = map (\<lambda>j. (d + of_nat j, s + of_nat j)) [0..<unat n]"
  by (simp add: cmd_bytes_def memcpy_1d_def memcpy_2d_def)

lemma cmd_bytes_swap: "cmd_bytes (swap_cmd c) = map prod.swap (cmd_bytes c)"
  by (simp add: cmd_bytes_def swap_cmd_def map_concat o_def)

lemma bytes_of_swap: "bytes_of (map swap_cmd cs) = map prod.swap (bytes_of cs)"
  by (induction cs) (simp_all add: cmd_bytes_swap)

lemma swap_cmd_simps [simp]:
  "swap_cmd (memcpy_1d d s n) = memcpy_1d s d n"
  "swap_cmd (memcpy_2d d dp s sp w h) = memcpy_2d s sp d dp w h"
  by (simp_all add: swap_cmd_def memcpy_1d_def memcpy_2d_def)

section \<open>Runs\<close>

lemma stride_end_run:
  "e < limit \<Longrightarrow> stride_end pages limit delta e < limit \<and>
     (\<forall>x. e \<le> x \<and> x \<le> stride_end pages limit delta e \<longrightarrow> pages ! x = pages ! e + int (x - e) * delta)"
proof (induction pages limit delta e rule: stride_end.induct)
  case (1 pages limit delta e)
  show ?case
  proof (cases "e + 1 < limit \<and> pages ! (e + 1) - pages ! e = delta")
    case True
    then have eq: "stride_end pages limit delta e = stride_end pages limit delta (Suc e)"
      by (subst stride_end.simps) simp
    have "Suc e < limit" using True by simp
    note IH = 1(1) [OF True this]
    have "pages ! x = pages ! e + int (x - e) * delta"
      if "e \<le> x" "x \<le> stride_end pages limit delta (Suc e)" for x
    proof (cases "x = e")
      case False
      then have "Suc e \<le> x" using that(1) by simp
      then have "pages ! x = pages ! Suc e + int (x - Suc e) * delta" using IH that(2) by blast
      moreover have "pages ! Suc e = pages ! e + delta" using True by simp
      moreover have "int (x - e) = int (x - Suc e) + 1" using False that(1) by simp
      ultimately show ?thesis by (simp add: algebra_simps)
    qed simp
    then show ?thesis unfolding eq using IH by blast
  next
    case False
    then have "stride_end pages limit delta e = e" by (subst stride_end.simps) auto
    then show ?thesis using 1(2) by (auto dest!: le_antisym)
  qed
qed

lemma stride_end_take:
  "n \<le> length pages \<Longrightarrow> stride_end (take n pages) (length (take n pages)) delta e = stride_end pages n delta e"
proof (induction pages n delta e rule: stride_end.induct)
  case (1 pages n delta e)
  show ?case
  proof (cases "e + 1 < n \<and> pages ! (e + 1) - pages ! e = delta")
    case True
    from 1(1) [OF True 1(2)] True 1(2) show ?thesis
      unfolding stride_end.simps [of pages n delta e] stride_end.simps [of "take n pages" "length (take n pages)" delta e]
      by simp
  next
    case False
    then show ?thesis using 1(2)
      unfolding stride_end.simps [of pages n delta e] stride_end.simps [of "take n pages" "length (take n pages)" delta e]
      by auto
  qed
qed

lemma unpack_is_pack:
  "n \<le> length pages \<Longrightarrow>
     unpack_page_major_pages base s bpp src pages n b
     = map swap_cmd (pack_page_major_pages src base s bpp (take n pages) b)"
proof (induction base s bpp src pages n b rule: unpack_page_major_pages.induct)
  case (1 base s bpp src pages n b)
  have l: "length (take n pages) = n" using 1(3) by simp
  have se: "stride_end (take n pages) n d e = stride_end pages n d e" for d e
    using stride_end_take [OF 1(3), of d e] unfolding l .
  let ?delta = "pages ! (b + 1) - pages ! b"
  note u = unpack_page_major_pages.simps [of base s bpp src pages n b]
  note p = pack_page_major_pages.simps [of src base s bpp "take n pages" b]
  consider "\<not> b < n" | "b < n" "n \<le> b + 1" | "b + 1 < n" "?delta \<le> 0" | "b + 1 < n" "0 < ?delta"
    by linarith
  then show ?case
  proof cases
    case 3
    have "unpack_page_major_pages base s bpp src pages n (Suc b)
        = map swap_cmd (pack_page_major_pages src base s bpp (take n pages) (Suc b))"
      using 1(1) 1(3) 3 by simp
    then show ?thesis using 3 unfolding u p l by simp
  next
    case 4
    have "unpack_page_major_pages base s bpp src pages n (Suc (stride_end pages n ?delta (b + 1)))
        = map swap_cmd (pack_page_major_pages src base s bpp (take n pages) (Suc (stride_end pages n ?delta (b + 1))))"
      using 1(2) 1(3) 4 by simp
    then show ?thesis using 4 unfolding u p l by (simp add: Let_def se)
  qed (use 1(3) in \<open>simp_all add: u p l\<close>)
qed

section \<open>Packing a page-major plane\<close>

lemma page_at_nat: "0 \<le> page \<Longrightarrow> page_at base page (int B) = base + of_nat (nat page * B)"
  by (simp add: page_at_def)

lemma major_block_1d:
  assumes "0 \<le> pages ! b" and "n * B < 2 ^ 64" and run: "\<forall>r < n. pages ! (b + r) = pages ! b + int r"
  shows "cmd_bytes (memcpy_1d (out + of_nat b * of_nat B) (page_at base (pages ! b) (int B)) (of_nat n * of_nat B))
    = concat (map (major_block out base B pages) [b..<b + n])"
proof -
  let ?f = "\<lambda>x. (out + of_nat (b * B + x), base + of_nat (nat (pages ! b) * B + x)) :: u64 \<times> u64"
  have "(of_nat n * of_nat B :: u64) = of_nat (n * B)" by simp
  moreover have "unat (of_nat (n * B) :: u64) = n * B"
    unfolding unat_of_nat using assms(2) by (simp add: take_bit_nat_eq_self)
  ultimately have w: "unat (of_nat n * of_nat B :: u64) = n * B" by simp
  have "cmd_bytes (memcpy_1d (out + of_nat b * of_nat B) (page_at base (pages ! b) (int B)) (of_nat n * of_nat B))
      = map ?f [0..<n * B]"
    unfolding cmd_bytes_1d w page_at_nat [OF assms(1)] by (simp add: add.assoc)
  also have "\<dots> = concat (map (\<lambda>r. map (\<lambda>j. ?f (r * B + j)) [0..<B]) [0..<n])"
    by (rule concat_blocks [symmetric])
  also have "map (\<lambda>r. map (\<lambda>j. ?f (r * B + j)) [0..<B]) [0..<n] = map (\<lambda>r. major_block out base B pages (b + r)) [0..<n]"
  proof (rule map_cong [OF refl])
    fix r assume "r \<in> set [0..<n]"
    then have "nat (pages ! (b + r)) = nat (pages ! b) + r" using run assms(1) by simp
    then show "map (\<lambda>j. ?f (r * B + j)) [0..<B] = major_block out base B pages (b + r)"
      unfolding major_block_def by (simp add: algebra_simps)
  qed
  also have "\<dots> = map (major_block out base B pages) [b..<b + n]" by (rule map_upt_shift [symmetric])
  finally show ?thesis .
qed

lemma major_block_2d:
  assumes "0 \<le> pages ! b" and "n < 2 ^ 64" and "B < 2 ^ 64" and "0 < delta"
    and run: "\<forall>r < n. pages ! (b + r) = pages ! b + int r * delta"
  shows "cmd_bytes (memcpy_2d (out + of_nat b * of_nat B) (of_nat B) (page_at base (pages ! b) (int B))
      (word_of_int delta * of_nat B) (of_nat B) (of_nat n))
    = concat (map (major_block out base B pages) [b..<b + n])"
proof -
  have u: "unat (of_nat n :: u64) = n" "unat (of_nat B :: u64) = B"
    unfolding unat_of_nat using assms(2,3) by (simp_all add: take_bit_nat_eq_self)
  have "map (\<lambda>r. map (\<lambda>j. (out + of_nat b * of_nat B + of_nat r * of_nat B + of_nat j,
        page_at base (pages ! b) (int B) + of_nat r * (word_of_int delta * of_nat B) + of_nat j)) [0..<B]) [0..<n]
      = map (\<lambda>r. major_block out base B pages (b + r)) [0..<n]"
  proof (rule map_cong [OF refl])
    fix r assume "r \<in> set [0..<n]"
    then have "nat (pages ! (b + r)) = nat (pages ! b) + r * nat delta"
      using run assms(1,4) by (simp add: nat_add_distrib nat_mult_distrib)
    moreover have "(word_of_int delta :: u64) = of_nat (nat delta)" using assms(4) by simp
    ultimately show "map (\<lambda>j. (out + of_nat b * of_nat B + of_nat r * of_nat B + of_nat j,
        page_at base (pages ! b) (int B) + of_nat r * (word_of_int delta * of_nat B) + of_nat j)) [0..<B]
      = major_block out base B pages (b + r)"
      unfolding major_block_def page_at_nat [OF assms(1)] by (simp add: algebra_simps)
  qed
  then show ?thesis
    by (simp add: cmd_bytes_def memcpy_2d_def u map_upt_shift [symmetric])
qed

lemma pack_page_major_bytes:
  assumes "0 < B" and "length pages * B < 2 ^ 64" and "\<forall>p \<in> set pages. 0 \<le> p"
  shows "bytes_of (pack_page_major_pages out base (int B) (of_nat B) pages b)
    = concat (map (major_block out base B pages) [b..<length pages])"
proof (induction "length pages - b" arbitrary: b rule: less_induct)
  case less
  let ?pack = "pack_page_major_pages out base (int B) (of_nat B) pages"
  let ?delta = "pages ! (b + 1) - pages ! b"
  note p = pack_page_major_pages.simps [of out base "int B" "of_nat B" pages b]
  have one: "cmd_bytes (memcpy_1d (out + of_nat b * of_nat B) (page_at base (pages ! b) (int B)) (of_nat B))
      = major_block out base B pages b" if "b < length pages"
  proof -
    have "1 * B \<le> length pages * B" using that by (intro mult_right_mono) simp_all
    then have "1 * B < 2 ^ 64" using assms(2) by linarith
    then show ?thesis using major_block_1d [of pages b 1 B out base] assms(3) that by simp
  qed
  consider "\<not> b < length pages" | "b < length pages" "length pages \<le> b + 1"
    | "b + 1 < length pages" "?delta \<le> 0" | "b + 1 < length pages" "0 < ?delta" by linarith
  then show ?case
  proof cases
    case 1
    then show ?thesis by (simp add: p)
  next
    case 2
    then have "[b..<length pages] = [b]" by (simp add: upt_rec)
    then show ?thesis using 2 one by (simp add: p)
  next
    case 3
    then have "[b..<length pages] = b # [Suc b..<length pages]" by (simp add: upt_rec)
    moreover have "bytes_of (?pack (Suc b)) = concat (map (major_block out base B pages) [Suc b..<length pages])"
      using 3 by (intro less) simp
    ultimately show ?thesis using 3 one by (simp add: p)
  next
    case 4
    define e where "e = stride_end pages (length pages) ?delta (b + 1)"
    define n where "n = e - b + 1"
    note se = stride_end_run [OF 4(1), of pages ?delta, folded e_def]
    have e: "b < e" "e < length pages" unfolding e_def by (rule stride_end_gt) (rule se [unfolded e_def, THEN conjunct1])
    note run = se [THEN conjunct2]
    have run': "\<forall>r < n. pages ! (b + r) = pages ! b + int r * ?delta"
    proof (intro allI impI)
      fix r assume r: "r < n"
      show "pages ! (b + r) = pages ! b + int r * ?delta"
      proof (cases r)
        case (Suc r')
        then have "b + 1 \<le> b + r" "b + r \<le> e" using r e(1) by (simp_all add: n_def)
        then have "pages ! (b + r) = pages ! (b + 1) + int (b + r - (b + 1)) * ?delta" using run by blast
        then have "pages ! (b + r) = pages ! (b + 1) + int r' * ?delta" using Suc by simp
        then show ?thesis using Suc by (simp add: algebra_simps)
      qed simp
    qed
    have n: "n \<le> length pages" "b + n = Suc e" using e by (simp_all add: n_def)
    have nB: "n * B < 2 ^ 64"
    proof -
      have "n * B \<le> length pages * B" using n(1) by (intro mult_right_mono) simp_all
      then show ?thesis using assms(2) by linarith
    qed
    have small: "n < 2 ^ 64" "B < 2 ^ 64"
    proof -
      have "n * 1 \<le> n * B" using assms(1) by (intro mult_left_mono) simp_all
      then show "n < 2 ^ 64" using nB by linarith
      have "1 * B \<le> n * B" by (intro mult_right_mono) (simp_all add: n_def)
      then show "B < 2 ^ 64" using nB by linarith
    qed
    have pos: "0 \<le> pages ! b" using assms(3) 4(1) by simp
    let ?cmd = "if ?delta = 1
        then memcpy_1d (out + of_nat b * of_nat B) (page_at base (pages ! b) (int B)) (of_nat n * of_nat B)
        else memcpy_2d (out + of_nat b * of_nat B) (of_nat B) (page_at base (pages ! b) (int B))
               (word_of_int ?delta * word_of_int (int B)) (of_nat B) (of_nat n)"
    have cmd: "cmd_bytes ?cmd = concat (map (major_block out base B pages) [b..<Suc e])"
    proof (cases "?delta = 1")
      case True
      have "\<forall>r < n. pages ! (b + r) = pages ! b + int r" using run' unfolding True by simp
      from major_block_1d [OF pos nB this, of out base] show ?thesis unfolding if_P [OF True] n(2) .
    next
      case False
      from major_block_2d [OF pos small 4(2) run', of out base]
      show ?thesis unfolding if_not_P [OF False] n(2) by (simp only: of_int_of_nat_eq)
    qed
    have step: "?pack b = ?cmd # ?pack (Suc e)"
      using 4 unfolding p by (simp add: Let_def e_def n_def)
    have "bytes_of (?pack (Suc e)) = concat (map (major_block out base B pages) [Suc e..<length pages])"
      using e 4(1) by (intro less) simp
    moreover have "[b..<length pages] = [b..<Suc e] @ [Suc e..<length pages]"
      using e by (intro upt_split) simp_all
    ultimately show ?thesis unfolding step by (simp only: list.map concat.simps concat_append map_append cmd)
  qed
qed

section \<open>Packing a plane\<close>

lemma word_of_pos: "0 \<le> z \<Longrightarrow> (word_of_int z :: u64) = of_nat (nat z)"
  by simp

lemma plane_page_bytes_wf:
  assumes "plane_wf order pages t"
  shows "plane_page_bytes t order = Inr (of_nat (page_bytes order t))" and "0 < page_bytes order t"
  using assms by (auto simp: plane_wf_def plane_page_bytes_def page_bytes_def split: if_splits)

lemma plane_pages_small:
  assumes "plane_wf order P t" and "n \<le> P"
  shows "n * page_bytes order t < 2 ^ 64"
proof -
  have "n * page_bytes order t \<le> P * page_bytes order t" using assms(2) by (intro mult_right_mono) simp_all
  then show ?thesis by (rule le_less_trans) (use assms(1) in \<open>simp add: plane_wf_def\<close>)
qed

lemma page_bytes_small: "plane_wf order P t \<Longrightarrow> page_bytes order t < 2 ^ 64"
  using plane_pages_small [of order P t 1] by (simp add: plane_wf_def Suc_leI)

lemma page_major_image:
  assumes "0 < nb t 3"
  shows "major_block out (t_data t) (nat (nb t 3)) pages i
    = at_image out (page_image PageMajor t (i * page_bytes PageMajor t) (pages ! i))"
  by (simp add: major_block_def page_image_def plane_byte_def plane_offset_def page_bytes_def)

lemma head_major_image:
  assumes wf: "plane_wf HeadMajor P t" and page: "0 \<le> page" and small: "page_bytes HeadMajor t < 2 ^ 64"
  shows "cmd_bytes (memcpy_2d (out + of_nat off) (word_of_int (nb t 2)) (page_at (t_data t) page (nb t 2))
      (word_of_int (nb t 3)) (word_of_int (nb t 2)) (word_of_int (ne t 3)))
    = at_image out (page_image HeadMajor t off page)"
proof -
  let ?w = "nat (nb t 2)" and ?h = "nat (ne t 3)" and ?s = "nat (nb t 3)"
  have pos: "0 < nb t 2" "0 < ne t 3" "0 \<le> nb t 3" using wf by (auto simp: plane_wf_def)
  have B: "page_bytes HeadMajor t = ?h * ?w" by (simp add: page_bytes_def)
  have "?h * 1 \<le> ?h * ?w" "1 * ?w \<le> ?h * ?w" using pos by (intro mult_left_mono mult_right_mono; simp)+
  then have hw: "?h < 2 ^ 64" "?w < 2 ^ 64" using small unfolding B by linarith+
  have u: "unat (word_of_int (ne t 3) :: u64) = ?h" "unat (word_of_int (nb t 2) :: u64) = ?w"
    unfolding word_of_pos [OF less_imp_le [OF pos(1)]] word_of_pos [OF less_imp_le [OF pos(2)]] unat_of_nat
    using hw by (simp_all add: take_bit_nat_eq_self)
  let ?f = "\<lambda>x. (out + of_nat (off + x),
      t_data t + of_nat (nat page * ?w + x div ?w * ?s + x mod ?w)) :: u64 \<times> u64"
  have pw: "page_at (t_data t) page (nb t 2) = t_data t + of_nat (nat page * ?w)"
    using page_at_nat [OF page, of "t_data t" ?w] pos(1) by simp
  have "cmd_bytes (memcpy_2d (out + of_nat off) (word_of_int (nb t 2)) (page_at (t_data t) page (nb t 2))
      (word_of_int (nb t 3)) (word_of_int (nb t 2)) (word_of_int (ne t 3)))
    = concat (map (\<lambda>r. map (\<lambda>j. (out + of_nat off + of_nat r * of_nat ?w + of_nat j,
        t_data t + of_nat (nat page * ?w) + of_nat r * of_nat ?s + of_nat j)) [0..<?w]) [0..<?h])"
    unfolding cmd_bytes_def memcpy_2d_def
    by (simp only: copy_cmd.select_convs u u(2) [unfolded word_of_pos [OF less_imp_le [OF pos(1)]]] pw
        word_of_pos [OF less_imp_le [OF pos(1)]] word_of_pos [OF pos(3)])
  also have "\<dots> = concat (map (\<lambda>r. map (\<lambda>j. ?f (r * ?w + j)) [0..<?w]) [0..<?h])"
  proof (intro arg_cong [of _ _ concat] map_cong [OF refl])
    fix r j assume "j \<in> set [0..<?w]"
    then have "(r * ?w + j) div ?w = r" "(r * ?w + j) mod ?w = j" by simp_all
    then show "(out + of_nat off + of_nat r * of_nat ?w + of_nat j,
        t_data t + of_nat (nat page * ?w) + of_nat r * of_nat ?s + of_nat j) = ?f (r * ?w + j)"
      by (simp add: algebra_simps)
  qed
  also have "\<dots> = map ?f [0..<?h * ?w]" by (rule concat_blocks)
  also have "\<dots> = at_image out (page_image HeadMajor t off page)"
    by (simp add: page_image_def B plane_byte_def plane_offset_def)
  finally show ?thesis .
qed

lemma image_map_Cons:
  "image_map order n off ids (t # ts)
     = plane_image order t off ids @ image_map order n (off + n * page_bytes order t) ids ts"
  by (simp add: plane_image_def)

lemma image_map_shift:
  "image_map order n (a + off) ids ts = map (\<lambda>(x, s). (a + x, s)) (image_map order n off ids ts)"
proof (induction ts arbitrary: off)
  case (Cons t ts)
  then show ?case
    by (simp add: page_image_def map_concat o_def add.assoc split_def)
qed simp

lemma at_image_shift: "at_image (out + of_nat a) ps = at_image out (map (\<lambda>(x, s). (a + x, s)) ps)"
  by (simp add: split_def add.assoc)

lemma pack_plane_bytes:
  assumes wf: "plane_wf order P t" and ids: "\<forall>p \<in> set pages. 0 \<le> p"
    and small: "length pages * page_bytes order t < 2 ^ 64"
  shows "bytes_of (if order = PageMajor
      then pack_page_major_pages out (t_data t) (nb t 3) (of_nat (page_bytes order t)) pages 0
      else map (\<lambda>i. memcpy_2d (out + of_nat i * of_nat (page_bytes order t)) (word_of_int (nb t 2))
                      (page_at (t_data t) (pages ! i) (nb t 2)) (word_of_int (nb t 3))
                      (word_of_int (nb t 2)) (word_of_int (ne t 3))) [0..<length pages])
    = at_image out (plane_image order t 0 pages)"
proof (cases "order = PageMajor")
  case True
  then have pos: "0 < nb t 3" using wf by (simp add: plane_wf_def)
  have B: "page_bytes order t = nat (nb t 3)" using True by (simp add: page_bytes_def)
  have "bytes_of (pack_page_major_pages out (t_data t) (int (nat (nb t 3))) (of_nat (nat (nb t 3))) pages 0)
      = concat (map (major_block out (t_data t) (nat (nb t 3)) pages) [0..<length pages])"
    using pos small ids unfolding B by (intro pack_page_major_bytes) simp_all
  also have "map (major_block out (t_data t) (nat (nb t 3)) pages) [0..<length pages]
      = map (\<lambda>i. at_image out (page_image PageMajor t (i * page_bytes PageMajor t) (pages ! i))) [0..<length pages]"
    by (rule map_cong [OF refl page_major_image [OF pos]])
  finally show ?thesis using True pos by (simp add: plane_image_def map_concat o_def page_bytes_def)
next
  case False
  then have o: "order = HeadMajor" by (cases order) simp_all
  show ?thesis
  proof (cases "pages = []")
    case ne: False
    have "1 * page_bytes order t \<le> length pages * page_bytes order t"
      using ne by (intro mult_right_mono) (simp_all add: Suc_leI)
    then have s: "page_bytes HeadMajor t < 2 ^ 64" using small unfolding o by linarith
    have blk: "cmd_bytes (memcpy_2d (out + of_nat i * of_nat (page_bytes HeadMajor t)) (word_of_int (nb t 2))
        (page_at (t_data t) (pages ! i) (nb t 2)) (word_of_int (nb t 3)) (word_of_int (nb t 2)) (word_of_int (ne t 3)))
      = at_image out (page_image HeadMajor t (i * page_bytes HeadMajor t) (pages ! i))"
      if "i < length pages" for i
      using head_major_image [OF wf [unfolded o] _ s, of "pages ! i" out "i * page_bytes HeadMajor t"] ids that by simp
    have "map (\<lambda>i. cmd_bytes (memcpy_2d (out + of_nat i * of_nat (page_bytes HeadMajor t)) (word_of_int (nb t 2))
        (page_at (t_data t) (pages ! i) (nb t 2)) (word_of_int (nb t 3)) (word_of_int (nb t 2)) (word_of_int (ne t 3))))
        [0..<length pages]
      = map (\<lambda>i. at_image out (page_image HeadMajor t (i * page_bytes HeadMajor t) (pages ! i))) [0..<length pages]"
      using blk by (intro map_cong [OF refl]) simp
    from arg_cong [OF this, of concat] show ?thesis by (simp add: o plane_image_def map_concat o_def)
  qed (simp add: o plane_image_def)
qed

lemma pack_planes_bytes:
  assumes "\<forall>t \<in> set planes. plane_wf order P t" and ids: "\<forall>p \<in> set pages. 0 \<le> p"
    and "image_size order (length pages) planes < 2 ^ 64"
  shows "\<exists>cs. pack_planes order pages out planes = (cs, Inr ()) \<and>
    bytes_of cs = at_image out (image_map order (length pages) 0 pages planes)"
  using assms(1,3)
proof (induction planes arbitrary: out)
  case (Cons t ts)
  let ?B = "page_bytes order t" and ?n = "length pages"
  have wf: "plane_wf order P t" using Cons.prems(1) by simp
  have size: "?n * ?B + image_size order ?n ts < 2 ^ 64"
    using Cons.prems(2) by (simp add: image_size_def algebra_simps)
  then have small: "?n * ?B < 2 ^ 64" and rest: "image_size order ?n ts < 2 ^ 64" by linarith+
  obtain cs where cs: "pack_planes order pages (out + of_nat (?n * ?B)) ts = (cs, Inr ())"
    "bytes_of cs = at_image (out + of_nat (?n * ?B)) (image_map order ?n 0 pages ts)"
    using Cons.IH [of "out + of_nat (?n * ?B)"] Cons.prems(1) rest by auto
  define c1 where "c1 = (if order = PageMajor
      then pack_page_major_pages out (t_data t) (nb t 3) (of_nat ?B) pages 0
      else map (\<lambda>i. memcpy_2d (out + of_nat i * of_nat ?B) (word_of_int (nb t 2))
                      (page_at (t_data t) (pages ! i) (nb t 2)) (word_of_int (nb t 3))
                      (word_of_int (nb t 2)) (word_of_int (ne t 3))) [0..<?n])"
  have c1: "bytes_of c1 = at_image out (plane_image order t 0 pages)"
    unfolding c1_def by (rule pack_plane_bytes [OF wf ids small])
  have "pack_planes order pages out (t # ts) = (c1 @ cs, Inr ())"
    using cs(1) by (simp add: plane_page_bytes_wf [OF wf] Let_def c1_def)
  moreover have "image_map order ?n (?n * ?B) pages ts = map (\<lambda>(x, s). (?n * ?B + x, s)) (image_map order ?n 0 pages ts)"
    using image_map_shift [of order ?n "?n * ?B" 0 pages ts] by simp
  then have "bytes_of (c1 @ cs) = at_image out (image_map order ?n 0 pages (t # ts))"
    unfolding image_map_Cons map_append concat_append c1 cs(2) at_image_shift by simp
  ultimately show ?case by blast
qed simp

section \<open>The geometry of planes and images\<close>

lemma plane_offset_bound:
  assumes "plane_wf order P t" and "page < P" and "x < page_bytes order t"
  shows "plane_offset order t page x < P * page_bytes order t"
proof (cases "order = PageMajor")
  case True
  let ?B = "nat (nb t 3)"
  have "page * ?B + x < Suc page * ?B" using assms(3) True by (simp add: page_bytes_def)
  also have "\<dots> \<le> P * ?B" using assms(2) by (intro mult_right_mono) simp_all
  finally show ?thesis using True by (simp add: plane_offset_def page_bytes_def)
next
  case False
  let ?w = "nat (nb t 2)" and ?h = "nat (ne t 3)"
  have pos: "0 < nb t 2" and s: "nat (nb t 3) = P * ?w"
    using assms(1) False by (auto simp: plane_wf_def nat_mult_distrib)
  have x: "x < ?h * ?w" using assms(3) False by (simp add: page_bytes_def)
  have q: "x div ?w < ?h" using x by (simp add: less_mult_imp_div_less)
  have "page * ?w + x mod ?w < Suc page * ?w" using pos by simp
  also have "\<dots> \<le> P * ?w" using assms(2) by (intro mult_right_mono) simp_all
  finally have "page * ?w + x div ?w * (P * ?w) + x mod ?w < Suc (x div ?w) * (P * ?w)" by simp
  also have "\<dots> \<le> ?h * (P * ?w)" using q by (intro mult_right_mono) simp_all
  finally show ?thesis using False s by (simp add: plane_offset_def page_bytes_def algebra_simps)
qed

lemma plane_offset_inj:
  assumes "plane_wf order P t" and "page < P" "page' < P"
    and "x < page_bytes order t" "x' < page_bytes order t"
    and "plane_offset order t page x = plane_offset order t page' x'"
  shows "page = page' \<and> x = x'"
proof (cases "order = PageMajor")
  case True
  let ?B = "nat (nb t 3)"
  have eq: "page * ?B + x = page' * ?B + x'" and x: "x < ?B" "x' < ?B"
    using assms(4-6) True by (simp_all add: plane_offset_def page_bytes_def)
  have "page = (page * ?B + x) div ?B" using x by simp
  also have "\<dots> = page'" unfolding eq using x by simp
  finally show ?thesis using eq by simp
next
  case False
  let ?w = "nat (nb t 2)"
  have w: "0 < ?w" and s: "nat (nb t 3) = P * ?w"
    using assms(1) False by (auto simp: plane_wf_def nat_mult_distrib)
  have digits: "n div ?w = y div ?w * P + page \<and> n mod ?w = y mod ?w"
    if "n = page * ?w + y div ?w * (P * ?w) + y mod ?w" for n y page
  proof -
    have n: "n = (y div ?w * P + page) * ?w + y mod ?w" using that by (simp add: algebra_simps)
    show ?thesis unfolding n using w by simp
  qed
  have eq: "page * ?w + x div ?w * (P * ?w) + x mod ?w = page' * ?w + x' div ?w * (P * ?w) + x' mod ?w"
    using assms(6) False by (simp add: plane_offset_def s)
  have d: "x div ?w * P + page = x' div ?w * P + page'" and m: "x mod ?w = x' mod ?w"
    using digits [OF refl, of page x] digits [OF refl, of page' x'] unfolding eq by simp_all
  have "page = (x div ?w * P + page) mod P" using assms(2) by simp
  also have "\<dots> = page'" unfolding d using assms(3) by simp
  finally have p: "page = page'" .
  then have "x div ?w * P = x' div ?w * P" using d by simp
  then have "x div ?w = x' div ?w" using assms(2) by simp
  with m p show ?thesis by (metis div_mult_mod_eq)
qed

lemma unat_plane_byte:
  assumes "plane_wf order P t" and "0 \<le> page" "page < int P" and "x < page_bytes order t"
  shows "unat (plane_byte order t page x) = unat (t_data t) + plane_offset order t (nat page) x"
proof -
  let ?o = "plane_offset order t (nat page) x"
  have "?o < P * page_bytes order t" using assms by (intro plane_offset_bound) auto
  moreover have "unat (t_data t) + P * page_bytes order t \<le> 2 ^ 64" using assms(1) by (simp add: plane_wf_def)
  ultimately have b: "unat (t_data t) + ?o < 2 ^ 64" by linarith
  then have "?o < 2 ^ 64" by linarith
  then have u: "unat (of_nat ?o :: u64) = ?o" unfolding unat_of_nat by (simp add: take_bit_nat_eq_self)
  have "unat (t_data t + of_nat ?o) = unat (t_data t) + unat (of_nat ?o :: u64)"
    by (rule unat_add_no_overflow) (use b u in simp)
  then show ?thesis unfolding plane_byte_def u .
qed

text \<open>The bytes of all pages of all planes are different.\<close>

lemma planes_apart_low:
  "planes_apart order P lo ts \<Longrightarrow> j < length ts \<Longrightarrow> lo \<le> unat (t_data (ts ! j))"
proof (induction ts arbitrary: lo j)
  case (Cons t ts)
  show ?case
  proof (cases j)
    case (Suc j')
    then have "unat (t_data t) + P * page_bytes order t \<le> unat (t_data (ts ! j'))"
      using Cons.prems by (intro Cons.IH) simp_all
    then show ?thesis using Cons.prems(1) Suc by simp
  qed (use Cons.prems in simp)
qed simp

lemma planes_apart_nth:
  "planes_apart order P lo ts \<Longrightarrow> i < j \<Longrightarrow> j < length ts \<Longrightarrow>
     unat (t_data (ts ! i)) + P * page_bytes order (ts ! i) \<le> unat (t_data (ts ! j))"
proof (induction ts arbitrary: lo i j)
  case (Cons t ts)
  then obtain j' where j: "j = Suc j'" by (cases j) simp_all
  show ?case
  proof (cases i)
    case 0
    then show ?thesis using Cons.prems j planes_apart_low [of order P _ ts j'] by simp
  next
    case (Suc i')
    then have "unat (t_data (ts ! i')) + P * page_bytes order (ts ! i') \<le> unat (t_data (ts ! j'))"
      using Cons.prems j by (intro Cons.IH [of "unat (t_data t) + P * page_bytes order t"]) simp_all
    then show ?thesis using Suc j by simp
  qed
qed simp

lemma plane_bytes_inj:
  assumes wf: "\<forall>t \<in> set ts. plane_wf order P t" and apart: "planes_apart order P lo ts"
    and i: "i < length ts" "j < length ts"
    and p: "0 \<le> p" "p < int P" "0 \<le> q" "q < int P"
    and x: "x < page_bytes order (ts ! i)" "y < page_bytes order (ts ! j)"
    and eq: "plane_byte order (ts ! i) p x = plane_byte order (ts ! j) q y"
  shows "i = j \<and> p = q \<and> x = y"
proof -
  have wi: "plane_wf order P (ts ! i)" and wj: "plane_wf order P (ts ! j)" using wf i by simp_all
  note u = unat_plane_byte [OF wi p(1,2) x(1)] unat_plane_byte [OF wj p(3,4) x(2)]
  have oi: "plane_offset order (ts ! i) (nat p) x < P * page_bytes order (ts ! i)"
    and oj: "plane_offset order (ts ! j) (nat q) y < P * page_bytes order (ts ! j)"
    using p x by (auto intro!: plane_offset_bound wi wj)
  have sum: "unat (t_data (ts ! i)) + plane_offset order (ts ! i) (nat p) x
      = unat (t_data (ts ! j)) + plane_offset order (ts ! j) (nat q) y"
    using u unfolding eq by simp
  have "\<not> i < j" using planes_apart_nth [OF apart _ i(2), of i] oi sum by auto
  moreover have "\<not> j < i" using planes_apart_nth [OF apart _ i(1), of j] oj sum by auto
  ultimately have ij: "i = j" by simp
  have "nat p = nat q \<and> x = y"
    by (rule plane_offset_inj [OF wi]) (use p x sum ij in auto)
  then show ?thesis using ij p by auto
qed

section \<open>Images\<close>

lemma in_page_image:
  "(o', s) \<in> set (page_image order t off page) \<longleftrightarrow>
     (\<exists>x < page_bytes order t. o' = off + x \<and> s = plane_byte order t page x)"
  by (auto simp: page_image_def)

lemma in_plane_image:
  "(o', s) \<in> set (plane_image order t off ids) \<longleftrightarrow>
     (\<exists>i < length ids. \<exists>x < page_bytes order t. o' = off + i * page_bytes order t + x \<and> s = plane_byte order t (ids ! i) x)"
  unfolding plane_image_def by (simp add: in_page_image Bex_def)

lemma in_image_map:
  "(o', s) \<in> set (image_map order n off ids ts) \<longleftrightarrow>
     (\<exists>k < length ts. \<exists>i < length ids. \<exists>x < page_bytes order (ts ! k).
        o' = off + n * sum_list (map (page_bytes order) (take k ts)) + i * page_bytes order (ts ! k) + x \<and>
        s = plane_byte order (ts ! k) (ids ! i) x)"
proof (induction ts arbitrary: off)
  case (Cons t ts)
  show ?case
    unfolding image_map_Cons set_append Un_iff in_plane_image Cons.IH
    by (simp add: Ex_less_Suc2 algebra_simps)
qed simp

lemma image_mapI:
  "k < length ts \<Longrightarrow> i < length ids \<Longrightarrow> x < page_bytes order (ts ! k) \<Longrightarrow>
     (off + n * sum_list (map (page_bytes order) (take k ts)) + i * page_bytes order (ts ! k) + x,
      plane_byte order (ts ! k) (ids ! i) x) \<in> set (image_map order n off ids ts)"
  unfolding in_image_map by blast

lemma plane_image_index:
  assumes "i * B + x = i' * B + (x' :: nat)" and "x < B" and "x' < B"
  shows "i = i' \<and> x = x'"
proof -
  have "i = (i * B + x) div B" using assms(2) by simp
  also have "\<dots> = i'" unfolding assms(1) using assms(3) by simp
  finally show ?thesis using assms(1) by simp
qed

lemma distinct_concat_upt:
  assumes "\<And>i. i < n \<Longrightarrow> distinct (f i)"
    and "\<And>i j. i < n \<Longrightarrow> j < n \<Longrightarrow> i \<noteq> j \<Longrightarrow> set (f i) \<inter> set (f j) = {}"
  shows "distinct (concat (map f [0..<n]))"
  using assms
proof (induction n)
  case (Suc n)
  have "\<forall>i < n. set (f n) \<inter> set (f i) = {}" using Suc.prems(2) [of n] by simp
  moreover have "distinct (concat (map f [0..<n]))" by (rule Suc.IH) (use Suc.prems in simp_all)
  moreover have "distinct (f n)" using Suc.prems(1) by simp
  ultimately show ?case by auto
qed simp

lemma distinct_plane_image:
  assumes wf: "plane_wf order P t" and "distinct ids" and r: "\<forall>p \<in> set ids. 0 \<le> p \<and> p < int P"
  shows "distinct (map fst (plane_image order t off ids))" and "distinct (map snd (plane_image order t off ids))"
proof -
  let ?B = "page_bytes order t"
  show "distinct (map fst (plane_image order t off ids))"
    unfolding plane_image_def map_concat map_map
  proof (rule distinct_concat_upt)
    show "distinct ((map fst \<circ> (\<lambda>i. page_image order t (off + i * ?B) (ids ! i))) i)" for i
      by (simp add: page_image_def o_def distinct_map inj_on_def)
    show "set ((map fst \<circ> (\<lambda>i. page_image order t (off + i * ?B) (ids ! i))) i) \<inter>
        set ((map fst \<circ> (\<lambda>i. page_image order t (off + i * ?B) (ids ! i))) j) = {}" if "i \<noteq> j" for i j
    proof (rule equals0I)
      fix z assume "z \<in> set ((map fst \<circ> (\<lambda>i. page_image order t (off + i * ?B) (ids ! i))) i) \<inter>
        set ((map fst \<circ> (\<lambda>i. page_image order t (off + i * ?B) (ids ! i))) j)"
      then obtain s s' where "(z, s) \<in> set (page_image order t (off + i * ?B) (ids ! i))"
        "(z, s') \<in> set (page_image order t (off + j * ?B) (ids ! j))" by force
      then obtain x y where "x < ?B" "y < ?B" "z = off + i * ?B + x" "z = off + j * ?B + y"
        unfolding in_page_image by blast
      then show False using plane_image_index [of i ?B x j y] that by simp
    qed
  qed
  have inj: "i = j \<and> x = y" if "i < length ids" "j < length ids" "x < ?B" "y < ?B"
      "plane_byte order t (ids ! i) x = plane_byte order t (ids ! j) y" for i j x y
  proof -
    have "planes_apart order P 0 [t]" by simp
    from plane_bytes_inj [of "[t]" order P 0 0 0 "ids ! i" "ids ! j" x y] that wf r
    have "ids ! i = ids ! j \<and> x = y" by simp
    then show ?thesis using assms(2) that(1,2) nth_eq_iff_index_eq by blast
  qed
  show "distinct (map snd (plane_image order t off ids))"
    unfolding plane_image_def map_concat map_map
  proof (rule distinct_concat_upt)
    show "distinct ((map snd \<circ> (\<lambda>i. page_image order t (off + i * ?B) (ids ! i))) i)" if "i < length ids" for i
      using inj [OF that that] by (auto simp: page_image_def o_def distinct_map inj_on_def)
    show "set ((map snd \<circ> (\<lambda>i. page_image order t (off + i * ?B) (ids ! i))) i) \<inter>
        set ((map snd \<circ> (\<lambda>i. page_image order t (off + i * ?B) (ids ! i))) j) = {}"
      if "i < length ids" "j < length ids" "i \<noteq> j" for i j
      using inj [OF that(1,2)] that(3) by (auto simp: page_image_def)
  qed
qed

lemma image_map_bound:
  assumes "(o', s) \<in> set (image_map order n off ids ts)" and "length ids \<le> n"
  shows "off \<le> o' \<and> o' < off + image_size order n ts"
  using assms(1)
proof (induction ts arbitrary: off)
  case (Cons t ts)
  let ?B = "page_bytes order t"
  have size: "image_size order n (t # ts) = n * ?B + image_size order n ts"
    by (simp add: image_size_def algebra_simps)
  from Cons.prems consider "(o', s) \<in> set (plane_image order t off ids)"
    | "(o', s) \<in> set (image_map order n (off + n * ?B) ids ts)" unfolding image_map_Cons by auto
  then show ?case
  proof cases
    case 1
    then obtain i x where ix: "i < length ids" "x < ?B" "o' = off + i * ?B + x" unfolding in_plane_image by blast
    then have "i * ?B + x < Suc i * ?B" by simp
    also have "\<dots> \<le> n * ?B" using ix(1) assms(2) by (intro mult_right_mono) simp_all
    finally show ?thesis using ix(3) size by simp
  next
    case 2
    from Cons.IH [OF this] show ?thesis using size by simp
  qed
qed simp

lemma distinct_image_map:
  assumes wf: "\<forall>t \<in> set ts. plane_wf order P t" and apart: "planes_apart order P lo ts"
    and ids: "distinct ids" "\<forall>p \<in> set ids. 0 \<le> p \<and> p < int P" "length ids \<le> n"
  shows "distinct (map fst (image_map order n off ids ts))" and "distinct (map snd (image_map order n off ids ts))"
proof -
  show "distinct (map fst (image_map order n off ids ts))"
    using wf
  proof (induction ts arbitrary: off)
    case (Cons t ts)
    have "o1 < off + n * page_bytes order t" if "(o1, s) \<in> set (plane_image order t off ids)" for o1 s
    proof -
      have "(o1, s) \<in> set (image_map order n off ids [t])" using that unfolding image_map_Cons by simp
      from image_map_bound [OF this ids(3)] show ?thesis by (simp add: image_size_def)
    qed
    moreover have "off + n * page_bytes order t \<le> o1"
      if "(o1, s) \<in> set (image_map order n (off + n * page_bytes order t) ids ts)" for o1 s
      using image_map_bound [OF that ids(3)] by simp
    ultimately have "fst ` set (plane_image order t off ids) \<inter>
        fst ` set (image_map order n (off + n * page_bytes order t) ids ts) = {}" by fastforce
    moreover have "distinct (map fst (plane_image order t off ids))"
      using Cons.prems ids by (intro distinct_plane_image(1)) auto
    ultimately show ?case using Cons unfolding image_map_Cons by simp
  qed simp
  show "distinct (map snd (image_map order n off ids ts))"
    using wf apart
  proof (induction ts arbitrary: off lo)
    case (Cons t ts)
    have "s \<notin> snd ` set (image_map order n (off + n * page_bytes order t) ids ts)"
      if s: "(o1, s) \<in> set (plane_image order t off ids)" for o1 s
    proof
      assume "s \<in> snd ` set (image_map order n (off + n * page_bytes order t) ids ts)"
      then obtain o2 where o2: "(o2, s) \<in> set (image_map order n (off + n * page_bytes order t) ids ts)" by force
      from s obtain i x where 1: "i < length ids" "x < page_bytes order t" "s = plane_byte order t (ids ! i) x"
        unfolding in_plane_image by blast
      from o2 obtain k j y where 2: "k < length ts" "j < length ids" "y < page_bytes order (ts ! k)"
        "s = plane_byte order (ts ! k) (ids ! j) y" unfolding in_image_map by blast
      have "(0 :: nat) = Suc k"
        using plane_bytes_inj [OF Cons.prems, of 0 "Suc k" "ids ! i" "ids ! j" x y] 1 2 ids(2) by simp
      then show False by simp
    qed
    then have "s \<notin> snd ` set (image_map order n (off + n * page_bytes order t) ids ts)"
      if "s \<in> snd ` set (plane_image order t off ids)" for s using that by force
    then have "snd ` set (plane_image order t off ids) \<inter>
        snd ` set (image_map order n (off + n * page_bytes order t) ids ts) = {}" by blast
    moreover have "distinct (map snd (plane_image order t off ids))"
      using Cons.prems ids by (intro distinct_plane_image(2)) auto
    moreover have "distinct (map snd (image_map order n (off + n * page_bytes order t) ids ts))"
      using Cons.prems by (intro Cons.IH) auto
    ultimately show ?case unfolding image_map_Cons by simp
  qed simp
qed

section \<open>Planned pools\<close>

lemma layout_add_tensorE:
  assumes "layout_add_tensor b dt shape a = Inr (tr, b')" and "length shape = 4"
  obtains "tr_shape tr = shape" and "unat (lb_cursor b) \<le> unat (lr_offset (tr_region tr))"
    and "unat (lb_cursor b') = unat (lr_offset (tr_region tr)) + unat (lr_bytes (tr_region tr))"
proof -
  from assms(1) obtain n where add: "layout_add b n a = Inr (tr_region tr, b')"
    and sh: "tr_shape tr = shape @ replicate (4 - length shape) 1"
    by (auto simp: layout_add_tensor_def bind_result_eq_Inr)
  from add have al: "align_up (lb_cursor b) a = Inr (lr_offset (tr_region tr))"
    and "unat (lb_cursor b') = unat (lr_offset (tr_region tr)) + unat n" "lr_bytes (tr_region tr) = n"
    by (auto elim: layout_addE)
  then show ?thesis using that sh assms(2) align_up_bounds(2) [OF al] by simp
qed

lemma plan_planesD:
  "plan_planes b order pp specs = (b', Inr pls) \<Longrightarrow>
     regions_from (unat (lb_cursor b)) pls \<and>
     (\<forall>pl \<in> set pls. \<exists>lead head. tr_shape (pl_storage pl) =
        (if order = PageMajor then [lead, 64, head, pp] else [lead, 64, pp, head]))"
proof (induction b order pp specs arbitrary: b' pls rule: plan_planes.induct)
  case (2 b order pp plane planes)
  let ?shape = "if order = PageMajor then [ps_leading_extent plane, int kPagedKVPageSize, ps_head_extent plane, pp]
    else [ps_leading_extent plane, int kPagedKVPageSize, pp, ps_head_extent plane]"
  have g: "\<not> (ps_leading_extent plane \<le> 0 \<or> ps_head_extent plane \<le> 0)" using 2(2) by (auto split: if_splits)
  obtain x where a: "layout_add_tensor b (ps_dtype plane) ?shape (ps_alignment plane) = Inr x"
    using 2(2) g by (cases "layout_add_tensor b (ps_dtype plane) ?shape (ps_alignment plane)") simp_all
  obtain st b1 where x: "x = (st, b1)" by fastforce
  obtain b2 r where pr: "plan_planes b1 order pp planes = (b2, r)" by fastforce
  obtain rest where r: "r = Inr rest" and pls: "pls = \<lparr>pl_spec = plane, pl_storage = st\<rparr> # rest"
    using 2(2) g a x pr by (cases r) simp_all
  have IH: "regions_from (unat (lb_cursor b1)) rest \<and>
     (\<forall>pl \<in> set rest. \<exists>lead head. tr_shape (pl_storage pl) =
        (if order = PageMajor then [lead, 64, head, pp] else [lead, 64, pp, head]))"
    by (rule 2(1) [OF g a x [symmetric] pr [unfolded r]])
  have "length ?shape = 4" by simp
  from layout_add_tensorE [OF a [unfolded x] this]
  have "tr_shape st = ?shape" "unat (lb_cursor b) \<le> unat (lr_offset (tr_region st))"
    "unat (lb_cursor b1) = unat (lr_offset (tr_region st)) + unat (lr_bytes (tr_region st))" by blast+
  then show ?case using IH pls by (auto simp: kPagedKVPageSize_def)
qed simp

lemma bind_planesD:
  "bind_planes backing pls sps = Inr ts \<Longrightarrow> length pls = length sps \<Longrightarrow>
     list_all2 (\<lambda>pl t. tensor_region_bind (pl_storage pl) backing = Inr t) pls ts"
  by (induction backing pls sps arbitrary: ts rule: bind_planes.induct)
    (auto simp: bind_result_eq_Inr split: if_splits)

lemma bound_plane_wf:
  assumes "tensor_region_bind tr backing = Inr t"
    and "unat (span_data backing) + unat (span_bytes backing) \<le> 2 ^ 64"
    and sh: "tr_shape tr = (if order = PageMajor then [lead, 64, head, int P] else [lead, 64, int P, head])"
  shows "plane_wf order P t" and "P * page_bytes order t = unat (lr_bytes (tr_region tr))"
proof -
  from assms(1) have mk: "make_tensor (span_data backing + lr_offset (tr_region tr)) (tr_dtype tr) (tr_shape tr) = Inr t"
    by (auto elim: tensor_region_bindE)
  let ?es = "uint (dtype_size (t_dtype t))"
  from mk have ns: "normalize_shape (tr_shape tr) = Inr (t_ne t)" and pos: "\<forall>d\<in>set (t_ne t). 0 < d"
    and nbs: "\<forall>i < 4. t_nb t ! i = ?es * prod_list (take i (t_ne t))"
    by (auto elim!: make_tensorE)
  have ne: "t_ne t = tr_shape tr" using ns sh by (auto simp: normalize_shape_eq_Inr split: if_splits)
  have es: "0 < ?es" by (cases "t_dtype t") simp_all
  have n2: "nb t 2 = ?es * prod_list (take 2 (t_ne t))" and n3: "nb t 3 = ?es * prod_list (take 3 (t_ne t))"
    using nbs by simp_all
  note mem = bound_tensor_memory [OF assms(1,2)]
  have p: "0 < lead" "0 < head" "0 < int P" using pos by (auto simp: ne sh split: if_splits)
  have g: "(if order = PageMajor then 0 < nb t 3
      else 0 < nb t 2 \<and> 0 < ne t 3 \<and> nb t 3 = int P * nb t 2)"
    using p es unfolding n2 n3 ne sh by (simp add: numeral_eq_Suc)
  have "int (P * page_bytes order t) = prod_list (t_ne t) * ?es"
    using p es unfolding page_bytes_def n2 n3 ne sh by (simp add: numeral_eq_Suc algebra_simps)
  then show total: "P * page_bytes order t = unat (lr_bytes (tr_region tr))"
    using mem(3) by (metis of_nat_eq_iff)
  have "P * page_bytes order t < 2 ^ 64" unfolding total using unat_word_bound [of "lr_bytes (tr_region tr)"] by simp
  then show "plane_wf order P t"
    unfolding plane_wf_def using g p(3) total mem(4) assms(2) by simp
qed

lemma plan_pool_planes:
  assumes "plan_paged_kv_pool b spec = (b', Inr lay)"
  shows "\<exists>pp b1. checked_i32 (sp_page_group_count spec) = Inr pp \<and>
    plan_planes b (sp_plane_order spec) pp (sp_planes spec) = (b1, Inr (lay_planes lay)) \<and> lay_spec lay = spec"
proof -
  obtain pp where pp: "checked_i32 (sp_page_group_count spec) = Inr pp"
    using assms by (cases "checked_i32 (sp_page_group_count spec)") (simp_all add: plan_paged_kv_pool_def)
  obtain c where c: "checked_i32 (sp_logical_page_capacity spec) = Inr c"
    using assms pp by (cases "checked_i32 (sp_logical_page_capacity spec)") (simp_all add: plan_paged_kv_pool_def)
  obtain b1 r where pl: "plan_planes b (sp_plane_order spec) pp (sp_planes spec) = (b1, r)" by fastforce
  obtain planes where r: "r = Inr planes"
    using assms pp c pl by (cases r) (simp_all add: plan_paged_kv_pool_def split: if_split_asm)
  have "lay_planes lay = planes \<and> lay_spec lay = spec"
    using assms pp c pl r by (cases "layout_add_tensor b1 I32 [c, sp_table_rows spec] 256")
      (auto simp: plan_paged_kv_pool_def split: if_split_asm)
  then show ?thesis using pp pl r by blast
qed

lemma make_pool_planes:
  assumes "make_pool backing lay = Inr p"
  shows "kp_spec p = lay_spec lay \<and> length (lay_planes lay) = length (sp_planes (lay_spec lay)) \<and>
    bind_planes backing (lay_planes lay) (sp_planes (lay_spec lay)) = Inr (kp_planes p)"
proof -
  obtain t where t: "tensor_region_bind (lay_block_tables lay) backing = Inr t"
    using assms by (auto simp: make_pool_def Let_def bind_result_eq_Inr)
  obtain c where c: "checked_i32 (sp_logical_page_capacity (lay_spec lay)) = Inr c"
    using assms t by (cases "checked_i32 (sp_logical_page_capacity (lay_spec lay))")
      (simp_all add: make_pool_def Let_def split: if_split_asm)
  obtain ts where ts: "bind_planes backing (lay_planes lay) (sp_planes (lay_spec lay)) = Inr ts"
    using assms t c by (cases "bind_planes backing (lay_planes lay) (sp_planes (lay_spec lay))")
      (simp_all add: make_pool_def Let_def split: if_split_asm)
  show ?thesis using assms t c ts by (auto simp: make_pool_def Let_def split: if_split_asm)
qed

lemma regions_apart:
  assumes "list_all2 (\<lambda>q t. tensor_region_bind (pl_storage q) backing = Inr t) qs ts" and "regions_from lo qs"
    and "unat (span_data backing) + unat (span_bytes backing) \<le> 2 ^ 64"
    and "\<forall>q \<in> set qs. \<exists>lead head. tr_shape (pl_storage q) =
      (if order = PageMajor then [lead, 64, head, int P] else [lead, 64, int P, head])"
  shows "planes_apart order P (unat (span_data backing) + lo) ts \<and> (\<forall>t \<in> set ts. plane_wf order P t)"
  using assms
proof (induction arbitrary: lo rule: list_all2_induct)
  case (Cons q qs t ts)
  obtain lead head where sh: "tr_shape (pl_storage q) =
      (if order = PageMajor then [lead, 64, head, int P] else [lead, 64, int P, head])"
    using Cons.prems(3) by (meson list.set_intros(1))
  note wf = bound_plane_wf [OF Cons.hyps(1) Cons.prems(2) sh]
    and d = bound_tensor_memory(2) [OF Cons.hyps(1) Cons.prems(2)]
  have "planes_apart order P (unat (span_data backing) +
      (unat (lr_offset (tr_region (pl_storage q))) + unat (lr_bytes (tr_region (pl_storage q))))) ts \<and>
      (\<forall>t \<in> set ts. plane_wf order P t)"
    by (rule Cons.IH) (use Cons.prems in simp_all)
  then show ?case using Cons.prems(1) wf d by (simp add: add.assoc)
qed simp

lemma planned_planes:
  assumes "planned_pool p"
  shows "\<forall>t \<in> set (kp_planes p). plane_wf (sp_plane_order (kp_spec p)) (unat (page_group_count p)) t"
    and "planes_apart (sp_plane_order (kp_spec p)) (unat (page_group_count p)) 0 (kp_planes p)"
proof -
  let ?order = "sp_plane_order (kp_spec p)" and ?P = "unat (page_group_count p)"
  obtain b spec b' lay backing where nw: "unat (span_data backing) + unat (span_bytes backing) \<le> 2 ^ 64"
    and plan: "plan_paged_kv_pool b spec = (b', Inr lay)" and mk: "make_pool backing lay = Inr p"
    using assms unfolding planned_pool_def by blast
  obtain pp b1 where pp: "checked_i32 (sp_page_group_count spec) = Inr pp" and lay: "lay_spec lay = spec"
    and pl: "plan_planes b (sp_plane_order spec) pp (sp_planes spec) = (b1, Inr (lay_planes lay))"
    using plan_pool_planes [OF plan] by blast
  have sp: "kp_spec p = spec" and len: "length (lay_planes lay) = length (sp_planes spec)"
    and bp: "bind_planes backing (lay_planes lay) (sp_planes spec) = Inr (kp_planes p)"
    using make_pool_planes [OF mk] unfolding lay by blast+
  have P: "pp = int ?P" using pp by (simp add: sp checked_i32_eq_Inr)
  note plD = plan_planesD [OF pl]
  have apart: "planes_apart ?order ?P (unat (span_data backing) + unat (lb_cursor b)) (kp_planes p) \<and>
      (\<forall>t \<in> set (kp_planes p). plane_wf ?order ?P t)"
    unfolding sp by (rule regions_apart [OF bind_planesD [OF bp len] plD [THEN conjunct1] nw])
      (use plD [THEN conjunct2] in \<open>simp only: P [unfolded sp]\<close>)
  then show "\<forall>t \<in> set (kp_planes p). plane_wf ?order ?P t" ..
  have "planes_apart ?order ?P lo ts \<Longrightarrow> planes_apart ?order ?P 0 ts" for lo ts by (cases ts) simp_all
  then show "planes_apart ?order ?P 0 (kp_planes p)" using apart by blast
qed

lemma reachable_planes:
  assumes "kv_reachable h" and "k < length (kh_pools h)"
  shows "\<forall>t \<in> set (kp_planes (kh_pools h ! k)). plane_wf (sp_plane_order (kp_spec (kh_pools h ! k)))
      (unat (page_group_count (kh_pools h ! k))) t"
    and "planes_apart (sp_plane_order (kp_spec (kh_pools h ! k))) (unat (page_group_count (kh_pools h ! k))) 0
      (kp_planes (kh_pools h ! k))"
proof -
  obtain p where "planned_pool p" "kp_spec (kh_pools h ! k) = kp_spec p" "kp_planes (kh_pools h ! k) = kp_planes p"
    using reachable_poolE [OF assms] by metis
  then show "\<forall>t \<in> set (kp_planes (kh_pools h ! k)). plane_wf (sp_plane_order (kp_spec (kh_pools h ! k)))
      (unat (page_group_count (kh_pools h ! k))) t"
    and "planes_apart (sp_plane_order (kp_spec (kh_pools h ! k))) (unat (page_group_count (kh_pools h ! k))) 0
      (kp_planes (kh_pools h ! k))" using planned_planes [of p] by simp_all
qed

end
