(* ===== verification/Paged_KV_Publish.thy ===== *)
theory Paged_KV_Publish
  imports Paged_KV_Static
begin

text \<open>
  What the device sees of the paged KV cache. The block tables are device memory that the host
  fills by asynchronous copies (\<^verbatim>\<open>publish_range\<close> of \<^verbatim>\<open>paged_kv_cache.cpp\<close>). The copy itself is
  the driver's: it is a parameter \<open>copy\<close> with the documented effect of a memory copy. Copies
  take effect in the order they were enqueued, as on one stream.
\<close>

section \<open>The device's view of the block tables\<close>

text \<open>Device memory as 32-bit cells by address. A copy writes its ids to consecutive cells and
  leaves every other cell alone.\<close>

type_synonym table_memory = "u64 \<Rightarrow> int"

definition table_copy_law :: "(table_write \<Rightarrow> table_memory \<Rightarrow> table_memory) \<Rightarrow> bool" where
  "table_copy_law copy \<longleftrightarrow>
     (\<forall>w m. 4 * length (tw_ids w) \<le> 2 ^ 64 \<longrightarrow>
        (\<forall>n < length (tw_ids w). copy w m (tw_dst w + 4 * of_nat n) = tw_ids w ! n) \<and>
        (\<forall>x. (\<forall>n < length (tw_ids w). x \<noteq> tw_dst w + 4 * of_nat n) \<longrightarrow> copy w m x = m x))"

definition device_tables ::
  "(table_write \<Rightarrow> table_memory \<Rightarrow> table_memory) \<Rightarrow> table_memory \<Rightarrow> paged_kv_pool \<Rightarrow> table_memory" where
  "device_tables copy m p = fold copy (kp_table_writes p) m"

definition table_cell :: "paged_kv_pool \<Rightarrow> int \<Rightarrow> nat \<Rightarrow> u64" where
  "table_cell p row n = row_base p row + 4 * of_nat n"

definition alloc_published ::
  "(table_write \<Rightarrow> table_memory \<Rightarrow> table_memory) \<Rightarrow> table_memory \<Rightarrow> paged_kv_pool list \<Rightarrow> kv_allocation \<Rightarrow> bool" where
  "alloc_published copy m ps a \<longleftrightarrow>
     (\<forall>k. ka_pool a = Some k \<longrightarrow> 0 \<le> ka_bound_row a \<longrightarrow>
        (\<forall>n < length (ka_page_ids a).
           device_tables copy m (ps ! k) (table_cell (ps ! k) (ka_bound_row a) n) = ka_page_ids a ! n))"

definition published ::
  "(table_write \<Rightarrow> table_memory \<Rightarrow> table_memory) \<Rightarrow> table_memory \<Rightarrow> kv_heap \<Rightarrow> bool" where
  "published copy m h \<longleftrightarrow> (\<forall>a \<in> set (kh_allocs h). alloc_published copy m (kh_pools h) a)"

text \<open>Two heaps whose pools differ in their accounts only.\<close>

definition quiet :: "kv_heap \<Rightarrow> kv_heap \<Rightarrow> bool" where
  "quiet h h' \<longleftrightarrow>
     map (\<lambda>p. (kp_spec p, kp_block_tables p, kp_table_writes p)) (kh_pools h')
     = map (\<lambda>p. (kp_spec p, kp_block_tables p, kp_table_writes p)) (kh_pools h)"

text \<open>An allocation that is still bound keeps its row and a prefix of its pages.\<close>

definition keeps_prefix :: "kv_allocation \<Rightarrow> kv_allocation \<Rightarrow> bool" where
  "keeps_prefix a a' \<longleftrightarrow>
     ka_pool a' = None \<or> ka_bound_row a' < 0 \<or>
     ka_pool a' = ka_pool a \<and> ka_bound_row a' = ka_bound_row a \<and>
     (\<exists>n. ka_page_ids a' = take n (ka_page_ids a))"

definition unlisted :: "kv_allocation \<Rightarrow> bool" where
  "unlisted a \<longleftrightarrow> ka_pool a = None \<or> ka_bound_row a < 0"

definition quiet_step :: "kv_heap \<Rightarrow> kv_heap \<Rightarrow> bool" where
  "quiet_step h h' \<longleftrightarrow>
     quiet h h' \<and>
     (\<forall>a' \<in> set (kh_allocs h'). unlisted a' \<or> (\<exists>a \<in> set (kh_allocs h). keeps_prefix a a'))"

section \<open>Cells of different rows are different\<close>

lemma table_cell_inj:
  assumes "pool_shape p" and "t_data (kp_block_tables p) \<noteq> 0"
    and r: "0 \<le> row" "row < table_row_count p" "0 \<le> row'" "row' < table_row_count p"
    and n: "n < unat (logical_page_capacity p)" "n' < unat (logical_page_capacity p)"
    and eq: "table_cell p row n = table_cell p row' n'"
  shows "row = row' \<and> n = n'"
proof -
  define c where "c = sint (logical_page_capacity p)"
  have c: "c = int (unat (logical_page_capacity p))"
    using assms(1) by (simp add: c_def pool_shape_def sint_small)
  have pos: "0 < c" and le: "4 * c * table_row_count p \<le> i64_max"
    using assms(1) by (simp_all add: c_def pool_shape_def Let_def)
  have cell: "table_cell p q j = t_data (kp_block_tables p) + word_of_int (4 * (q * c + int j))" for q j
    using assms(2) by (simp add: table_cell_def row_base_def c_def [symmetric] algebra_simps)
  have range: "0 \<le> 4 * (q * c + int j) \<and> 4 * (q * c + int j) < 2 ^ 64"
    if "0 \<le> q" "q < table_row_count p" "int j < c" for q j
  proof -
    have "(q + 1) * c \<le> table_row_count p * c" using that(2) pos by (intro mult_right_mono) simp_all
    then have "4 * (q * c + int j) \<le> 4 * c * table_row_count p" using that(3) by (simp add: algebra_simps)
    then show ?thesis using le that(1) pos by (simp add: i64_max_def)
  qed
  have nc: "int n < c" "int n' < c" using n unfolding c of_nat_less_iff by simp_all
  have "(word_of_int (4 * (row * c + int n)) :: u64) = word_of_int (4 * (row' * c + int n'))"
    using eq by (simp add: cell)
  then have "4 * (row * c + int n) = 4 * (row' * c + int n')"
    using range [OF r(1,2) nc(1)] range [OF r(3,4) nc(2)] by (intro word_of_int_eq_u64) simp_all
  then have e: "row * c + int n = row' * c + int n'" by simp
  have "row = (row * c + int n) div c" using nc pos by simp
  also have "\<dots> = row'" using nc pos by (simp add: e)
  finally have "row = row'" .
  with e show ?thesis by simp
qed

section \<open>What one publication does\<close>

lemma device_tables_append:
  "kp_table_writes p' = kp_table_writes p @ ws \<Longrightarrow>
     device_tables copy m p' = fold copy ws (device_tables copy m p)"
  by (simp add: device_tables_def)

lemma table_cell_frame:
  "kp_spec p' = kp_spec p \<Longrightarrow> kp_block_tables p' = kp_block_tables p \<Longrightarrow> table_cell p' = table_cell p"
  by (simp add: table_cell_def row_base_def fun_eq_iff)

lemma publish_writes_effect:
  assumes law: "table_copy_law copy" and shape: "pool_shape p" and nz: "t_data (kp_block_tables p) \<noteq> 0"
    and row: "0 \<le> ka_bound_row a" "ka_bound_row a < table_row_count p"
    and len: "length (ka_page_ids a) \<le> unat (logical_page_capacity p)"
    and cnt: "unat first + unat n = length (ka_page_ids a)"
  shows "0 \<le> q \<Longrightarrow> q < table_row_count p \<Longrightarrow> j < unat (logical_page_capacity p) \<Longrightarrow>
    fold copy (publish_writes p a first n) mem (table_cell p q j) =
      (if q = ka_bound_row a \<and> unat first \<le> j \<and> j < length (ka_page_ids a)
       then ka_page_ids a ! j else mem (table_cell p q j))"
proof (cases "n = 0")
  case True
  then show ?thesis using cnt by (simp add: publish_writes_def)
next
  case False
  assume q: "0 \<le> q" "q < table_row_count p" and j: "j < unat (logical_page_capacity p)"
  let ?ids = "drop (unat first) (ka_page_ids a)"
  let ?w = "\<lparr>tw_dst = row_base p (ka_bound_row a) + 4 * ucast first, tw_ids = ?ids\<rparr>"
  have ids: "take (unat n) ?ids = ?ids" and lids: "length ?ids = unat n" using cnt by simp_all
  have ws: "publish_writes p a first n = [?w]" using False ids by (simp add: publish_writes_def)
  have dst: "tw_dst ?w + 4 * of_nat i = table_cell p (ka_bound_row a) (unat first + i)" for i
    by (simp add: table_cell_def algebra_simps)
  have "length ?ids \<le> 4294967296" using lids unat_u32_bound [of n] by linarith
  then have small: "4 * length (tw_ids ?w) \<le> 2 ^ 64" by simp
  note law' = law [unfolded table_copy_law_def, rule_format, OF small, of mem]
  have bound: "unat first + i < unat (logical_page_capacity p)" if "i < length ?ids" for i
    using that len cnt lids by simp
  show ?thesis
  proof (cases "q = ka_bound_row a \<and> unat first \<le> j \<and> j < length (ka_page_ids a)")
    case True
    define i where "i = j - unat first"
    have i: "i < length ?ids" "j = unat first + i" using True by (auto simp: i_def)
    have "copy ?w mem (table_cell p (ka_bound_row a) (unat first + i)) = ?ids ! i"
      using law' i(1) unfolding dst [symmetric] by simp
    then show ?thesis using True i ws by simp
  next
    case no: False
    have "table_cell p q j \<noteq> tw_dst ?w + 4 * of_nat i" if i: "i < length (tw_ids ?w)" for i
    proof
      assume "table_cell p q j = tw_dst ?w + 4 * of_nat i"
      then have "q = ka_bound_row a \<and> j = unat first + i"
        using table_cell_inj [OF shape nz q row j bound] i unfolding dst by simp
      then show False using no i by simp
    qed
    then have "copy ?w mem (table_cell p q j) = mem (table_cell p q j)" using law' by blast
    then show ?thesis unfolding if_not_P [OF no] ws by simp
  qed
qed

section \<open>Every operation keeps the tables published\<close>

lemma quiet_refl [simp]: "quiet h h"
  by (simp add: quiet_def)

lemma quiet_trans: "quiet h h1 \<Longrightarrow> quiet h1 h2 \<Longrightarrow> quiet h h2"
  by (simp add: quiet_def)

lemma quiet_put:
  assumes "k < length (kh_pools h)" and "kp_spec p = kp_spec (kh_pools h ! k)"
    and "kp_block_tables p = kp_block_tables (kh_pools h ! k)"
    and "kp_table_writes p = kp_table_writes (kh_pools h ! k)"
  shows "quiet h (kv_put h k p i a)"
  using assms by (simp add: quiet_def map_update_same)

lemma quietD:
  assumes "quiet h h'" and "k < length (kh_pools h)"
  shows "device_tables copy m (kh_pools h' ! k) = device_tables copy m (kh_pools h ! k)"
    and "table_cell (kh_pools h' ! k) = table_cell (kh_pools h ! k)"
proof -
  have "length (kh_pools h') = length (kh_pools h)"
    using arg_cong [OF assms(1) [unfolded quiet_def], of length] by simp
  then have e: "(kp_spec (kh_pools h' ! k), kp_block_tables (kh_pools h' ! k), kp_table_writes (kh_pools h' ! k))
      = (kp_spec (kh_pools h ! k), kp_block_tables (kh_pools h ! k), kp_table_writes (kh_pools h ! k))"
    using arg_cong [OF assms(1) [unfolded quiet_def], of "\<lambda>xs. xs ! k"] assms(2) by simp
  then show "device_tables copy m (kh_pools h' ! k) = device_tables copy m (kh_pools h ! k)"
    and "table_cell (kh_pools h' ! k) = table_cell (kh_pools h ! k)"
    by (simp_all add: device_tables_def table_cell_def row_base_def fun_eq_iff)
qed

text \<open>Operations that publish nothing.\<close>

lemma published_quiet:
  assumes "heap_inv h" and "published copy m h" and step: "quiet_step h h'"
  shows "published copy m h'"
  unfolding published_def
proof
  have q: "quiet h h'" and kp:  "\<And>a'. a' \<in> set (kh_allocs h') \<Longrightarrow>
      unlisted a' \<or> (\<exists>a \<in> set (kh_allocs h). keeps_prefix a a')"
    using step by (simp_all add: quiet_step_def)
  fix a' assume a': "a' \<in> set (kh_allocs h')"
  show "alloc_published copy m (kh_pools h') a'"
    unfolding alloc_published_def
  proof (intro allI impI)
    fix k n assume k: "ka_pool a' = Some k" and b: "0 \<le> ka_bound_row a'" and n: "n < length (ka_page_ids a')"
    obtain a i where a: "a \<in> set (kh_allocs h)" "ka_pool a = Some k" "ka_bound_row a = ka_bound_row a'"
      "ka_page_ids a' = take i (ka_page_ids a)"
      using kp [OF a'] k b by (auto simp: keeps_prefix_def unlisted_def)
    have kl: "k < length (kh_pools h)"
      using assms(1) a(1,2) by (auto simp: heap_inv_def alloc_ok_def split: option.splits dest!: bspec)
    have "device_tables copy m (kh_pools h ! k) (table_cell (kh_pools h ! k) (ka_bound_row a) n) = ka_page_ids a ! n"
      using assms(2) a b n by (auto simp: published_def alloc_published_def)
    then show "device_tables copy m (kh_pools h' ! k) (table_cell (kh_pools h' ! k) (ka_bound_row a') n) = ka_page_ids a' ! n"
      using a n by (simp add: quietD [OF q kl])
  qed
qed

lemma in_set_updateE:
  assumes "x \<in> set (xs[i := y])"
  obtains "x = y" | "x \<in> set xs"
  using assms set_update_subset_insert [of xs i y] by blast

lemma keeps_prefix_refl [simp]: "keeps_prefix a a"
  unfolding keeps_prefix_def by (metis take_all order_refl)

text \<open>Operations that publish: the written cells belong to the row of the written allocation.\<close>

lemma published_write:
  assumes inv: "heap_inv h" and pub: "published copy m h" and i: "i < length (kh_allocs h)"
    and k: "k < length (kh_pools h)" and own: "ka_pool a' = Some k"
    and inv': "heap_inv (kv_put h k p' i a')"
    and frame: "kp_spec p' = kp_spec (kh_pools h ! k)" "kp_block_tables p' = kp_block_tables (kh_pools h ! k)"
    and others: "\<And>q j. 0 \<le> q \<Longrightarrow> q < table_row_count (kh_pools h ! k) \<Longrightarrow>
      j < unat (logical_page_capacity (kh_pools h ! k)) \<Longrightarrow> q \<noteq> ka_bound_row a' \<Longrightarrow>
      device_tables copy m p' (table_cell (kh_pools h ! k) q j)
        = device_tables copy m (kh_pools h ! k) (table_cell (kh_pools h ! k) q j)"
    and mine: "\<And>j. 0 \<le> ka_bound_row a' \<Longrightarrow> j < length (ka_page_ids a') \<Longrightarrow>
      device_tables copy m p' (table_cell (kh_pools h ! k) (ka_bound_row a') j) = ka_page_ids a' ! j"
  shows "published copy m (kv_put h k p' i a')"
  unfolding published_def
proof
  let ?h = "kv_put h k p' i a'" and ?p = "kh_pools h ! k"
  fix b assume "b \<in> set (kh_allocs ?h)"
  then obtain j where j: "j < length (kh_allocs h)" "b = kh_allocs ?h ! j" by (auto simp: in_set_conv_nth)
  have cell: "table_cell p' = table_cell ?p" by (rule table_cell_frame [OF frame])
  show "alloc_published copy m (kh_pools ?h) b"
    unfolding alloc_published_def
  proof (intro allI impI)
    fix l n assume l: "ka_pool b = Some l" and r: "0 \<le> ka_bound_row b" and n: "n < length (ka_page_ids b)"
    show "device_tables copy m (kh_pools ?h ! l) (table_cell (kh_pools ?h ! l) (ka_bound_row b) n) = ka_page_ids b ! n"
    proof (cases "j = i")
      case True
      then have "b = a'" using j(2) i by simp
      then show ?thesis using l own k r n mine by (simp add: cell)
    next
      case False
      then have b: "b = kh_allocs h ! j" using j(2) by simp
      have old: "device_tables copy m (kh_pools h ! l) (table_cell (kh_pools h ! l) (ka_bound_row b) n) = ka_page_ids b ! n"
        using pub j(1) b l r n by (simp add: published_def alloc_published_def)
      show ?thesis
      proof (cases "l = k")
        case lk: True
        have jl: "j < length (kh_allocs ?h)" and kl: "k < length (kh_pools ?h)" using j(1) k by simp_all
        have f: "ka_bound_row b < table_row_count ?p" "length (ka_page_ids b) \<le> unat (logical_page_capacity ?p)"
          using owned_facts [OF inv j(1), of k] l lk b r by (auto simp: word_le_nat_alt)
        have "ka_bound_row b \<noteq> ka_bound_row a'"
          using heap_rows_exclusive [OF inv' kl, rule_format, of j i] jl i False b l lk own r by auto
        then show ?thesis using others [OF r f(1), of n] old n f(2) lk k by (simp add: cell)
      next
        case False
        then show ?thesis using old by simp
      qed
    qed
  qed
qed

lemma keeps_prefix_trans: "keeps_prefix a b \<Longrightarrow> keeps_prefix b c \<Longrightarrow> keeps_prefix a c"
  by (auto simp: keeps_prefix_def)

lemma quiet_step_refl [simp]: "quiet_step h h"
  unfolding quiet_step_def using quiet_refl keeps_prefix_refl by blast

lemma quiet_step_trans:
  assumes "quiet_step h h1" and "quiet_step h1 h2"
  shows "quiet_step h h2"
  unfolding quiet_step_def
proof (intro conjI ballI)
  show "quiet h h2" using assms quiet_trans by (auto simp: quiet_step_def)
  fix a2 assume "a2 \<in> set (kh_allocs h2)"
  then consider "unlisted a2" | a1 where "a1 \<in> set (kh_allocs h1)" "keeps_prefix a1 a2"
    using assms(2) by (auto simp: quiet_step_def)
  then show "unlisted a2 \<or> (\<exists>a\<in>set (kh_allocs h). keeps_prefix a a2)"
  proof cases
    case 2
    then consider "unlisted a1" | a where "a \<in> set (kh_allocs h)" "keeps_prefix a a1"
      using assms(1) by (auto simp: quiet_step_def)
    then show ?thesis
    proof cases
      case 1
      then show ?thesis using 2 by (auto simp: keeps_prefix_def unlisted_def)
    qed (use 2 keeps_prefix_trans in blast)
  qed simp
qed

lemma quiet_step_put:
  assumes "heap_inv h" and "i < length (kh_allocs h)" and "ka_pool (kh_allocs h ! i) = Some k"
    and "kp_spec p = kp_spec (kh_pools h ! k)" and "kp_block_tables p = kp_block_tables (kh_pools h ! k)"
    and "kp_table_writes p = kp_table_writes (kh_pools h ! k)"
    and a: "unlisted a \<or> keeps_prefix (kh_allocs h ! i) a"
  shows "quiet_step h (kv_put h k p i a)"
  unfolding quiet_step_def
proof (intro conjI ballI)
  show "quiet h (kv_put h k p i a)"
    by (rule quiet_put [OF owned_facts(1) [OF assms(1-3)] assms(4-6)])
  fix a' assume "a' \<in> set (kh_allocs (kv_put h k p i a))"
  then have "a' = a \<or> a' \<in> set (kh_allocs h)" by (auto elim: in_set_updateE)
  then show "unlisted a' \<or> (\<exists>b\<in>set (kh_allocs h). keeps_prefix b a')"
    using a keeps_prefix_refl nth_mem [OF assms(2)] by blast
qed

lemma trim_pages_quiet:
  assumes "heap_inv h" and "i < length (kh_allocs h)"
  shows "quiet_step h (fst (trim_pages h i n))"
proof (cases "ka_pool (kh_allocs h ! i)")
  case (Some k)
  have "keeps_prefix (kh_allocs h ! i)
      ((kh_allocs h ! i)\<lparr>ka_page_ids := take (unat n) (ka_page_ids (kh_allocs h ! i))\<rparr>)"
    by (auto simp: keeps_prefix_def)
  then show ?thesis using Some quiet_step_put [OF assms Some] by (simp add: trim_pages_def Let_def)
qed (simp add: trim_pages_def)

lemma set_page_entitlement_quiet:
  assumes "heap_inv h" and "i < length (kh_allocs h)"
  shows "quiet_step h (fst (set_page_entitlement h i n))"
proof (cases "ka_pool (kh_allocs h ! i)")
  case (Some k)
  have "keeps_prefix (kh_allocs h ! i) ((kh_allocs h ! i)\<lparr>ka_page_entitlement := n\<rparr>)"
    unfolding keeps_prefix_def by (metis (no_types, lifting) kv_allocation.select_convs kv_allocation.surjective
        kv_allocation.update_convs(3) order_refl take_all)
  then show ?thesis using Some quiet_step_put [OF assms Some] by (simp add: set_page_entitlement_def Let_def)
qed (simp add: set_page_entitlement_def)

lemma cancel_quiet:
  assumes "heap_inv h" and "i < length (kh_allocs h)"
  shows "quiet_step h (cancel_unmapped_entitlement h i)"
proof (cases "ka_pool (kh_allocs h ! i)")
  case (Some k)
  have "keeps_prefix (kh_allocs h ! i) ((kh_allocs h ! i)\<lparr>ka_page_entitlement := n\<rparr>)" for n
    unfolding keeps_prefix_def by (metis (no_types, lifting) kv_allocation.select_convs kv_allocation.surjective
        kv_allocation.update_convs(3) order_refl take_all)
  then show ?thesis using Some quiet_step_put [OF assms Some] by (simp add: cancel_unmapped_entitlement_def Let_def)
qed (simp add: cancel_unmapped_entitlement_def)

lemma unbind_row_quiet:
  assumes "heap_inv h" and "i < length (kh_allocs h)"
  shows "quiet_step h (unbind_row h i)"
proof (cases "0 \<le> ka_bound_row (kh_allocs h ! i)")
  case True
  obtain k where k: "ka_pool (kh_allocs h ! i) = Some k" by (rule bound_is_owned [OF assms True])
  show ?thesis using True k quiet_step_put [OF assms k]
    by (simp add: unbind_row_def Let_def release_row_def unlisted_def)
qed (simp add: unbind_row_def)

lemma release_quiet:
  assumes "heap_inv h" and "i < length (kh_allocs h)"
  shows "quiet_step h (release_allocation h i)"
proof (cases "ka_pool (kh_allocs h ! i)")
  case (Some k)
  have inv: "heap_inv (unbind_row h i)" by (rule unbind_row_inv [OF assms])
  have "quiet_step (unbind_row h i) (release_allocation h i)"
    using Some assms(2) quiet_step_put [OF inv, of i k] by (simp add: release_allocation_def Let_def unlisted_def)
  then show ?thesis using unbind_row_quiet [OF assms] quiet_step_trans by blast
qed (simp add: release_allocation_def)

lemma release_length [simp]:
  "length (kh_allocs (release_allocation h i)) = length (kh_allocs h)"
  by (simp add: release_allocation_def unbind_row_def Let_def split: option.splits)

lemma trim_pages_length [simp]: "length (kh_allocs (fst (trim_pages h i n))) = length (kh_allocs h)"
  by (simp add: trim_pages_def Let_def split: option.splits)

lemma set_page_entitlement_length [simp]:
  "length (kh_allocs (fst (set_page_entitlement h i n))) = length (kh_allocs h)"
  by (simp add: set_page_entitlement_def Let_def split: option.splits)

lemma quiet_stepI:
  assumes "quiet h h'" and "\<forall>a \<in> set (kh_allocs h'). unlisted a \<or> a \<in> set (kh_allocs h)"
  shows "quiet_step h h'"
  unfolding quiet_step_def using assms keeps_prefix_refl by blast

lemma quiet_step_allocs:
  assumes "\<forall>a \<in> set as. unlisted a \<or> a \<in> set (kh_allocs h)"
  shows "quiet_step h (h\<lparr>kh_allocs := as\<rparr>)"
  by (rule quiet_stepI) (use assms in \<open>simp_all add: quiet_def\<close>)

lemma unlisted_null [simp]: "unlisted null_allocation"
  by (simp add: unlisted_def null_allocation_def)

lemma move_construct_quiet:
  assumes "j < length (kh_allocs h)"
  shows "quiet_step h (move_construct h j)"
  unfolding move_construct_def
  by (rule quiet_step_allocs) (use assms in \<open>auto elim: in_set_updateE\<close>)

lemma move_assign_quiet:
  assumes "heap_inv h" and "i < length (kh_allocs h)" and "j < length (kh_allocs h)"
  shows "quiet_step h (move_assign h i j)"
proof (cases "i = j")
  case False
  have "quiet_step (release_allocation h i) (move_assign h i j)"
    using False assms(2,3) by (auto simp: move_assign_def Let_def elim!: in_set_updateE intro!: quiet_step_allocs)
  then show ?thesis using quiet_step_trans [OF release_quiet [OF assms(1,2)]] by blast
qed (simp add: move_assign_def)

lemma reserve_quiet:
  assumes "k < length (kh_pools h)"
  shows "quiet_step h (fst (reserve h k n))"
proof (cases "can_reserve (kh_pools h ! k) n")
  case True
  let ?new = "\<lparr>ka_pool = Some k, ka_page_ids = [], ka_page_entitlement = n, ka_bound_row = - 1\<rparr>"
  let ?h = "h\<lparr>kh_pools := (kh_pools h)[k := add_entitlement (kh_pools h ! k) n]\<rparr>"
  have "quiet_step h ?h"
    by (rule quiet_stepI) (use assms in \<open>simp_all add: quiet_def map_update_same add_entitlement_def\<close>)
  moreover have "quiet_step ?h (?h\<lparr>kh_allocs := kh_allocs h @ [?new]\<rparr>)"
    by (rule quiet_step_allocs) (auto simp: unlisted_def)
  ultimately have "quiet_step h (?h\<lparr>kh_allocs := kh_allocs h @ [?new]\<rparr>)" by (rule quiet_step_trans)
  then show ?thesis using True by (simp add: reserve_def Let_def)
qed (simp add: reserve_fails)

lemma fold_release_quiet:
  assumes "heap_inv h" and "\<forall>i \<in> set made. i < length (kh_allocs h)"
  shows "quiet_step h (fold (\<lambda>i h. release_allocation h i) made h)"
  using assms
proof (induction made arbitrary: h)
  case (Cons i made)
  have "quiet_step (release_allocation h i) (fold (\<lambda>i h. release_allocation h i) made (release_allocation h i))"
    using Cons.prems by (intro Cons.IH) (simp_all add: release_inv(1))
  then show ?case using Cons.prems quiet_step_trans [OF release_quiet [OF Cons.prems(1), of i]] by simp
qed simp

lemma reserve_loop_quiet:
  assumes "heap_inv h" and "\<forall>i \<in> set made. i < length (kh_allocs h)"
    and "\<forall>r \<in> set rs. the (kr_pool r) < length (kh_pools h)"
  shows "quiet_step h (fst (reserve_loop h made rs))"
  using assms
proof (induction rs arbitrary: h made)
  case (Cons r rs)
  let ?k = "the (kr_pool r)" and ?n = "kr_page_entitlement r"
  have k: "?k < length (kh_pools h)" using Cons.prems(3) by simp
  show ?case
  proof (cases "can_reserve (kh_pools h ! ?k) ?n")
    case True
    define h1 where "h1 = fst (reserve h ?k ?n)"
    have r: "reserve h ?k ?n = (h1, Inr (length (kh_allocs h)))" and l: "length (kh_allocs h1) = Suc (length (kh_allocs h))"
      "length (kh_pools h1) = length (kh_pools h)"
      using True by (simp_all add: h1_def reserve_def Let_def)
    have inv: "heap_inv h1" unfolding h1_def by (rule reserve_inv [OF Cons.prems(1) k True])
    have made: "\<forall>i \<in> set (made @ [length (kh_allocs h)]). i < length (kh_allocs h1)"
      using Cons.prems(2) by (auto simp: l(1))
    have "\<forall>r \<in> set rs. the (kr_pool r) < length (kh_pools h1)" using Cons.prems(3) by (simp add: l(2))
    from Cons.IH [OF inv made this]
    have "quiet_step h1 (fst (reserve_loop h1 (made @ [length (kh_allocs h)]) rs))" .
    moreover have "quiet_step h h1" unfolding h1_def by (rule reserve_quiet [OF k])
    ultimately show ?thesis using r quiet_step_trans by simp
  next
    case False
    then show ?thesis using fold_release_quiet Cons.prems by (simp add: reserve_fails)
  qed
qed simp

lemma reserve_bundle_quiet:
  assumes "heap_inv h" and "\<forall>r \<in> set rs. \<forall>k. kr_pool r = Some k \<longrightarrow> k < length (kh_pools h)"
  shows "quiet_step h (fst (reserve_paged_kv_bundle h rs))"
proof (cases "validate_distinct_pools rs")
  case (Inr u)
  then have "\<forall>r\<in>set rs. kr_pool r \<noteq> None"
    using distinct_pools_loop_ok [of "[]" rs] by (simp add: validate_distinct_pools_def)
  then have "\<forall>r\<in>set rs. the (kr_pool r) < length (kh_pools h)" using assms(2) by fastforce
  then show ?thesis using Inr assms(1) reserve_loop_quiet by (simp add: reserve_paged_kv_bundle_def)
qed (simp add: reserve_paged_kv_bundle_def)

lemma resize_apply_quiet:
  assumes "heap_inv h" and "\<forall>c \<in> set cs. the (kz_allocation c) < length (kh_allocs h)"
  shows "quiet_step h (fst (resize_apply h cs))"
  using assms
proof (induction cs arbitrary: h)
  case (Cons c cs)
  let ?i = "the (kz_allocation c)"
  have i: "?i < length (kh_allocs h)" using Cons.prems(2) by simp
  obtain h1 x where t: "trim_pages h ?i (kz_mapped_pages c) = (h1, x)" by fastforce
  have t1: "quiet_step h h1" "heap_inv h1" "length (kh_allocs h1) = length (kh_allocs h)"
    using trim_pages_quiet [OF Cons.prems(1) i, of "kz_mapped_pages c"]
      trim_pages_inv [OF Cons.prems(1) i, of "kz_mapped_pages c"] trim_pages_length [of h ?i "kz_mapped_pages c"]
    by (simp_all add: t)
  have i1: "?i < length (kh_allocs h1)" using i t1(3) by simp
  obtain h2 y where e: "set_page_entitlement h1 ?i (kz_page_entitlement c) = (h2, y)" by fastforce
  have e1: "quiet_step h1 h2" "heap_inv h2" "length (kh_allocs h2) = length (kh_allocs h1)"
    using set_page_entitlement_quiet [OF t1(2) i1, of "kz_page_entitlement c"]
      set_page_entitlement_inv [OF t1(2) i1, of "kz_page_entitlement c"]
      set_page_entitlement_length [of h1 ?i "kz_page_entitlement c"] by (simp_all add: e)
  have "quiet_step h2 (fst (resize_apply h2 cs))" using Cons.prems e1 t1 by (intro Cons.IH) simp_all
  from quiet_step_trans [OF e1(1) this]
  have "quiet_step h1 (fst (resize_apply h (c # cs)))" if "\<not> isl x"
    using that e e1(1) t by (cases x; cases y) simp_all
  then show ?case using t t1(1) quiet_step_trans [OF t1(1)] by (cases x) simp_all
qed simp

lemma resize_bundle_quiet:
  assumes "heap_inv h" and "\<forall>c \<in> set cs. \<forall>i. kz_allocation c = Some i \<longrightarrow> i < length (kh_allocs h)"
  shows "quiet_step h (fst (resize_paged_kv_bundle h cs))"
proof (cases "resize_validate h [] cs")
  case (Inr u)
  then have "resize_validate h [] cs = Inr ()" by simp
  from resize_validate_ok [OF this] have "\<forall>c\<in>set cs. \<exists>i k. resize_ok h c i k" by simp
  then have "\<forall>c \<in> set cs. the (kz_allocation c) < length (kh_allocs h)"
    using assms(2) by (fastforce simp: resize_ok_def)
  then show ?thesis using Inr resize_apply_quiet [OF assms(1)] by (simp add: resize_paged_kv_bundle_def)
qed (simp add: resize_paged_kv_bundle_def)

lemma published_append:
  assumes law: "table_copy_law copy" and inv: "heap_inv h" and pub: "published copy m h"
    and i: "i < length (kh_allocs h)" and k: "ka_pool (kh_allocs h ! i) = Some k"
    and nz: "t_data (kp_block_tables (kh_pools h ! k)) \<noteq> 0" and own: "ka_pool a' = Some k"
    and inv': "heap_inv (kv_put h k p' i a')"
    and frame: "kp_spec p' = kp_spec (kh_pools h ! k)" "kp_block_tables p' = kp_block_tables (kh_pools h ! k)"
    and ws: "kp_table_writes p' = kp_table_writes (kh_pools h ! k) @
      (if 0 \<le> ka_bound_row a' then publish_writes (kh_pools h ! k) a' first n else [])"
    and cnt: "unat first + unat n = length (ka_page_ids a')"
    and old: "\<forall>j < unat first. 0 \<le> ka_bound_row a' \<longrightarrow> ka_bound_row a' = ka_bound_row (kh_allocs h ! i) \<and>
      j < length (ka_page_ids (kh_allocs h ! i)) \<and> ka_page_ids a' ! j = ka_page_ids (kh_allocs h ! i) ! j"
  shows "published copy m (kv_put h k p' i a')"
proof -
  let ?p = "kh_pools h ! k"
  have kl: "k < length (kh_pools h)" by (rule owned_facts(1) [OF inv i k])
  have shape: "pool_shape ?p" by (rule heap_invD(1) [OF inv kl])
  have i': "i < length (kh_allocs (kv_put h k p' i a'))" and k': "ka_pool (kh_allocs (kv_put h k p' i a') ! i) = Some k"
    using i own by simp_all
  have row: "0 \<le> ka_bound_row a' \<Longrightarrow> ka_bound_row a' < table_row_count ?p"
    and len: "length (ka_page_ids a') \<le> unat (logical_page_capacity ?p)"
    using owned_facts(2,4,6) [OF inv' i' k'] i kl frame(1) by (auto simp: word_le_nat_alt)
  have dev: "device_tables copy m p' = fold copy (if 0 \<le> ka_bound_row a' then publish_writes ?p a' first n else [])
      (device_tables copy m ?p)" by (rule device_tables_append [OF ws])
  note eff = publish_writes_effect [OF law shape nz _ row len cnt]
  show ?thesis
  proof (rule published_write [OF inv pub i kl own inv' frame])
    show "device_tables copy m p' (table_cell ?p q j) = device_tables copy m ?p (table_cell ?p q j)"
      if "0 \<le> q" "q < table_row_count ?p" "j < unat (logical_page_capacity ?p)" "q \<noteq> ka_bound_row a'" for q j
      using eff [OF _ _ that(1-3)] that(4) by (simp add: dev)
    show "device_tables copy m p' (table_cell ?p (ka_bound_row a') j) = ka_page_ids a' ! j"
      if b: "0 \<le> ka_bound_row a'" and j: "j < length (ka_page_ids a')" for j
    proof (cases "unat first \<le> j")
      case True
      then show ?thesis using eff [OF b b b row [OF b], of j] b j len by (simp add: dev)
    next
      case False
      then have "ka_bound_row a' = ka_bound_row (kh_allocs h ! i)" "j < length (ka_page_ids (kh_allocs h ! i))"
        "ka_page_ids a' ! j = ka_page_ids (kh_allocs h ! i) ! j" using old [rule_format, of j] b by simp_all
      moreover have "alloc_published copy m (kh_pools h) (kh_allocs h ! i)" using pub i by (simp add: published_def)
      ultimately have "device_tables copy m ?p (table_cell ?p (ka_bound_row a') j) = ka_page_ids a' ! j"
        using k b by (simp add: alloc_published_def)
      then show ?thesis using eff [OF b b b row [OF b], of j] b j len False by (simp add: dev)
    qed
  qed
qed

lemma materialize_pages_published:
  assumes law: "table_copy_law copy" and reach: "kv_reachable h" and pub: "published copy m h"
    and i: "i < length (kh_allocs h)"
  shows "published copy m (fst (materialize_pages h i pages))"
proof (cases "ka_pool (kh_allocs h ! i) = None \<or> pages < mapped_page_count (kh_allocs h ! i) \<or>
    ka_page_entitlement (kh_allocs h ! i) < pages")
  case True
  then show ?thesis using pub by (simp add: materialize_pages_rejects)
next
  case False
  then obtain k where k: "ka_pool (kh_allocs h ! i) = Some k" by auto
  let ?a = "kh_allocs h ! i" and ?p = "kh_pools h ! k"
  note inv = kv_reachable_inv [OF reach]
  have range: "mapped_page_count ?a \<le> pages" "pages \<le> ka_page_entitlement ?a" using False by auto
  obtain h' acquired p' where r: "materialize_pages h i pages = (h', Inr ())" "heap_inv h'"
    "h' = kv_put h k p' i (?a\<lparr>ka_page_ids := ka_page_ids ?a @ acquired\<rparr>)"
    "length (ka_page_ids ?a @ acquired) = unat pages"
    "kp_spec p' = kp_spec ?p" "kp_block_tables p' = kp_block_tables ?p"
    "kp_table_writes p' = kp_table_writes ?p @ (if 0 \<le> ka_bound_row ?a
       then publish_writes ?p (?a\<lparr>ka_page_ids := ka_page_ids ?a @ acquired\<rparr>)
              (mapped_page_count ?a) (pages - mapped_page_count ?a) else [])"
    using materialize_pages_total [OF inv i k range] by blast
  note f = owned_facts [OF inv i k] and nz = reachable_tables_nonnull [OF reach owned_facts(1) [OF inv i k]]
  have cnt: "unat (mapped_page_count ?a) + unat (pages - mapped_page_count ?a)
      = length (ka_page_ids (?a\<lparr>ka_page_ids := ka_page_ids ?a @ acquired\<rparr>))"
    using range(1) r(4) by (simp add: unat_sub word_le_nat_alt)
  have "published copy m (kv_put h k p' i (?a\<lparr>ka_page_ids := ka_page_ids ?a @ acquired\<rparr>))"
    by (rule published_append [OF law inv pub i k _ _ _ r(5,6) _ cnt])
      (use nz f(1,3) k r(2,3,7) in \<open>simp_all add: nth_append\<close>)
  then show ?thesis by (simp add: r(1,3))
qed

lemma publish_mapping_published:
  assumes law: "table_copy_law copy" and reach: "kv_reachable h" and pub: "published copy m h"
    and i: "i < length (kh_allocs h)"
  shows "published copy m (fst (publish_mapping h i))"
proof (cases "0 \<le> ka_bound_row (kh_allocs h ! i)")
  case True
  note inv = kv_reachable_inv [OF reach]
  obtain k where k: "ka_pool (kh_allocs h ! i) = Some k" by (rule bound_is_owned [OF inv i True])
  note f = owned_facts [OF inv i k] and t = publish_mapping_total [OF inv i k True]
  note nz = reachable_tables_nonnull [OF reach f(1)]
  show ?thesis unfolding t(1) fst_conv
    by (rule published_append [OF law inv pub i k _ k t(2), of 0 "mapped_page_count (kh_allocs h ! i)"])
      (use nz f(1,3) True in simp_all)
qed (use pub in \<open>simp add: publish_mapping_def\<close>)

lemma bind_row_published:
  assumes law: "table_copy_law copy" and reach: "kv_reachable h" and pub: "published copy m h"
    and i: "i < length (kh_allocs h)"
  shows "published copy m (fst (bind_row h i row))"
proof (cases "\<exists>k. ka_pool (kh_allocs h ! i) = Some k \<and> ka_bound_row (kh_allocs h ! i) < 0 \<and> 0 \<le> row \<and>
    row < table_row_count (kh_pools h ! k) \<and> \<not> kp_row_in_use (kh_pools h ! k) ! nat row")
  case True
  then obtain k where k: "ka_pool (kh_allocs h ! i) = Some k" and b: "ka_bound_row (kh_allocs h ! i) < 0"
    and row: "0 \<le> row" "row < table_row_count (kh_pools h ! k)" "\<not> kp_row_in_use (kh_pools h ! k) ! nat row"
    by blast
  note inv = kv_reachable_inv [OF reach]
  note f = owned_facts [OF inv i k] and t = bind_row_total [OF inv i k b row]
  note nz = reachable_tables_nonnull [OF reach f(1)]
  have inv': "heap_inv (fst (bind_row h i row))" by (rule bind_row_inv [OF inv i])
  show ?thesis unfolding t fst_conv
    by (rule published_append [OF law inv pub i k _ _ inv' [unfolded t fst_conv], of 0 "mapped_page_count (kh_allocs h ! i)"])
      (use nz f(1,3) k row(1) in simp_all)
next
  case False
  then show ?thesis using pub by (auto simp: bind_row_def Let_def acquire_row_cases not_less split: option.splits)
qed

section \<open>Reachable heaps\<close>

lemma reachable_published_quiet:
  "kv_reachable h \<Longrightarrow> quiet_step h h' \<Longrightarrow> published copy m h \<Longrightarrow> published copy m h'"
  by (rule published_quiet [OF kv_reachable_inv])

lemma kv_reachable_published:
  assumes "kv_reachable h" and law: "table_copy_law copy"
  shows "published copy m h"
  using assms(1)
proof (induction rule: kv_reachable.induct)
  case (start ps)
  then show ?case by (simp add: published_def)
next
  case (null h)
  show ?case by (rule reachable_published_quiet [OF null(1) _ null(2)]) (rule quiet_step_allocs, auto)
next
  case (materialize h i n)
  show ?case by (rule materialize_pages_published [OF law materialize(1,3,2)])
next
  case (bind_op h i row)
  show ?case by (rule bind_row_published [OF law bind_op(1,3,2)])
next
  case (publish_op h i)
  show ?case by (rule publish_mapping_published [OF law publish_op(1,3,2)])
qed (erule reachable_published_quiet [rotated 2];
     (rule reserve_quiet set_page_entitlement_quiet cancel_quiet trim_pages_quiet unbind_row_quiet release_quiet
        move_construct_quiet move_assign_quiet reserve_bundle_quiet resize_bundle_quiet)?;
     (rule kv_reachable_inv)?; assumption)+

end
