(* ===== verification/Paged_KV_Properties.thy ===== *)
theory Paged_KV_Properties
  imports Paged_KV_Publish
begin

text \<open>
  The properties of the paged KV cache, each with an instance on a small planned pool.
\<close>

section \<open>A small pool\<close>

definition demo_spec :: pool_spec where
  "demo_spec =
     \<lparr>sp_page_group_count = 8, sp_logical_page_capacity = 6, sp_table_rows = 2,
      sp_plane_order = PageMajor,
      sp_planes = [\<lparr>ps_dtype = BF16, ps_leading_extent = 2, ps_head_extent = 1, ps_alignment = 256\<rparr>]\<rparr>"

definition demo_backing :: device_span where
  "demo_backing = \<lparr>span_data = 4096, span_bytes = 65536\<rparr>"

definition demo_pool :: paged_kv_pool where
  "demo_pool =
     \<lparr>kp_spec = demo_spec,
      kp_planes = [\<lparr>t_data = 4096, t_dtype = BF16, t_ne = [2, 64, 1, 8], t_nb = [2, 4, 256, 256]\<rparr>],
      kp_block_tables = \<lparr>t_data = 6144, t_dtype = I32, t_ne = [6, 2, 1, 1], t_nb = [4, 24, 48, 48]\<rparr>,
      kp_free_page_ids = [0, 1, 2, 3, 4, 5, 6, 7],
      kp_row_in_use = [False, False],
      kp_entitled_pages = 0, kp_mapped_pages = 0, kp_table_writes = []\<rparr>"

definition demo_heap :: kv_heap where
  "demo_heap = \<lparr>kh_pools = [demo_pool], kh_allocs = []\<rparr>"

text \<open>Two allocations of the pool, the first one bound to a row, both with mapped pages.\<close>

definition demo_run :: kv_heap where
  "demo_run =
     (let h1 = fst (reserve demo_heap 0 3); h2 = fst (reserve h1 0 4);
          h3 = fst (materialize_pages h2 0 2); h4 = fst (bind_row h3 0 1)
      in fst (materialize_pages h4 1 3))"

definition demo_resize :: "kv_resize list" where
  "demo_resize = [\<lparr>kz_allocation = Some 1, kz_mapped_pages = 1, kz_page_entitlement = 2\<rparr>]"

text \<open>A copy with the assumed effect.\<close>

definition demo_copy :: "table_write \<Rightarrow> table_memory \<Rightarrow> table_memory" where
  "demo_copy w m x =
     (let d = unat (x - tw_dst w) in
      if d mod 4 = 0 \<and> d div 4 < length (tw_ids w) then tw_ids w ! (d div 4) else m x)"

lemma demo_make:
  "(case plan_paged_kv_pool layout_builder_init demo_spec of (b, r) \<Rightarrow>
      bind_result r (make_pool demo_backing)) = Inr demo_pool"
  by code_simp

lemma demo_pool_planned: "planned_pool demo_pool"
proof -
  obtain b r where p: "plan_paged_kv_pool layout_builder_init demo_spec = (b, r)" by fastforce
  with demo_make have "bind_result r (make_pool demo_backing) = Inr demo_pool" by simp
  then obtain lay where "r = Inr lay" "make_pool demo_backing lay = Inr demo_pool"
    by (auto simp: bind_result_eq_Inr)
  moreover have "unat (span_data demo_backing) + unat (span_bytes demo_backing) \<le> 2 ^ 64"
    by (simp add: demo_backing_def)
  ultimately show ?thesis using p unfolding planned_pool_def by blast
qed

lemma demo_heap_reachable: "kv_reachable demo_heap"
  unfolding demo_heap_def by (rule kv_reachable.start) (simp add: demo_pool_planned)

lemma demo_lengths:
  "length (kh_allocs demo_run) = 2" "length (kh_pools demo_run) = 1"
  "ka_pool (kh_allocs demo_run ! 0) = Some 0" "ka_pool (kh_allocs demo_run ! Suc 0) = Some 0"
  by code_simp+

lemma demo_run_reachable: "kv_reachable demo_run"
  unfolding demo_run_def Let_def
proof (rule kv_reachable.materialize, rule kv_reachable.bind_op, rule kv_reachable.materialize,
    rule kv_reachable.reserve, rule kv_reachable.reserve)
qed (rule demo_heap_reachable | code_simp)+

section \<open>Ownership\<close>

text \<open>
  C1: In every reachable state of the paged KV cache a physical page has at most one owner. Two
  allocations of a pool never share a page or a block-table row; an allocation maps distinct
  pages of the pool, no more than its entitlement and none that is also free; and the pool's
  counters are exact: the entitlements sum up to \<^verbatim>\<open>entitled_pages\<close>, which never exceeds the
  page-group count, and the free and the mapped pages are all the pages there are.
\<close>

theorem paged_pages_owned_once:
  assumes "kv_reachable h" and "k < length (kh_pools h)"
  shows "(\<forall>i j. i < length (kh_allocs h) \<and> j < length (kh_allocs h) \<and> i \<noteq> j \<and>
             ka_pool (kh_allocs h ! i) = Some k \<and> ka_pool (kh_allocs h ! j) = Some k \<longrightarrow>
             set (ka_page_ids (kh_allocs h ! i)) \<inter> set (ka_page_ids (kh_allocs h ! j)) = {} \<and>
             (ka_bound_row (kh_allocs h ! i) = ka_bound_row (kh_allocs h ! j) \<longrightarrow>
              ka_bound_row (kh_allocs h ! i) = - 1)) \<and>
         (\<forall>i. i < length (kh_allocs h) \<and> ka_pool (kh_allocs h ! i) = Some k \<longrightarrow>
             distinct (ka_page_ids (kh_allocs h ! i)) \<and>
             length (ka_page_ids (kh_allocs h ! i)) \<le> unat (ka_page_entitlement (kh_allocs h ! i)) \<and>
             set (ka_page_ids (kh_allocs h ! i)) \<subseteq> {0..<int (unat (page_group_count (kh_pools h ! k)))} \<and>
             set (ka_page_ids (kh_allocs h ! i)) \<inter> set (kp_free_page_ids (kh_pools h ! k)) = {}) \<and>
         unat (kp_entitled_pages (kh_pools h ! k))
           = (\<Sum>a\<leftarrow>filter (\<lambda>a. ka_pool a = Some k) (kh_allocs h). unat (ka_page_entitlement a)) \<and>
         unat (kp_entitled_pages (kh_pools h ! k)) \<le> unat (page_group_count (kh_pools h ! k)) \<and>
         length (kp_free_page_ids (kh_pools h ! k)) + unat (kp_mapped_pages (kh_pools h ! k))
           = unat (page_group_count (kh_pools h ! k))"
proof -
  note inv = kv_reachable_inv [OF assms(1)]
  show ?thesis
    using heap_pages_disjoint [OF inv assms(2)] heap_rows_exclusive [OF inv assms(2)]
      heap_pages_in_pool [OF inv assms(2)] heap_pool_counters [OF inv assms(2)] by blast
qed

theorem paged_pages_owned_once_witness:
  "set (ka_page_ids (kh_allocs demo_run ! 0)) \<inter> set (ka_page_ids (kh_allocs demo_run ! 1)) = {} \<and>
   map ka_page_ids (kh_allocs demo_run) = [[0, 1], [2, 3, 4]] \<and>
   unat (kp_entitled_pages (kh_pools demo_run ! 0)) = 7"
proof -
  have "0 < length (kh_pools demo_run)" by (simp add: demo_lengths)
  from paged_pages_owned_once [OF demo_run_reachable this, THEN conjunct1, rule_format, of 0 1]
  have "set (ka_page_ids (kh_allocs demo_run ! 0)) \<inter> set (ka_page_ids (kh_allocs demo_run ! 1)) = {}"
    by (simp add: demo_lengths)
  moreover have "map ka_page_ids (kh_allocs demo_run) = [[0, 1], [2, 3, 4]]"
    and "unat (kp_entitled_pages (kh_pools demo_run ! 0)) = 7" by code_simp+
  ultimately show ?thesis by blast
qed

section \<open>The device's view\<close>

lemma demo_copy_law: "table_copy_law demo_copy"
  unfolding table_copy_law_def
proof (intro allI impI conjI)
  fix w :: table_write and m :: table_memory and n
  assume small: "4 * length (tw_ids w) \<le> 2 ^ 64" and n: "n < length (tw_ids w)"
  have "unat (4 * of_nat n :: u64) = 4 * n"
    using unat_of_nat [of "4 * n", where 'a = 64] small n by (simp add: take_bit_nat_eq_self)
  then show "demo_copy w m (tw_dst w + 4 * of_nat n) = tw_ids w ! n" using n by (simp add: demo_copy_def)
next
  fix w :: table_write and m :: table_memory and x
  assume other: "\<forall>n<length (tw_ids w). x \<noteq> tw_dst w + 4 * of_nat n"
  define n where "n = unat (x - tw_dst w) div 4"
  have "x = tw_dst w + 4 * of_nat n" if "unat (x - tw_dst w) mod 4 = 0"
  proof -
    have "unat (x - tw_dst w) = 4 * n" using that unfolding n_def by presburger
    then have "of_nat (unat (x - tw_dst w)) = (of_nat (4 * n) :: u64)" by (rule arg_cong)
    then show ?thesis by (simp add: algebra_simps)
  qed
  then show "demo_copy w m x = m x" using other by (auto simp: demo_copy_def n_def [symmetric] Let_def)
qed

text \<open>
  C11: The device always reads the mapping the host holds. In every reachable state, and for
  every memory copy that writes the ids it is given and nothing else, the block-table row of a
  bound allocation lists the allocation's pages in order: binding publishes them, mapping more
  pages publishes the new ones, and no publication of another allocation touches the row.
\<close>

theorem block_tables_published:
  assumes "kv_reachable h" and "table_copy_law copy"
    and "i < length (kh_allocs h)" and "ka_pool (kh_allocs h ! i) = Some k"
    and "0 \<le> ka_bound_row (kh_allocs h ! i)" and "n < length (ka_page_ids (kh_allocs h ! i))"
  shows "device_tables copy m (kh_pools h ! k)
           (table_cell (kh_pools h ! k) (ka_bound_row (kh_allocs h ! i)) n)
         = ka_page_ids (kh_allocs h ! i) ! n"
  using kv_reachable_published [OF assms(1,2), of m] assms(3-6)
  by (simp add: published_def alloc_published_def)

theorem block_tables_published_witness:
  "device_tables demo_copy (\<lambda>_. 0) (kh_pools demo_run ! 0) (table_cell (kh_pools demo_run ! 0) 1 1) = 1"
proof -
  have f: "ka_bound_row (kh_allocs demo_run ! 0) = 1" "ka_page_ids (kh_allocs demo_run ! 0) = [0, 1]"
    by code_simp+
  have "0 < length (kh_allocs demo_run)" by (simp add: demo_lengths)
  from block_tables_published [OF demo_run_reachable demo_copy_law this demo_lengths(3), of 1 "\<lambda>_. 0"]
  show ?thesis by (simp add: f)
qed

section \<open>Mapping pages\<close>

text \<open>
  C12: In every reachable state, materializing any number of pages between the mapped count and
  the entitlement of an allocation succeeds: the pool always has the pages, so the source's
  \<^verbatim>\<open>logic_error\<close> for an entitlement that could not be materialized is unreachable. The
  already mapped pages keep their positions, exactly the requested number is mapped afterwards,
  the new ones were free, and every other allocation is untouched. A request outside that range
  is refused without any change.
\<close>

theorem materialize_within_entitlement:
  assumes "kv_reachable h" and "i < length (kh_allocs h)" and "ka_pool (kh_allocs h ! i) = Some k"
  shows "if mapped_page_count (kh_allocs h ! i) \<le> pages \<and> pages \<le> ka_page_entitlement (kh_allocs h ! i)
    then \<exists>h' acquired. materialize_pages h i pages = (h', Inr ()) \<and>
      ka_page_ids (kh_allocs h' ! i) = ka_page_ids (kh_allocs h ! i) @ acquired \<and>
      length (ka_page_ids (kh_allocs h' ! i)) = unat pages \<and>
      set acquired \<subseteq> set (kp_free_page_ids (kh_pools h ! k)) \<and>
      (\<forall>j. j \<noteq> i \<longrightarrow> kh_allocs h' ! j = kh_allocs h ! j)
    else materialize_pages h i pages = (h, Inl Invalid_argument)"
proof (cases "mapped_page_count (kh_allocs h ! i) \<le> pages \<and> pages \<le> ka_page_entitlement (kh_allocs h ! i)")
  case True
  from materialize_pages_total [OF kv_reachable_inv [OF assms(1)] assms(2,3)] True
  obtain h' acquired p' where "materialize_pages h i pages = (h', Inr ())"
    "h' = kv_put h k p' i ((kh_allocs h ! i)\<lparr>ka_page_ids := ka_page_ids (kh_allocs h ! i) @ acquired\<rparr>)"
    "length (ka_page_ids (kh_allocs h ! i) @ acquired) = unat pages"
    "set acquired \<subseteq> set (kp_free_page_ids (kh_pools h ! k))" by blast
  then show ?thesis using True assms(2) by auto
next
  case False
  then show ?thesis using materialize_pages_rejects [of h i pages] by (auto simp: not_le)
qed

theorem materialize_within_entitlement_witness:
  "\<exists>h' acquired. materialize_pages demo_run 0 3 = (h', Inr ()) \<and>
     ka_page_ids (kh_allocs h' ! 0) = [0, 1] @ acquired \<and>
     length (ka_page_ids (kh_allocs h' ! 0)) = 3"
proof -
  have r: "mapped_page_count (kh_allocs demo_run ! 0) \<le> 3 \<and> 3 \<le> ka_page_entitlement (kh_allocs demo_run ! 0)"
    and ids: "ka_page_ids (kh_allocs demo_run ! 0) = [0, 1]" by code_simp+
  have "0 < length (kh_allocs demo_run)" by (simp add: demo_lengths)
  from materialize_within_entitlement [OF demo_run_reachable this demo_lengths(3), of 3]
  show ?thesis unfolding if_P [OF r] ids by auto
qed

text \<open>
  C36: Page selection keeps mappings contiguous. For a sorted list of distinct free pages,
  taking \<open>n > 0\<close> of them returns the \<open>n\<close> pages from the preferred first page on when all of
  these are free; otherwise, when some \<open>n\<close> consecutive pages are free, it returns the lowest
  such run; otherwise the \<open>n\<close> lowest free pages. What is returned leaves the free list.
\<close>

theorem take_pages_prefers_runs:
  assumes "sorted (kp_free_page_ids p)" and "distinct (kp_free_page_ids p)"
    and "0 < unat n" and "unat n \<le> length (kp_free_page_ids p)"
  shows "\<exists>ids p'. take_pages p n pref = Inr (ids, p') \<and>
    (if 0 \<le> pref \<and> {pref..<pref + int (unat n)} \<subseteq> set (kp_free_page_ids p)
     then ids = [pref..pref + int (unat n) - 1]
     else if \<exists>f. {f..<f + int (unat n)} \<subseteq> set (kp_free_page_ids p)
     then \<exists>f. ids = [f..f + int (unat n) - 1] \<and> (\<forall>f' < f. \<not> {f'..<f' + int (unat n)} \<subseteq> set (kp_free_page_ids p))
     else ids = take (unat n) (kp_free_page_ids p)) \<and>
    mset ids + mset (kp_free_page_ids p') = mset (kp_free_page_ids p)"
proof -
  let ?free = "kp_free_page_ids p" and ?n = "unat n"
  let ?b = "case select_run ?free ?n pref of Some b \<Rightarrow> b | None \<Rightarrow> 0"
  let ?p' = "p\<lparr>kp_free_page_ids := take ?b ?free @ drop (?b + ?n) ?free, kp_mapped_pages := kp_mapped_pages p + n\<rparr>"
  have nz: "n \<noteq> 0" using assms(3) by auto
  have t: "take_pages p n pref = Inr (take ?n (drop ?b ?free), ?p')"
    using nz assms(4) by (simp add: take_pages_def Let_def)
  have "?b + ?n \<le> length ?free" using assms(4) by (auto split: option.split dest: select_run_at run_atD)
  from take_pages_split(1) [OF this]
  have ms: "mset (take ?n (drop ?b ?free)) + mset (kp_free_page_ids ?p') = mset ?free"
    by (simp add: ac_simps)
  show ?thesis using select_run_spec [OF assms(1-3) refl, of pref] t ms by blast
qed

theorem take_pages_prefers_runs_witness:
  "\<exists>ids p'. take_pages (demo_pool\<lparr>kp_free_page_ids := [0, 2, 3, 5, 6, 7]\<rparr>) 2 6 = Inr (ids, p') \<and>
     ids = [6..7]"
proof -
  let ?p = "demo_pool\<lparr>kp_free_page_ids := [0, 2, 3, 5, 6, 7]\<rparr>"
  have "sorted (kp_free_page_ids ?p)" "distinct (kp_free_page_ids ?p)" "0 < unat (2 :: u32)"
    "unat (2 :: u32) \<le> length (kp_free_page_ids ?p)" by simp_all
  from take_pages_prefers_runs [OF this, of 6]
  have "\<exists>ids p'. take_pages ?p 2 6 = Inr (ids, p') \<and>
      (if 0 \<le> (6 :: int) \<and> {6..<6 + int (unat (2 :: u32))} \<subseteq> {0, 2, 3, 5, 6, 7} then ids = [6..6 + int (unat (2 :: u32)) - 1] else True)"
    by (auto split: if_splits)
  moreover have "{6..<6 + int (unat (2 :: u32))} \<subseteq> {0, 2, 3, 5, 6, 7}" by auto
  ultimately show ?thesis by auto
qed

section \<open>Bundles and lifetimes\<close>

text \<open>
  C18: \<^verbatim>\<open>resize_paged_kv_bundle\<close> is atomic. From a reachable state it either throws and leaves
  every pool and allocation exactly as it was, or it gives every named allocation the first
  \<^verbatim>\<open>mapped_pages\<close> of its pages and the new entitlement and leaves all others alone; an exception
  after the first change is impossible.
\<close>

theorem resize_bundle_atomic:
  assumes "kv_reachable h"
    and "\<forall>c \<in> set cs. \<forall>i. kz_allocation c = Some i \<longrightarrow> i < length (kh_allocs h)"
  shows "(\<exists>e. resize_paged_kv_bundle h cs = (h, Inl e)) \<or>
    (\<exists>h'. resize_paged_kv_bundle h cs = (h', Inr ()) \<and>
      (\<forall>c\<in>set cs. kh_allocs h' ! the (kz_allocation c) = (kh_allocs h ! the (kz_allocation c))
         \<lparr>ka_page_ids := take (unat (kz_mapped_pages c)) (ka_page_ids (kh_allocs h ! the (kz_allocation c))),
          ka_page_entitlement := kz_page_entitlement c\<rparr>) \<and>
      (\<forall>j. Some j \<notin> kz_allocation ` set cs \<longrightarrow> kh_allocs h' ! j = kh_allocs h ! j))"
  using resize_bundle_cases [OF kv_reachable_inv [OF assms(1)] assms(2)] by blast

theorem resize_bundle_atomic_witness:
  "\<exists>h'. resize_paged_kv_bundle demo_run demo_resize = (h', Inr ()) \<and>
     kh_allocs h' ! 0 = kh_allocs demo_run ! 0 \<and> ka_page_entitlement (kh_allocs h' ! 1) = 2"
proof -
  have "\<forall>c \<in> set demo_resize. \<forall>i. kz_allocation c = Some i \<longrightarrow> i < length (kh_allocs demo_run)"
    by (simp add: demo_resize_def demo_lengths)
  from resize_bundle_atomic [OF demo_run_reachable this]
  have "\<exists>h'. resize_paged_kv_bundle demo_run demo_resize = (h', Inr ()) \<and>
      (\<forall>c\<in>set demo_resize. ka_page_entitlement (kh_allocs h' ! the (kz_allocation c)) = kz_page_entitlement c) \<and>
      (\<forall>j. Some j \<notin> kz_allocation ` set demo_resize \<longrightarrow> kh_allocs h' ! j = kh_allocs demo_run ! j)"
  proof
    assume "\<exists>e. resize_paged_kv_bundle demo_run demo_resize = (demo_run, Inl e)"
    moreover have "snd (resize_paged_kv_bundle demo_run demo_resize) = Inr ()" by code_simp
    ultimately show ?thesis by auto
  qed auto
  then show ?thesis by (auto simp: demo_resize_def)
qed

text \<open>
  C19: \<^verbatim>\<open>reserve_paged_kv_bundle\<close> reserves every requested pool or leaves all pools unchanged: from
  a reachable state it either throws with nothing changed, or returns one fresh allocation per
  request, in order, with the requested entitlement and no pages; the unwinding of a half-built
  bundle never happens.
\<close>

theorem reserve_bundle_atomic:
  assumes "kv_reachable h"
    and "\<forall>r \<in> set rs. \<forall>k. kr_pool r = Some k \<longrightarrow> k < length (kh_pools h)"
  shows "(\<exists>e. reserve_paged_kv_bundle h rs = (h, Inl e)) \<or>
    (\<exists>h'. reserve_paged_kv_bundle h rs
            = (h', Inr [length (kh_allocs h)..<length (kh_allocs h) + length rs]) \<and>
      kh_allocs h' = kh_allocs h @ map (\<lambda>r. \<lparr>ka_pool = kr_pool r, ka_page_ids = [],
        ka_page_entitlement = kr_page_entitlement r, ka_bound_row = - 1\<rparr>) rs)"
  using reserve_bundle_cases [OF kv_reachable_inv [OF assms(1)] assms(2)] by blast

theorem reserve_bundle_atomic_witness:
  "\<exists>h'. reserve_paged_kv_bundle demo_heap [\<lparr>kr_pool = Some 0, kr_page_entitlement = 5\<rparr>] = (h', Inr [0]) \<and>
     map ka_page_entitlement (kh_allocs h') = [5]"
proof -
  let ?rs = "[\<lparr>kr_pool = Some 0, kr_page_entitlement = 5\<rparr>] :: kv_reservation list"
  have "\<forall>r \<in> set ?rs. \<forall>k. kr_pool r = Some k \<longrightarrow> k < length (kh_pools demo_heap)"
    by (simp add: demo_heap_def)
  from reserve_bundle_atomic [OF demo_heap_reachable this]
  show ?thesis
  proof
    assume "\<exists>e. reserve_paged_kv_bundle demo_heap ?rs = (demo_heap, Inl e)"
    moreover have "snd (reserve_paged_kv_bundle demo_heap ?rs) = Inr [0]" by code_simp
    ultimately show ?thesis by auto
  qed (auto simp: demo_heap_def)
qed

text \<open>
  C37: Nothing leaks. In a reachable state in which every allocation has been released or moved
  from, each pool is back to its initial accounts: all pages are free in ascending order,
  nothing is entitled or mapped and no block-table row is in use.
\<close>

theorem released_pool_is_fresh:
  assumes "kv_reachable h" and "k < length (kh_pools h)"
    and "\<forall>a \<in> set (kh_allocs h). ka_pool a = None"
  shows "kp_free_page_ids (kh_pools h ! k) = map int [0..<unat (page_group_count (kh_pools h ! k))] \<and>
    kp_entitled_pages (kh_pools h ! k) = 0 \<and> kp_mapped_pages (kh_pools h ! k) = 0 \<and>
    kp_row_in_use (kh_pools h ! k) = replicate (nat (table_row_count (kh_pools h ! k))) False"
  by (rule heap_all_null [OF kv_reachable_inv [OF assms(1)] assms(2,3)])

theorem released_pool_is_fresh_witness:
  "kp_free_page_ids (kh_pools (release_allocation (release_allocation demo_run 0) 1) ! 0)
     = [0, 1, 2, 3, 4, 5, 6, 7]"
proof -
  let ?h = "release_allocation (release_allocation demo_run 0) 1"
  have l: "length (kh_allocs (release_allocation demo_run 0)) = 2" "length (kh_pools ?h) = 1"
    and nul: "list_all (\<lambda>a. ka_pool a = None) (kh_allocs ?h)" by code_simp+
  have "kv_reachable ?h"
    by (intro kv_reachable.release demo_run_reachable) (simp_all add: l demo_lengths)
  moreover have "0 < length (kh_pools ?h)" using l by simp
  moreover have "\<forall>a \<in> set (kh_allocs ?h). ka_pool a = None" using nul by (simp add: list_all_iff)
  ultimately have "kp_free_page_ids (kh_pools ?h ! 0)
      = map int [0..<unat (page_group_count (kh_pools ?h ! 0))]"
    using released_pool_is_fresh [of ?h 0] by blast
  moreover have "unat (page_group_count (kh_pools ?h ! 0)) = 8" by code_simp
  ultimately show ?thesis by (simp add: upt_rec)
qed

end
