(* ===== verification/Paged_KV_Roundtrip.thy ===== *)
theory Paged_KV_Roundtrip
  imports Paged_KV_Image Paged_KV_Properties
begin

text \<open>
  Packing pages into a host image and unpacking them again, copies between allocations, and
  single logical pages: what the transfers do to memory, for every copy with the documented law.
\<close>

section \<open>Definitions\<close>

text \<open>A copy with the documented law, for instances.\<close>

definition demo_memcpy :: "copy_cmd \<Rightarrow> memory \<Rightarrow> memory" where
  "demo_memcpy c m = (\<lambda>x. case map_of (cmd_bytes c) x of None \<Rightarrow> m x | Some s \<Rightarrow> m s)"

text \<open>A buffer that does not wrap around and lies outside the planes of a pool.\<close>

definition image_apart :: "paged_kv_pool \<Rightarrow> u64 \<Rightarrow> nat \<Rightarrow> bool" where
  "image_apart p dst size_bytes \<longleftrightarrow>
     unat dst + size_bytes \<le> 2 ^ 64 \<and>
     (\<forall>t \<in> set (kp_planes p). unat dst + size_bytes \<le> unat (t_data t) \<or>
        unat (t_data t) + unat (page_group_count p) * page_bytes (sp_plane_order (kp_spec p)) t \<le> unat dst)"

lemma demo_memcpy_law: "byte_copy_law demo_memcpy"
  by (simp add: byte_copy_law_def demo_memcpy_def)

section \<open>Commands in sequence\<close>

lemma fold_copy:
  assumes law: "byte_copy_law copy"
  shows "distinct (map fst (bytes_of cs)) \<Longrightarrow> fst ` set (bytes_of cs) \<inter> snd ` set (bytes_of cs) = {} \<Longrightarrow>
    fold copy cs m x = (case map_of (bytes_of cs) x of None \<Rightarrow> m x | Some s \<Rightarrow> m s)"
proof (induction cs arbitrary: m)
  case (Cons c cs)
  let ?b = "cmd_bytes c" and ?r = "bytes_of cs"
  have d: "distinct (map fst ?b)" "distinct (map fst ?r)" "fst ` set ?b \<inter> fst ` set ?r = {}"
    using Cons.prems(1) by simp_all
  have dis: "fst ` set ?b \<inter> snd ` set ?b = {}" "fst ` set ?r \<inter> snd ` set ?r = {}"
    "fst ` set ?b \<inter> snd ` set ?r = {}" using Cons.prems(2) by auto
  have c: "copy c m y = (case map_of ?b y of None \<Rightarrow> m y | Some s \<Rightarrow> m s)" for y
    using law d(1) dis(1) by (simp add: byte_copy_law_def)
  have "fold copy cs (copy c m) x = (case map_of ?r x of None \<Rightarrow> copy c m x | Some s \<Rightarrow> copy c m s)"
    by (rule Cons.IH [OF d(2) dis(2)])
  also have "\<dots> = (case map_of (?b @ ?r) x of None \<Rightarrow> m x | Some s \<Rightarrow> m s)"
  proof (cases "map_of ?r x")
    case None
    then show ?thesis by (simp add: c map_of_append map_add_def split: option.split)
  next
    case (Some s)
    then have xs: "(x, s) \<in> set ?r" by (rule map_of_SomeD)
    then have "s \<notin> fst ` set ?b" using dis(3) by force
    then have "copy c m s = m s" by (simp add: c map_of_eq_None_iff [symmetric])
    moreover have "x \<notin> fst ` set ?b" using xs d(3) by force
    then have "map_of ?b x = None" by (simp add: map_of_eq_None_iff)
    ultimately show ?thesis using Some by (simp add: map_of_append map_add_def)
  qed
  finally show ?case by simp
qed simp

lemma fold_copy_hit:
  assumes "byte_copy_law copy" and "distinct (map fst (bytes_of cs))"
    and "fst ` set (bytes_of cs) \<inter> snd ` set (bytes_of cs) = {}" and "(d, s) \<in> set (bytes_of cs)"
  shows "fold copy cs m d = m s"
  using fold_copy [OF assms(1-3)] map_of_is_SomeI [OF assms(2,4)] by simp

lemma fold_copy_miss:
  assumes "byte_copy_law copy" and "distinct (map fst (bytes_of cs))"
    and "fst ` set (bytes_of cs) \<inter> snd ` set (bytes_of cs) = {}" and "x \<notin> fst ` set (bytes_of cs)"
  shows "fold copy cs m x = m x"
proof -
  have "map_of (bytes_of cs) x = None" using assms(4) by (simp add: map_of_eq_None_iff)
  then show ?thesis using fold_copy [OF assms(1-3)] by simp
qed

section \<open>Unpacking\<close>

lemma unpack_planes_bytes:
  assumes "\<forall>t \<in> set planes. plane_wf order P t" and ids: "\<forall>p \<in> set pages. 0 \<le> p"
    and "image_size order (unat n) planes < 2 ^ 64" and ext: "unat ext \<le> length pages" "ext \<le> n"
  shows "\<exists>cs. unpack_planes order pages src n ext planes = (cs, Inr ()) \<and>
    bytes_of cs = map prod.swap (at_image src (image_map order (unat n) 0 (take (unat ext) pages) planes))"
  using assms(1,3)
proof (induction planes arbitrary: src)
  case (Cons t ts)
  let ?B = "page_bytes order t" and ?n = "unat n" and ?ids = "take (unat ext) pages"
  have wf: "plane_wf order P t" using Cons.prems(1) by simp
  have size: "?n * ?B + image_size order ?n ts < 2 ^ 64"
    using Cons.prems(2) by (simp add: image_size_def algebra_simps)
  have len: "length ?ids = unat ext" using ext(1) by simp
  have "unat ext * ?B \<le> ?n * ?B" using ext(2) by (intro mult_right_mono) (simp_all add: word_le_nat_alt)
  then have small: "length ?ids * ?B < 2 ^ 64" using size unfolding len by linarith
  have rest: "image_size order ?n ts < 2 ^ 64" using size by linarith
  have nn: "(of_nat (?n * ?B) :: u64) = ucast n * of_nat ?B" by simp
  obtain cs where cs: "unpack_planes order pages (src + of_nat (?n * ?B)) n ext ts = (cs, Inr ())"
    "bytes_of cs = map prod.swap (at_image (src + of_nat (?n * ?B)) (image_map order ?n 0 ?ids ts))"
    using Cons.IH [of "src + of_nat (?n * ?B)"] Cons.prems(1) rest by auto
  define c1 where "c1 = (if order = PageMajor
      then pack_page_major_pages src (t_data t) (nb t 3) (of_nat ?B) ?ids 0
      else map (\<lambda>i. memcpy_2d (src + of_nat i * of_nat ?B) (word_of_int (nb t 2))
                      (page_at (t_data t) (?ids ! i) (nb t 2)) (word_of_int (nb t 3))
                      (word_of_int (nb t 2)) (word_of_int (ne t 3))) [0..<length ?ids])"
  have ids': "\<forall>p \<in> set ?ids. 0 \<le> p" using ids by (auto dest: in_set_takeD)
  have c1: "bytes_of c1 = at_image src (plane_image order t 0 ?ids)"
    unfolding c1_def by (rule pack_plane_bytes [OF wf ids' small])
  have sw: "(if order = PageMajor
      then unpack_page_major_pages (t_data t) (nb t 3) (of_nat ?B) src pages (unat ext) 0
      else map (\<lambda>i. memcpy_2d (page_at (t_data t) (pages ! i) (nb t 2)) (word_of_int (nb t 3))
                      (src + of_nat i * of_nat ?B) (word_of_int (nb t 2)) (word_of_int (nb t 2))
                      (word_of_int (ne t 3))) [0..<unat ext]) = map swap_cmd c1"
    using unpack_is_pack [OF ext(1)] ext(1) by (simp add: c1_def o_def)
  have "unpack_planes order pages src n ext (t # ts) = (map swap_cmd c1 @ cs, Inr ())"
    using cs(1) sw by (simp add: plane_page_bytes_wf [OF wf] Let_def nn)
  moreover have "image_map order ?n (?n * ?B) ?ids ts = map (\<lambda>(x, s). (?n * ?B + x, s)) (image_map order ?n 0 ?ids ts)"
    using image_map_shift [of order ?n "?n * ?B" 0 ?ids ts] by simp
  then have "bytes_of (map swap_cmd c1 @ cs) = map prod.swap (at_image src (image_map order ?n 0 ?ids (t # ts)))"
    unfolding image_map_Cons map_append concat_append bytes_of_swap c1 cs(2) at_image_shift by simp
  ultimately show ?case by blast
qed simp

section \<open>Image sizes\<close>

lemma image_bytes_loop_eq:
  assumes "\<forall>t \<in> set planes. plane_wf order P t"
  shows "image_bytes_loop order n acc planes =
    (if unat acc + image_size order (unat n) planes < 2 ^ 64
     then Inr (of_nat (unat acc + image_size order (unat n) planes)) else Inl Overflow_error)"
  using assms
proof (induction planes arbitrary: acc)
  case Nil
  then show ?case by (simp add: image_size_def)
next
  case (Cons t ts)
  let ?B = "page_bytes order t" and ?n = "unat n"
  have wf: "plane_wf order P t" using Cons.prems by simp
  have uB: "unat (of_nat ?B :: u64) = ?B"
    unfolding unat_of_nat using page_bytes_small [OF wf] by (simp add: take_bit_nat_eq_self)
  have un: "unat (ucast n :: u64) = ?n" by simp
  have n0: "n \<noteq> 0 \<longleftrightarrow> (ucast n :: u64) \<noteq> 0" by (simp flip: unat_eq_0 add: un)
  have size: "image_size order ?n (t # ts) = ?B * ?n + image_size order ?n ts"
    by (simp add: image_size_def algebra_simps)
  have t1: "(n \<noteq> 0 \<and> (of_nat ?B :: u64) > (- 1) div ucast n) \<longleftrightarrow> 2 ^ 64 \<le> ?B * ?n"
    unfolding n0 mult_overflow_test uB un by simp
  show ?case
  proof (cases "2 ^ 64 \<le> ?B * ?n")
    case True
    then have "\<not> unat acc + image_size order ?n (t # ts) < 2 ^ 64" unfolding size by linarith
    then show ?thesis using True t1 by (simp add: plane_page_bytes_wf [OF wf])
  next
    case False
    define pb where "pb = (of_nat ?B * ucast n :: u64)"
    have pb: "unat pb = ?B * ?n"
      using unat_mult_no_overflow [of "of_nat ?B :: u64" "ucast n"] False unfolding uB un pb_def by simp
    have t2: "acc > - 1 - pb \<longleftrightarrow> 2 ^ 64 \<le> ?B * ?n + unat acc" unfolding add_overflow_test pb by simp
    have step: "image_bytes_loop order n acc (t # ts) =
        (if acc > - 1 - pb then Inl Overflow_error else image_bytes_loop order n (acc + pb) ts)"
      using t1 False by (auto simp: plane_page_bytes_wf [OF wf] pb_def)
    show ?thesis
    proof (cases "2 ^ 64 \<le> ?B * ?n + unat acc")
      case True
      then have "\<not> unat acc + image_size order ?n (t # ts) < 2 ^ 64" unfolding size by linarith
      then show ?thesis using True unfolding step t2 by simp
    next
      case no: False
      have "unat (acc + pb) = unat acc + unat pb" by (rule unat_add_no_overflow) (use no pb in simp)
      then have s: "unat (acc + pb) + image_size order ?n ts = unat acc + image_size order ?n (t # ts)"
        unfolding size pb by simp
      have IH: "image_bytes_loop order n (acc + pb) ts =
         (if unat (acc + pb) + image_size order ?n ts < 2 ^ 64
          then Inr (of_nat (unat (acc + pb) + image_size order ?n ts)) else Inl Overflow_error)"
        using Cons.prems by (intro Cons.IH) simp
      show ?thesis using no unfolding step t2 IH s by (simp only: if_False)
    qed
  qed
qed

lemma host_image_bytes_eq:
  assumes "\<forall>t \<in> set (kp_planes p). plane_wf (sp_plane_order (kp_spec p)) P t"
    and "paged_kv_host_image_bytes p n = Inr total_bytes"
  shows "unat total_bytes = image_size (sp_plane_order (kp_spec p)) (unat n) (kp_planes p)"
proof -
  let ?s = "image_size (sp_plane_order (kp_spec p)) (unat n) (kp_planes p)"
  have "?s < 2 ^ 64 \<and> total_bytes = of_nat ?s"
    using assms(2) unfolding paged_kv_host_image_bytes_def image_bytes_loop_eq [OF assms(1)]
    by (simp split: if_splits)
  moreover have "unat (of_nat ?s :: u64) = ?s" if "?s < 2 ^ 64"
    using that unfolding unat_of_nat by (simp add: take_bit_nat_eq_self)
  ultimately show ?thesis by blast
qed

section \<open>Images in memory\<close>

lemma unat_image_byte:
  fixes dst :: u64
  assumes "unat dst + size_bytes \<le> 2 ^ 64" and "off < size_bytes"
  shows "unat (dst + of_nat off) = unat dst + off"
proof -
  have b: "unat dst + off < 2 ^ 64" using assms by linarith
  then have "off < 2 ^ 64" by linarith
  then have u: "unat (of_nat off :: u64) = off" unfolding unat_of_nat by (simp add: take_bit_nat_eq_self)
  have "unat (dst + of_nat off) = unat dst + unat (of_nat off :: u64)"
    by (rule unat_add_no_overflow) (use b u in simp)
  then show ?thesis unfolding u .
qed

lemma image_byte_not_plane_byte:
  assumes wf: "plane_wf (sp_plane_order (kp_spec p)) (unat (page_group_count p)) t" and t: "t \<in> set (kp_planes p)"
    and apart: "image_apart p dst size_bytes" and off: "off < size_bytes"
    and page: "0 \<le> page" "page < int (unat (page_group_count p))"
    and x: "x < page_bytes (sp_plane_order (kp_spec p)) t"
  shows "dst + of_nat off \<noteq> plane_byte (sp_plane_order (kp_spec p)) t page x"
proof
  let ?order = "sp_plane_order (kp_spec p)" and ?P = "unat (page_group_count p)"
  assume eq: "dst + of_nat off = plane_byte ?order t page x"
  have "unat (dst + of_nat off) = unat dst + off"
    by (rule unat_image_byte [OF _ off]) (use apart in \<open>simp add: image_apart_def\<close>)
  moreover have "unat (plane_byte ?order t page x) = unat (t_data t) + plane_offset ?order t (nat page) x"
    by (rule unat_plane_byte [OF wf page x])
  moreover have "plane_offset ?order t (nat page) x < ?P * page_bytes ?order t"
    by (rule plane_offset_bound [OF wf _ x]) (use page in linarith)
  moreover have "unat dst + size_bytes \<le> unat (t_data t) \<or> unat (t_data t) + ?P * page_bytes ?order t \<le> unat dst"
    using apart t by (auto simp: image_apart_def)
  ultimately show False using eq off by (elim disjE) simp_all
qed

text \<open>The byte pairs of an image: no address is both in the image and in a plane, and none occurs twice.\<close>

lemma image_pairs_ok:
  fixes p :: paged_kv_pool
  defines "order \<equiv> sp_plane_order (kp_spec p)" and "P \<equiv> unat (page_group_count p)"
  assumes wf: "\<forall>t \<in> set (kp_planes p). plane_wf order P t" and planes: "planes_apart order P 0 (kp_planes p)"
    and ids: "distinct ids" "\<forall>q \<in> set ids. 0 \<le> q \<and> q < int P" "length ids \<le> n"
    and apart: "image_apart p dst (image_size order n (kp_planes p))"
  defines "bs \<equiv> at_image dst (image_map order n 0 ids (kp_planes p))"
  shows "distinct (map fst bs)" and "distinct (map snd bs)" and "fst ` set bs \<inter> snd ` set bs = {}"
proof -
  let ?L = "image_map order n 0 ids (kp_planes p)" and ?size = "image_size order n (kp_planes p)"
  have d: "distinct (map fst ?L)" "distinct (map snd ?L)" by (rule distinct_image_map [OF wf planes ids])+
  have bound: "o1 < ?size" if "(o1, s) \<in> set ?L" for o1 s using image_map_bound [OF that ids(3)] by simp
  have inj: "o1 = o2" if "o1 < ?size" "o2 < ?size" "dst + of_nat o1 = dst + of_nat o2" for o1 o2
  proof -
    have w: "unat dst + ?size \<le> 2 ^ 64" using apart by (simp add: image_apart_def)
    from arg_cong [OF that(3), of unat] show ?thesis
      unfolding unat_image_byte [OF w that(1)] unat_image_byte [OF w that(2)] by simp
  qed
  have "map fst bs = map (\<lambda>o1. dst + of_nat o1) (map fst ?L)" by (simp add: bs_def split_def)
  moreover have "inj_on (\<lambda>o1. dst + of_nat o1) (set (map fst ?L))"
  proof (rule inj_onI)
    fix o1 o2 assume o: "o1 \<in> set (map fst ?L)" "o2 \<in> set (map fst ?L)" "dst + of_nat o1 = dst + of_nat o2"
    then obtain s1 s2 where "(o1, s1) \<in> set ?L" "(o2, s2) \<in> set ?L" by force
    then have "o1 < ?size" "o2 < ?size" using bound by blast+
    then show "o1 = o2" using o(3) by (rule inj)
  qed
  ultimately show "distinct (map fst bs)" using d(1) by (simp only: distinct_map)
  have "map snd bs = map snd ?L" by (simp add: bs_def split_def)
  then show "distinct (map snd bs)" using d(2) by simp
  show "fst ` set bs \<inter> snd ` set bs = {}"
  proof (rule equals0I)
    fix y assume y: "y \<in> fst ` set bs \<inter> snd ` set bs"
    obtain o1 s1 where 1: "(o1, s1) \<in> set ?L" "y = dst + of_nat o1" using y unfolding bs_def by force
    obtain o2 where 2: "(o2, y) \<in> set ?L" using y unfolding bs_def by force
    then obtain k i x where k: "k < length (kp_planes p)" and i: "i < length ids"
      and x: "x < page_bytes order (kp_planes p ! k)"
      and eq: "y = plane_byte order (kp_planes p ! k) (ids ! i) x" unfolding in_image_map by blast
    have t: "kp_planes p ! k \<in> set (kp_planes p)" using k by simp
    have r: "0 \<le> ids ! i" "ids ! i < int P" using ids(2) i by simp_all
    have "plane_wf order P (kp_planes p ! k)" using wf t by blast
    from image_byte_not_plane_byte [of p "kp_planes p ! k" dst ?size o1 "ids ! i" x, folded order_def P_def,
        OF this t apart bound [OF 1(1)] r x]
    show False using 1(2) eq by simp
  qed
qed

lemma bytes_of_image_swap:
  assumes "bytes_of cs = map prod.swap bs"
  shows "map fst (bytes_of cs) = map snd bs" and "fst ` set (bytes_of cs) = snd ` set bs"
    and "snd ` set (bytes_of cs) = fst ` set bs"
  unfolding assms by (simp_all add: image_image)

text \<open>The pages of an allocation of a reachable heap.\<close>

lemma allocation_pool:
  assumes "kv_reachable h" and "i < length (kh_allocs h)" and "ka_pool (kh_allocs h ! i) = Some k"
  shows "k < length (kh_pools h)"
    and "unat (mapped_page_count (kh_allocs h ! i)) = length (ka_page_ids (kh_allocs h ! i))"
  using owned_facts(1,3) [OF kv_reachable_inv [OF assms(1)] assms(2,3)] by simp_all

lemma allocation_ids:
  assumes "kv_reachable h" and "i < length (kh_allocs h)" and "ka_pool (kh_allocs h ! i) = Some k"
  shows "distinct (take n (ka_page_ids (kh_allocs h ! i)))"
    and "\<forall>q \<in> set (take n (ka_page_ids (kh_allocs h ! i))). 0 \<le> q \<and> q < int (unat (page_group_count (kh_pools h ! k)))"
proof -
  have "distinct (ka_page_ids (kh_allocs h ! i)) \<and>
      set (ka_page_ids (kh_allocs h ! i)) \<subseteq> {0..<int (unat (page_group_count (kh_pools h ! k)))}"
    using heap_pages_in_pool [OF kv_reachable_inv [OF assms(1)] allocation_pool(1) [OF assms]] assms(2,3) by blast
  then show "distinct (take n (ka_page_ids (kh_allocs h ! i)))"
    and "\<forall>q \<in> set (take n (ka_page_ids (kh_allocs h ! i))). 0 \<le> q \<and> q < int (unat (page_group_count (kh_pools h ! k)))"
    by (auto dest!: in_set_takeD)
qed

section \<open>Pack and unpack\<close>

lemma pack_allocation_bytes:
  fixes h k
  defines "p \<equiv> kh_pools h ! k"
  assumes "kv_reachable h" and i: "i < length (kh_allocs h)" and own: "ka_pool (kh_allocs h ! i) = Some k"
    and n: "n \<le> mapped_page_count (kh_allocs h ! i)" and dst: "dst \<noteq> 0"
    and size: "image_size (sp_plane_order (kp_spec p)) (unat n) (kp_planes p) < 2 ^ 64"
  shows "\<exists>cs. pack_paged_kv_allocation_to_host h i k dst n = (cs, Inr ()) \<and>
    bytes_of cs = at_image dst (image_map (sp_plane_order (kp_spec p)) (unat n) 0
      (take (unat n) (ka_page_ids (kh_allocs h ! i))) (kp_planes p))"
proof -
  let ?ids = "take (unat n) (ka_page_ids (kh_allocs h ! i))" and ?order = "sp_plane_order (kp_spec p)"
  note a = allocation_ids [OF assms(2) i own, of "unat n"] and al = allocation_pool [OF assms(2) i own]
  note wf = reachable_planes(1) [OF assms(2) al(1), folded p_def]
  have len: "length ?ids = unat n" using al(2) n by (simp add: word_le_nat_alt)
  have pos: "\<forall>q \<in> set ?ids. 0 \<le> q" using a(2) by blast
  obtain cs where cs: "pack_planes ?order ?ids dst (kp_planes p) = (cs, Inr ())"
    "bytes_of cs = at_image dst (image_map ?order (unat n) 0 ?ids (kp_planes p))"
    using pack_planes_bytes [OF wf pos, unfolded len, OF size, of dst] by blast
  show ?thesis
  proof (cases "n = 0")
    case True
    have "image_map order m off [] ts = []" for order m off ts by (induction ts arbitrary: off) simp_all
    then have "pack_paged_kv_allocation_to_host h i k dst n = ([], Inr ()) \<and>
        bytes_of [] = at_image dst (image_map ?order (unat n) 0 ?ids (kp_planes p))"
      using True own by (simp add: pack_paged_kv_allocation_to_host_def)
    then show ?thesis by blast
  next
    case False
    then have "pack_paged_kv_allocation_to_host h i k dst n = (cs, Inr ())"
      using cs(1) own n dst by (simp add: pack_paged_kv_allocation_to_host_def p_def Let_def not_less)
    then show ?thesis using cs(2) by blast
  qed
qed

lemma unpack_allocation_bytes:
  fixes h k
  defines "p \<equiv> kh_pools h ! k"
  assumes "kv_reachable h" and j: "j < length (kh_allocs h)" and own: "ka_pool (kh_allocs h ! j) = Some k"
    and ext: "ext \<le> mapped_page_count (kh_allocs h ! j)" "ext \<le> n" and src: "src \<noteq> 0"
    and size: "image_size (sp_plane_order (kp_spec p)) (unat n) (kp_planes p) < 2 ^ 64"
  shows "\<exists>cs. unpack_paged_kv_allocation_from_host h j k src n ext = (cs, Inr ()) \<and>
    bytes_of cs = map prod.swap (at_image src (image_map (sp_plane_order (kp_spec p)) (unat n) 0
      (take (unat ext) (ka_page_ids (kh_allocs h ! j))) (kp_planes p)))"
proof -
  let ?ids = "ka_page_ids (kh_allocs h ! j)" and ?order = "sp_plane_order (kp_spec p)"
  note a = allocation_ids [OF assms(2) j own, of "length ?ids"] and al = allocation_pool [OF assms(2) j own]
  note wf = reachable_planes(1) [OF assms(2) al(1), folded p_def]
  have pos: "\<forall>q \<in> set ?ids. 0 \<le> q" using a(2) by simp
  have len: "unat ext \<le> length ?ids" using al(2) ext(1) by (simp add: word_le_nat_alt)
  obtain cs where cs: "unpack_planes ?order ?ids src n ext (kp_planes p) = (cs, Inr ())"
    "bytes_of cs = map prod.swap (at_image src (image_map ?order (unat n) 0 (take (unat ext) ?ids) (kp_planes p)))"
    using unpack_planes_bytes [OF wf pos size len ext(2), of src] by blast
  have "unpack_paged_kv_allocation_from_host h j k src n ext = (cs, Inr ())"
    using cs(1) own ext src by (simp add: unpack_paged_kv_allocation_from_host_def p_def Let_def not_less)
  then show ?thesis using cs(2) by blast
qed

text \<open>
  C3: A host image restores the pages it was packed from. In every reachable state, for every
  copy operation with the documented effect: packing the first \<open>n\<close> pages of an allocation into a
  buffer outside the pool, and later unpacking the first \<open>ext \<le> n\<close> of them into an allocation of
  the same pool (another one, or the same after other data was written to it), both succeed, and
  afterwards every byte of every plane of those destination pages is the byte the source page
  held when it was packed. It holds for both plane orders and all the coalescing the code does,
  provided that the image is kept between the two calls.
\<close>

theorem pack_unpack_roundtrip:
  fixes h k
  defines "p \<equiv> kh_pools h ! k"
  assumes reach: "kv_reachable h" and law: "byte_copy_law copy"
    and i: "i < length (kh_allocs h)" "ka_pool (kh_allocs h ! i) = Some k" "n \<le> mapped_page_count (kh_allocs h ! i)"
    and j: "j < length (kh_allocs h)" "ka_pool (kh_allocs h ! j) = Some k" "ext \<le> mapped_page_count (kh_allocs h ! j)"
    and ext: "ext \<le> n"
    and buf: "buf \<noteq> 0" "paged_kv_host_image_bytes p n = Inr total_bytes" "image_apart p buf (unat total_bytes)"
  shows "\<exists>cs cs'. pack_paged_kv_allocation_to_host h i k buf n = (cs, Inr ()) \<and>
    unpack_paged_kv_allocation_from_host h j k buf n ext = (cs', Inr ()) \<and>
    (\<forall>m m'. (\<forall>x < unat total_bytes. m' (buf + of_nat x) = fold copy cs m (buf + of_nat x)) \<longrightarrow>
      (\<forall>t \<in> set (kp_planes p). \<forall>q < unat ext. \<forall>x < page_bytes (sp_plane_order (kp_spec p)) t.
         fold copy cs' m' (plane_byte (sp_plane_order (kp_spec p)) t (ka_page_ids (kh_allocs h ! j) ! q) x)
         = m (plane_byte (sp_plane_order (kp_spec p)) t (ka_page_ids (kh_allocs h ! i) ! q) x)))"
proof -
  let ?order = "sp_plane_order (kp_spec p)" and ?N = "unat n" and ?E = "unat ext"
  let ?si = "take ?N (ka_page_ids (kh_allocs h ! i))" and ?dj = "take ?E (ka_page_ids (kh_allocs h ! j))"
  note ai = allocation_ids [OF reach i(1,2), of ?N, folded p_def] and aj = allocation_ids [OF reach j(1,2), of ?E, folded p_def]
  note wf = reachable_planes [OF reach allocation_pool(1) [OF reach i(1,2)], folded p_def]
  have total: "unat total_bytes = image_size ?order ?N (kp_planes p)" by (rule host_image_bytes_eq [OF wf(1) buf(2)])
  have size: "image_size ?order ?N (kp_planes p) < 2 ^ 64"
    using unat_word_bound [of total_bytes] unfolding total by simp
  have ni: "?N \<le> length (ka_page_ids (kh_allocs h ! i))" and nj: "?E \<le> length (ka_page_ids (kh_allocs h ! j))"
    and en: "?E \<le> ?N" using i(3) j(3) ext allocation_pool(2) [OF reach i(1,2)] allocation_pool(2) [OF reach j(1,2)] by (simp_all add: word_le_nat_alt)
  obtain cs where cs: "pack_paged_kv_allocation_to_host h i k buf n = (cs, Inr ())"
    "bytes_of cs = at_image buf (image_map ?order ?N 0 ?si (kp_planes p))"
    using pack_allocation_bytes [OF reach i buf(1) size [unfolded p_def]] unfolding p_def by blast
  obtain cs' where cs': "unpack_paged_kv_allocation_from_host h j k buf n ext = (cs', Inr ())"
    "bytes_of cs' = map prod.swap (at_image buf (image_map ?order ?N 0 ?dj (kp_planes p)))"
    using unpack_allocation_bytes [OF reach j ext buf(1) size [unfolded p_def]] unfolding p_def by blast
  note apart = buf(3) [unfolded total]
  have li: "length ?si \<le> ?N" and lj: "length ?dj \<le> ?N" using en by simp_all
  note si = image_pairs_ok [OF wf ai(1,2) li apart] and dj = image_pairs_ok [OF wf aj(1,2) lj apart]
  have pack: "distinct (map fst (bytes_of cs))" "fst ` set (bytes_of cs) \<inter> snd ` set (bytes_of cs) = {}"
    unfolding cs(2) by (rule si(1) si(3))+
  have unpack: "distinct (map fst (bytes_of cs'))" "fst ` set (bytes_of cs') \<inter> snd ` set (bytes_of cs') = {}"
    using dj(2,3) unfolding bytes_of_image_swap [OF cs'(2)] by (simp_all only: Int_commute)
  have "fold copy cs' m' (plane_byte ?order t (ka_page_ids (kh_allocs h ! j) ! q) x)
      = m (plane_byte ?order t (ka_page_ids (kh_allocs h ! i) ! q) x)"
    if keep: "\<forall>x < unat total_bytes. m' (buf + of_nat x) = fold copy cs m (buf + of_nat x)"
      and t: "t \<in> set (kp_planes p)" and q: "q < ?E" and x: "x < page_bytes ?order t" for m m' t q x
  proof -
    obtain l where l: "l < length (kp_planes p)" "t = kp_planes p ! l" using t by (auto simp: in_set_conv_nth)
    define off where "off = 0 + ?N * sum_list (map (page_bytes ?order) (take l (kp_planes p))) + q * page_bytes ?order t + x"
    have qi: "q < length ?si" "?si ! q = ka_page_ids (kh_allocs h ! i) ! q" using q en ni by simp_all
    have qj: "q < length ?dj" "?dj ! q = ka_page_ids (kh_allocs h ! j) ! q" using q nj by simp_all
    have mi: "(off, plane_byte ?order t (ka_page_ids (kh_allocs h ! i) ! q) x) \<in> set (image_map ?order ?N 0 ?si (kp_planes p))"
      using image_mapI [OF l(1) qi(1) x [unfolded l(2)], of 0 ?N] unfolding off_def l(2) qi(2) .
    have mj: "(off, plane_byte ?order t (ka_page_ids (kh_allocs h ! j) ! q) x) \<in> set (image_map ?order ?N 0 ?dj (kp_planes p))"
      using image_mapI [OF l(1) qj(1) x [unfolded l(2)], of 0 ?N] unfolding off_def l(2) qj(2) .
    have "(buf + of_nat off, plane_byte ?order t (ka_page_ids (kh_allocs h ! i) ! q) x) \<in> set (bytes_of cs)"
      unfolding cs(2) using mi by force
    from fold_copy_hit [OF law pack this]
    have 1: "fold copy cs m (buf + of_nat off) = m (plane_byte ?order t (ka_page_ids (kh_allocs h ! i) ! q) x)" .
    have "(plane_byte ?order t (ka_page_ids (kh_allocs h ! j) ! q) x, buf + of_nat off) \<in> set (bytes_of cs')"
      unfolding cs'(2) using mj by force
    from fold_copy_hit [OF law unpack this]
    have 2: "fold copy cs' m' (plane_byte ?order t (ka_page_ids (kh_allocs h ! j) ! q) x) = m' (buf + of_nat off)" .
    have "off < unat total_bytes" unfolding total using image_map_bound [OF mi li] by simp
    then show ?thesis using keep 1 2 by simp
  qed
  then show ?thesis using cs(1) cs'(1) by blast
qed

theorem pack_unpack_roundtrip_witness:
  "\<exists>cs cs'. pack_paged_kv_allocation_to_host demo_run 0 0 1048576 2 = (cs, Inr ()) \<and>
     unpack_paged_kv_allocation_from_host demo_run 1 0 1048576 2 2 = (cs', Inr ()) \<and>
     (\<forall>m. \<forall>x < 256.
        fold demo_memcpy cs' (fold demo_memcpy cs m) (4096 + 3 * 256 + of_nat x) = m (4096 + 1 * 256 + of_nat x))"
proof -
  have len: "0 < length (kh_allocs demo_run)" "1 < length (kh_allocs demo_run)" by (simp_all add: demo_lengths)
  have own: "ka_pool (kh_allocs demo_run ! 1) = Some 0" using demo_lengths(4) by simp
  have cnt: "2 \<le> mapped_page_count (kh_allocs demo_run ! 0)" "2 \<le> mapped_page_count (kh_allocs demo_run ! 1)"
    and ids: "ka_page_ids (kh_allocs demo_run ! 0) = [0, 1]" "ka_page_ids (kh_allocs demo_run ! 1) = [2, 3, 4]"
    and planes: "kp_planes (kh_pools demo_run ! 0) = [\<lparr>t_data = 4096, t_dtype = BF16, t_ne = [2, 64, 1, 8], t_nb = [2, 4, 256, 256]\<rparr>]"
    and spec: "kp_spec (kh_pools demo_run ! 0) = demo_spec"
    and bytes: "paged_kv_host_image_bytes (kh_pools demo_run ! 0) 2 = Inr 512" by code_simp+
  have apart: "image_apart (kh_pools demo_run ! 0) 1048576 (unat (512 :: u64))"
    by (simp add: image_apart_def planes spec page_bytes_def demo_spec_def)
  have order: "sp_plane_order demo_spec = PageMajor" by (simp add: demo_spec_def)
  have "(2 :: u32) \<le> 2" "(1048576 :: u64) \<noteq> 0" by simp_all
  from pack_unpack_roundtrip [OF demo_run_reachable demo_memcpy_law len(1) demo_lengths(3) cnt(1) len(2) own cnt(2) this bytes apart]
  obtain cs cs' where r: "pack_paged_kv_allocation_to_host demo_run 0 0 1048576 2 = (cs, Inr ())"
    "unpack_paged_kv_allocation_from_host demo_run 1 0 1048576 2 2 = (cs', Inr ())"
    "\<forall>m m'. (\<forall>x < unat (512 :: u64). m' (1048576 + of_nat x) = fold demo_memcpy cs m (1048576 + of_nat x)) \<longrightarrow>
      (\<forall>t \<in> set (kp_planes (kh_pools demo_run ! 0)). \<forall>q < unat (2 :: u32). \<forall>x < page_bytes PageMajor t.
         fold demo_memcpy cs' m' (plane_byte PageMajor t ([2, 3, 4] ! q) x) = m (plane_byte PageMajor t ([0, 1] ! q) x))"
    unfolding spec order ids by blast
  have "fold demo_memcpy cs' (fold demo_memcpy cs m) (4096 + 3 * 256 + of_nat x) = m (4096 + 1 * 256 + of_nat x)"
    if "x < 256" for m x
  proof -
    let ?t = "\<lparr>t_data = 4096, t_dtype = BF16, t_ne = [2, 64, 1, 8], t_nb = [2, 4, 256, 256]\<rparr>"
    have "fold demo_memcpy cs' (fold demo_memcpy cs m) (plane_byte PageMajor ?t ([2, 3, 4] ! 1) x)
        = m (plane_byte PageMajor ?t ([0, 1] ! 1) x)"
      by (rule r(3) [rule_format]) (use that in \<open>simp_all add: planes page_bytes_def\<close>)
    then show ?thesis by (simp add: plane_byte_def plane_offset_def)
  qed
  then show ?thesis using r(1,2) by blast
qed

end
