(* ===== verification/Paged_KV_Copies.thy ===== *)
theory Paged_KV_Copies
  imports Paged_KV_Roundtrip
begin

text \<open>
  Copies between the allocations of a pool, zeroed pages and single logical pages: the bytes the
  commands touch, and the properties that follow from the ownership of pages.
\<close>

definition page_pairs :: "plane_order \<Rightarrow> tensor \<Rightarrow> int \<Rightarrow> int \<Rightarrow> (u64 \<times> u64) list" where
  "page_pairs order t d s =
     map (\<lambda>x. (plane_byte order t d x, plane_byte order t s x)) [0..<page_bytes order t]"

definition copy_pairs :: "plane_order \<Rightarrow> tensor \<Rightarrow> int list \<Rightarrow> int list \<Rightarrow> nat \<Rightarrow> nat \<Rightarrow> (u64 \<times> u64) list" where
  "copy_pairs order t src dst b n = concat (map (\<lambda>q. page_pairs order t (dst ! q) (src ! q)) [b..<n])"

section \<open>Runs of pages\<close>

lemma mset_concat_upt: "mset (concat (map f [0..<n])) = (\<Sum>i<n. mset (f i))"
  by (induction n) (simp_all add: add.commute)

lemma mset_concat_swap:
  assumes "\<And>r q. r < h \<Longrightarrow> q < n \<Longrightarrow> f r q = g q r"
  shows "mset (concat (map (\<lambda>r. concat (map (f r) [0..<n])) [0..<h]))
    = mset (concat (map (\<lambda>q. concat (map (g q) [0..<h])) [0..<n]))"
proof -
  have "(\<Sum>r<h. \<Sum>q<n. mset (f r q)) = (\<Sum>r<h. \<Sum>q<n. mset (g q r))"
    using assms by (intro sum.cong refl) simp
  also have "\<dots> = (\<Sum>q<n. \<Sum>r<h. mset (g q r))" by (rule sum.swap)
  finally show ?thesis by (simp add: mset_concat_upt)
qed

lemma unat_of_nat_small: "n < 2 ^ 64 \<Longrightarrow> unat (of_nat n :: u64) = n"
  unfolding unat_of_nat by (simp add: take_bit_nat_eq_self)

lemma run_pairs_major:
  assumes wf: "plane_wf PageMajor P t" and n: "n \<le> P" and pos: "0 \<le> d" "0 \<le> s"
  shows "cmd_bytes (memcpy_1d (page_at (t_data t) d (nb t 3)) (page_at (t_data t) s (nb t 3))
      (of_nat n * word_of_int (nb t 3)))
    = concat (map (\<lambda>r. page_pairs PageMajor t (d + int r) (s + int r)) [0..<n])"
proof -
  let ?B = "nat (nb t 3)"
  have B: "page_bytes PageMajor t = ?B" "0 < nb t 3" using wf by (simp_all add: page_bytes_def plane_wf_def)
  have eq: "(of_nat n * word_of_int (nb t 3) :: u64) = of_nat (n * ?B)" using B(2) by simp
  have u: "unat (of_nat n * word_of_int (nb t 3) :: u64) = n * ?B"
    unfolding eq using plane_pages_small [OF wf n] unfolding B(1) by (rule unat_of_nat_small)
  have at: "page_at (t_data t) z (nb t 3) = t_data t + of_nat (nat z * ?B)" if "0 \<le> z" for z
    using page_at_nat [OF that, of "t_data t" ?B] B(2) by simp
  let ?f = "\<lambda>x. (t_data t + of_nat (nat d * ?B + x), t_data t + of_nat (nat s * ?B + x)) :: u64 \<times> u64"
  have "cmd_bytes (memcpy_1d (page_at (t_data t) d (nb t 3)) (page_at (t_data t) s (nb t 3))
      (of_nat n * word_of_int (nb t 3))) = map ?f [0..<n * ?B]"
    unfolding cmd_bytes_1d u at [OF pos(1)] at [OF pos(2)] by (simp add: add.assoc)
  also have "\<dots> = concat (map (\<lambda>r. map (\<lambda>j. ?f (r * ?B + j)) [0..<?B]) [0..<n])"
    by (rule concat_blocks [symmetric])
  also have "map (\<lambda>r. map (\<lambda>j. ?f (r * ?B + j)) [0..<?B]) [0..<n]
      = map (\<lambda>r. page_pairs PageMajor t (d + int r) (s + int r)) [0..<n]"
    using pos by (intro map_cong [OF refl])
      (simp add: page_pairs_def B(1) plane_byte_def plane_offset_def nat_add_distrib algebra_simps)
  finally show ?thesis .
qed

lemma run_pairs_head:
  assumes wf: "plane_wf HeadMajor P t" and n: "n \<le> P" and pos: "0 \<le> d" "0 \<le> s"
  shows "mset (cmd_bytes (memcpy_2d (page_at (t_data t) d (nb t 2)) (word_of_int (nb t 3))
      (page_at (t_data t) s (nb t 2)) (word_of_int (nb t 3)) (of_nat n * word_of_int (nb t 2)) (word_of_int (ne t 3))))
    = mset (concat (map (\<lambda>r. page_pairs HeadMajor t (d + int r) (s + int r)) [0..<n]))"
proof -
  let ?w = "nat (nb t 2)" and ?h = "nat (ne t 3)" and ?s = "nat (nb t 3)"
  have p: "0 < nb t 2" "0 < ne t 3" "0 \<le> nb t 3" using wf by (auto simp: plane_wf_def)
  have B: "page_bytes HeadMajor t = ?h * ?w" by (simp add: page_bytes_def)
  have "n * ?w * 1 \<le> n * ?w * ?h" using p by (intro mult_left_mono) simp_all
  moreover have "n * ?w * ?h < 2 ^ 64" using plane_pages_small [OF wf n] unfolding B by (simp add: ac_simps)
  ultimately have nw: "n * ?w < 2 ^ 64" by linarith
  have "?h * 1 \<le> ?h * ?w" using p by (intro mult_left_mono) simp_all
  then have h: "?h < 2 ^ 64" using page_bytes_small [OF wf] unfolding B by linarith
  have eqw: "(of_nat n * word_of_int (nb t 2) :: u64) = of_nat (n * ?w)" using p(1) by simp
  have eqh: "(word_of_int (ne t 3) :: u64) = of_nat ?h" and eqs: "(word_of_int (nb t 3) :: u64) = of_nat ?s"
    using p by simp_all
  have at: "page_at (t_data t) z (nb t 2) = t_data t + of_nat (nat z * ?w)" if "0 \<le> z" for z
    using page_at_nat [OF that, of "t_data t" ?w] p(1) by simp
  let ?g = "\<lambda>r y. (t_data t + of_nat (nat d * ?w) + of_nat r * of_nat ?s + of_nat y,
      t_data t + of_nat (nat s * ?w) + of_nat r * of_nat ?s + of_nat y) :: u64 \<times> u64"
  have "cmd_bytes (memcpy_2d (page_at (t_data t) d (nb t 2)) (word_of_int (nb t 3))
      (page_at (t_data t) s (nb t 2)) (word_of_int (nb t 3)) (of_nat n * word_of_int (nb t 2)) (word_of_int (ne t 3)))
    = concat (map (\<lambda>r. map (?g r) [0..<n * ?w]) [0..<?h])"
    unfolding eqw eqh eqs at [OF pos(1)] at [OF pos(2)] cmd_bytes_def memcpy_2d_def
    by (simp only: copy_cmd.select_convs unat_of_nat_small [OF nw] unat_of_nat_small [OF h])
  also have "\<dots> = concat (map (\<lambda>r. concat (map (\<lambda>q. map (\<lambda>j. ?g r (q * ?w + j)) [0..<?w]) [0..<n])) [0..<?h])"
  proof (intro arg_cong [of _ _ concat] map_cong [OF refl])
    fix r
    show "map (?g r) [0..<n * ?w] = concat (map (\<lambda>q. map (\<lambda>j. ?g r (q * ?w + j)) [0..<?w]) [0..<n])"
      by (rule concat_blocks [of "?g r" ?w n, symmetric])
  qed
  finally have l: "cmd_bytes (memcpy_2d (page_at (t_data t) d (nb t 2)) (word_of_int (nb t 3))
      (page_at (t_data t) s (nb t 2)) (word_of_int (nb t 3)) (of_nat n * word_of_int (nb t 2)) (word_of_int (ne t 3)))
    = concat (map (\<lambda>r. concat (map (\<lambda>q. map (\<lambda>j. ?g r (q * ?w + j)) [0..<?w]) [0..<n])) [0..<?h])" .
  let ?k = "\<lambda>q x. (plane_byte HeadMajor t (d + int q) x, plane_byte HeadMajor t (s + int q) x)"
  have r: "page_pairs HeadMajor t (d + int q) (s + int q)
      = concat (map (\<lambda>r. map (\<lambda>j. ?k q (r * ?w + j)) [0..<?w]) [0..<?h])" for q
    unfolding page_pairs_def B by (rule concat_blocks [symmetric])
  show ?thesis
    unfolding l r
  proof (rule mset_concat_swap)
    fix r q
    show "map (\<lambda>j. ?g r (q * ?w + j)) [0..<?w] = map (\<lambda>j. ?k q (r * ?w + j)) [0..<?w]"
    proof (rule map_cong [OF refl])
      fix j assume "j \<in> set [0..<?w]"
      then have "(r * ?w + j) div ?w = r" "(r * ?w + j) mod ?w = j" by simp_all
      then show "?g r (q * ?w + j) = ?k q (r * ?w + j)"
        using pos by (simp add: plane_byte_def plane_offset_def nat_add_distrib algebra_simps)
    qed
  qed
qed

lemma paired_end_run:
  "0 < e \<Longrightarrow> e \<le> n \<Longrightarrow> paired_end src dst n e \<le> n \<and>
     (\<forall>x. e - 1 \<le> x \<and> x < paired_end src dst n e \<longrightarrow>
        src ! x = src ! (e - 1) + int (x - (e - 1)) \<and> dst ! x = dst ! (e - 1) + int (x - (e - 1)))"
proof (induction src dst n e rule: paired_end.induct)
  case (1 src dst n e)
  show ?case
  proof (cases "e < n \<and> src ! e = src ! (e - 1) + 1 \<and> dst ! e = dst ! (e - 1) + 1")
    case True
    then have eq: "paired_end src dst n e = paired_end src dst n (Suc e)"
      by (subst paired_end.simps) simp
    have "Suc e \<le> n" "0 < Suc e" using True by simp_all
    note IH = 1(1) [OF True this(2,1)]
    have "src ! x = src ! (e - 1) + int (x - (e - 1)) \<and> dst ! x = dst ! (e - 1) + int (x - (e - 1))"
      if x: "e - 1 \<le> x" "x < paired_end src dst n (Suc e)" for x
    proof (cases "x = e - 1")
      case False
      then have "Suc e - 1 \<le> x" using x(1) by simp
      then have "src ! x = src ! e + int (x - e) \<and> dst ! x = dst ! e + int (x - e)"
        using IH x(2) by (metis diff_Suc_1)
      moreover have "int (x - (e - 1)) = int (x - e) + 1" using False x(1) 1(2) by simp
      ultimately show ?thesis using True by simp
    qed simp
    then show ?thesis unfolding eq using IH by blast
  next
    case False
    then have "paired_end src dst n e = e" by (subst paired_end.simps) auto
    moreover have "x = e - 1" if "e - 1 \<le> x" "x < e" for x using that 1(2) by simp
    ultimately show ?thesis using 1(3) by auto
  qed
qed

lemma copy_plane_bytes:
  assumes wf: "plane_wf order P t" and n: "n \<le> P" "n \<le> length src" "n \<le> length dst"
    and pos: "\<forall>q \<in> set src. 0 \<le> q" "\<forall>q \<in> set dst. 0 \<le> q"
  shows "mset (bytes_of (copy_plane order t src dst n b)) = mset (copy_pairs order t src dst b n)"
proof (induction "n - b" arbitrary: b rule: less_induct)
  case less
  show ?case
  proof (cases "b < n")
    case False
    then show ?thesis by (subst copy_plane.simps) (simp add: copy_pairs_def)
  next
    case True
    define e where "e = paired_end src dst n (Suc b)"
    have be: "b < e" unfolding e_def by (rule paired_end_gt)
    have "Suc b \<le> n" "0 < Suc b" using True by simp_all
    note run = paired_end_run [OF this(2,1), of src dst, folded e_def, unfolded diff_Suc_1]
    have en: "e \<le> n" using run by blast
    have ids: "src ! (b + r) = src ! b + int r" "dst ! (b + r) = dst ! b + int r" if "r < e - b" for r
    proof -
      have "b \<le> b + r" "b + r < e" using that by simp_all
      then have "src ! (b + r) = src ! b + int (b + r - b) \<and> dst ! (b + r) = dst ! b + int (b + r - b)"
        using run by blast
      then show "src ! (b + r) = src ! b + int r" "dst ! (b + r) = dst ! b + int r" by simp_all
    qed
    have p: "0 \<le> src ! b" "0 \<le> dst ! b" using pos n True by simp_all
    let ?n = "of_nat (e - b) :: u64"
    define c where "c = (if order = PageMajor
      then memcpy_1d (page_at (t_data t) (dst ! b) (nb t 3)) (page_at (t_data t) (src ! b) (nb t 3)) (?n * word_of_int (nb t 3))
      else memcpy_2d (page_at (t_data t) (dst ! b) (nb t 2)) (word_of_int (nb t 3))
             (page_at (t_data t) (src ! b) (nb t 2)) (word_of_int (nb t 3)) (?n * word_of_int (nb t 2)) (word_of_int (ne t 3)))"
    have eP: "e - b \<le> P" using en n(1) by simp
    have "mset (cmd_bytes c) = mset (concat (map (\<lambda>r. page_pairs order t (dst ! b + int r) (src ! b + int r)) [0..<e - b]))"
    proof (cases order)
      case PageMajor
      then show ?thesis using run_pairs_major [OF wf [unfolded PageMajor] eP p(2,1)] by (simp add: c_def)
    next
      case HeadMajor
      then show ?thesis using run_pairs_head [OF wf [unfolded HeadMajor] eP p(2,1)] by (simp add: c_def)
    qed
    also have "map (\<lambda>r. page_pairs order t (dst ! b + int r) (src ! b + int r)) [0..<e - b]
        = map (\<lambda>r. page_pairs order t (dst ! (b + r)) (src ! (b + r))) [0..<e - b]"
      using ids by (intro map_cong [OF refl]) simp
    also have "\<dots> = map (\<lambda>q. page_pairs order t (dst ! q) (src ! q)) [b..<b + (e - b)]"
      by (rule map_upt_shift [symmetric])
    also have "b + (e - b) = e" using be by simp
    finally have cm: "mset (cmd_bytes c) = mset (copy_pairs order t src dst b e)" by (simp only: copy_pairs_def)
    have step: "copy_plane order t src dst n b = c # copy_plane order t src dst n e"
      by (subst copy_plane.simps) (use True in \<open>simp add: Let_def e_def c_def\<close>)
    have "mset (bytes_of (copy_plane order t src dst n e)) = mset (copy_pairs order t src dst e n)"
      by (rule less) (use be True in simp)
    moreover have "copy_pairs order t src dst b n = copy_pairs order t src dst b e @ copy_pairs order t src dst e n"
      unfolding copy_pairs_def using upt_split [of b e n] be en by simp
    ultimately show ?thesis unfolding step by (simp add: cm)
  qed
qed

section \<open>Copies between allocations\<close>

lemma copy_pairs_fst:
  assumes "n \<le> length dst"
  shows "map fst (copy_pairs order t src dst 0 n) = map snd (plane_image order t off (take n dst))"
proof -
  have "map (\<lambda>q. map fst (page_pairs order t (dst ! q) (src ! q))) [0..<n]
      = map (\<lambda>q. map snd (page_image order t (off + q * page_bytes order t) (take n dst ! q))) [0..<n]"
    by (intro map_cong [OF refl]) (simp add: page_pairs_def page_image_def)
  from arg_cong [OF this, of concat] show ?thesis
    using assms by (simp add: copy_pairs_def plane_image_def map_concat o_def)
qed

lemma all_copy_pairs_fst:
  assumes "n \<le> length dst"
  shows "map fst (concat (map (\<lambda>t. copy_pairs order t src dst 0 n) ts)) = map snd (image_map order m off (take n dst) ts)"
proof (induction ts arbitrary: off)
  case (Cons t ts)
  then show ?case unfolding image_map_Cons by (simp add: copy_pairs_fst [OF assms])
qed simp

lemma in_copy_pairs:
  "(d, s) \<in> set (copy_pairs order t src dst 0 n) \<longleftrightarrow>
     (\<exists>q < n. \<exists>x < page_bytes order t. d = plane_byte order t (dst ! q) x \<and> s = plane_byte order t (src ! q) x)"
proof -
  have "(d, s) \<in> set (page_pairs order t a b) \<longleftrightarrow>
      (\<exists>x < page_bytes order t. d = plane_byte order t a x \<and> s = plane_byte order t b x)" for a b
    by (auto simp: page_pairs_def)
  then show ?thesis by (simp add: copy_pairs_def Bex_def)
qed

lemma copy_bytes_of:
  assumes "\<forall>t \<in> set ts. plane_wf order P t" and "n \<le> P" "n \<le> length src" "n \<le> length dst"
    and "\<forall>q \<in> set src. 0 \<le> q" "\<forall>q \<in> set dst. 0 \<le> q"
  shows "mset (bytes_of (concat (map (\<lambda>t. copy_plane order t src dst n 0) ts)))
    = mset (concat (map (\<lambda>t. copy_pairs order t src dst 0 n) ts))"
  using assms(1) by (induction ts) (simp_all add: copy_plane_bytes [OF _ assms(2-6)])

lemma pages_le_groups:
  assumes "distinct ids" and "\<forall>q \<in> set ids. 0 \<le> q \<and> q < int P"
  shows "length ids \<le> P"
proof -
  have "set ids \<subseteq> int ` {..<P}"
  proof
    fix z assume "z \<in> set ids"
    then have "0 \<le> z" "z < int P" using assms(2) by simp_all
    then show "z \<in> int ` {..<P}" by (auto simp: image_iff intro!: bexI [of _ "nat z"])
  qed
  then have "card (set ids) \<le> card (int ` {..<P})" by (intro card_mono) simp_all
  then show ?thesis using distinct_card [OF assms(1)] by (simp add: card_image)
qed

text \<open>The commands of a copy: which byte pairs they move, none of them twice, none overlapping.\<close>

lemma copy_commands:
  fixes h k
  defines "p \<equiv> kh_pools h ! k"
  assumes reach: "kv_reachable h" and ij: "i \<noteq> j"
    and i: "i < length (kh_allocs h)" "ka_pool (kh_allocs h ! i) = Some k" "n \<le> mapped_page_count (kh_allocs h ! i)"
    and j: "j < length (kh_allocs h)" "ka_pool (kh_allocs h ! j) = Some k" "n \<le> mapped_page_count (kh_allocs h ! j)"
  shows "\<exists>cs. copy_paged_kv_allocation h i j k n = (cs, Inr ()) \<and> distinct (map fst (bytes_of cs)) \<and>
    fst ` set (bytes_of cs) \<inter> snd ` set (bytes_of cs) = {} \<and>
    (\<forall>d s. (d, s) \<in> set (bytes_of cs) \<longleftrightarrow>
       (\<exists>t \<in> set (kp_planes p). \<exists>q < unat n. \<exists>x < page_bytes (sp_plane_order (kp_spec p)) t.
          d = plane_byte (sp_plane_order (kp_spec p)) t (ka_page_ids (kh_allocs h ! j) ! q) x \<and>
          s = plane_byte (sp_plane_order (kp_spec p)) t (ka_page_ids (kh_allocs h ! i) ! q) x))"
proof -
  let ?order = "sp_plane_order (kp_spec p)" and ?N = "unat n" and ?P = "unat (page_group_count p)"
  let ?ids = "\<lambda>l. ka_page_ids (kh_allocs h ! l)"
  let ?s = "take ?N (?ids i)" and ?d = "take ?N (?ids j)"
  note ai = allocation_ids [OF reach i(1,2), of ?N, folded p_def] and aj = allocation_ids [OF reach j(1,2), of ?N, folded p_def]
  note kl = allocation_pool(1) [OF reach i(1,2)]
  note wf = reachable_planes [OF reach kl, folded p_def]
  have ni: "?N \<le> length (?ids i)" and nj: "?N \<le> length (?ids j)"
    using i(3) j(3) allocation_pool(2) [OF reach i(1,2)] allocation_pool(2) [OF reach j(1,2)]
    by (simp_all add: word_le_nat_alt)
  have NP: "?N \<le> ?P" using pages_le_groups [OF aj] nj by simp
  define cs where "cs = concat (map (\<lambda>plane. copy_plane ?order plane ?s ?d ?N 0) (kp_planes p))"
  define bs where "bs = concat (map (\<lambda>t. copy_pairs ?order t ?s ?d 0 ?N) (kp_planes p))"
  have call: "copy_paged_kv_allocation h i j k n = (cs, Inr ())"
    using i(2,3) j(2,3) ij by (simp add: copy_paged_kv_allocation_def cs_def p_def Let_def not_less)
  have ms: "mset (bytes_of cs) = mset bs"
    unfolding cs_def bs_def by (rule copy_bytes_of [OF wf(1) NP]) (use ai(2) aj(2) ni nj in auto)
  then have set: "set (bytes_of cs) = set bs" by (metis set_mset_mset)
  have "mset (map fst (bytes_of cs)) = mset (map fst bs)" using ms by simp
  moreover have "distinct (map fst bs)"
  proof -
    have ld: "?N \<le> length ?d" "take ?N ?d = ?d" "length ?d \<le> ?N" using nj by simp_all
    show ?thesis
      using distinct_image_map(2) [OF wf aj ld(3), of 0]
      unfolding bs_def all_copy_pairs_fst [OF ld(1), of ?order ?s "kp_planes p" ?N 0] ld(2) .
  qed
  ultimately have dist: "distinct (map fst (bytes_of cs))" by (metis mset_eq_imp_distinct_iff)
  have pairs: "(d, s) \<in> set (bytes_of cs) \<longleftrightarrow> (\<exists>t \<in> set (kp_planes p). \<exists>q < ?N. \<exists>x < page_bytes ?order t.
      d = plane_byte ?order t (?ids j ! q) x \<and> s = plane_byte ?order t (?ids i ! q) x)" for d s
    unfolding set bs_def by (simp add: in_copy_pairs cong: conj_cong)
  have disj: "fst ` set (bytes_of cs) \<inter> snd ` set (bytes_of cs) = {}"
  proof (rule equals0I)
    fix y assume "y \<in> fst ` set (bytes_of cs) \<inter> snd ` set (bytes_of cs)"
    then obtain d s where "(y, s) \<in> set (bytes_of cs)" "(d, y) \<in> set (bytes_of cs)" by force
    then obtain t q x t' q' x' where 1: "t \<in> set (kp_planes p)" "q < ?N" "x < page_bytes ?order t"
        "y = plane_byte ?order t (?ids j ! q) x"
      and 2: "t' \<in> set (kp_planes p)" "q' < ?N" "x' < page_bytes ?order t'" "y = plane_byte ?order t' (?ids i ! q') x'"
      unfolding pairs by blast
    obtain l l' where l: "l < length (kp_planes p)" "t = kp_planes p ! l" "l' < length (kp_planes p)" "t' = kp_planes p ! l'"
      using 1(1) 2(1) by (auto simp: in_set_conv_nth)
    have m: "?ids j ! q \<in> set ?d" "?ids i ! q' \<in> set ?s"
      by (rule nth_in_take [OF 1(2) nj] nth_in_take [OF 2(2) ni])+
    have "?ids j ! q = ?ids i ! q'"
      using plane_bytes_inj [OF wf l(1,3), of "?ids j ! q" "?ids i ! q'" x x'] m ai(2) aj(2) 1 2 unfolding l(2,4) by auto
    moreover have "set (?ids i) \<inter> set (?ids j) = {}"
      using heap_pages_disjoint [OF kv_reachable_inv [OF reach] kl] i(1,2) j(1,2) ij by blast
    ultimately show False using m by (auto dest!: in_set_takeD)
  qed
  show ?thesis using call dist disj pairs by blast
qed

text \<open>
  C17: Copying between two allocations of a pool moves exactly the pages asked for. In every
  reachable state, for two different allocations of the pool and at most as many pages as both
  have mapped, the call succeeds and its coalesced commands give every byte of the first \<open>n\<close>
  destination pages, in every plane, the byte of the corresponding source page; every other
  byte of memory, the source pages included, is unchanged. No command overlaps itself, because
  different allocations own different pages.
\<close>

theorem copy_allocation_pages:
  fixes h k
  defines "p \<equiv> kh_pools h ! k"
  assumes reach: "kv_reachable h" and law: "byte_copy_law copy" and ij: "i \<noteq> j"
    and i: "i < length (kh_allocs h)" "ka_pool (kh_allocs h ! i) = Some k" "n \<le> mapped_page_count (kh_allocs h ! i)"
    and j: "j < length (kh_allocs h)" "ka_pool (kh_allocs h ! j) = Some k" "n \<le> mapped_page_count (kh_allocs h ! j)"
  shows "\<exists>cs. copy_paged_kv_allocation h i j k n = (cs, Inr ()) \<and>
    (\<forall>m. (\<forall>t \<in> set (kp_planes p). \<forall>q < unat n. \<forall>x < page_bytes (sp_plane_order (kp_spec p)) t.
           fold copy cs m (plane_byte (sp_plane_order (kp_spec p)) t (ka_page_ids (kh_allocs h ! j) ! q) x)
           = m (plane_byte (sp_plane_order (kp_spec p)) t (ka_page_ids (kh_allocs h ! i) ! q) x)) \<and>
         (\<forall>y. (\<forall>t \<in> set (kp_planes p). \<forall>q < unat n. \<forall>x < page_bytes (sp_plane_order (kp_spec p)) t.
             y \<noteq> plane_byte (sp_plane_order (kp_spec p)) t (ka_page_ids (kh_allocs h ! j) ! q) x) \<longrightarrow>
           fold copy cs m y = m y))"
proof -
  from copy_commands [OF reach ij i j, folded p_def] obtain cs where
    call: "copy_paged_kv_allocation h i j k n = (cs, Inr ())" and dist: "distinct (map fst (bytes_of cs))"
    and disj: "fst ` set (bytes_of cs) \<inter> snd ` set (bytes_of cs) = {}"
    and pairs: "\<forall>d s. (d, s) \<in> set (bytes_of cs) \<longleftrightarrow>
       (\<exists>t \<in> set (kp_planes p). \<exists>q < unat n. \<exists>x < page_bytes (sp_plane_order (kp_spec p)) t.
          d = plane_byte (sp_plane_order (kp_spec p)) t (ka_page_ids (kh_allocs h ! j) ! q) x \<and>
          s = plane_byte (sp_plane_order (kp_spec p)) t (ka_page_ids (kh_allocs h ! i) ! q) x)" by blast
  have "fold copy cs m (plane_byte (sp_plane_order (kp_spec p)) t (ka_page_ids (kh_allocs h ! j) ! q) x)
      = m (plane_byte (sp_plane_order (kp_spec p)) t (ka_page_ids (kh_allocs h ! i) ! q) x)"
    if "t \<in> set (kp_planes p)" "q < unat n" "x < page_bytes (sp_plane_order (kp_spec p)) t" for m t q x
    by (rule fold_copy_hit [OF law dist disj]) (use pairs that in blast)
  moreover have "fold copy cs m y = m y"
    if y: "\<forall>t \<in> set (kp_planes p). \<forall>q < unat n. \<forall>x < page_bytes (sp_plane_order (kp_spec p)) t.
        y \<noteq> plane_byte (sp_plane_order (kp_spec p)) t (ka_page_ids (kh_allocs h ! j) ! q) x" for m y
  proof (rule fold_copy_miss [OF law dist disj])
    show "y \<notin> fst ` set (bytes_of cs)"
    proof
      assume "y \<in> fst ` set (bytes_of cs)"
      then obtain s where "(y, s) \<in> set (bytes_of cs)" by force
      then show False using pairs y by blast
    qed
  qed
  ultimately show ?thesis using call by blast
qed

theorem copy_allocation_pages_witness:
  "\<exists>cs. copy_paged_kv_allocation demo_run 0 1 0 2 = (cs, Inr ()) \<and>
     (\<forall>m. \<forall>x < 256. fold demo_memcpy cs m (4096 + 3 * 256 + of_nat x) = m (4096 + 1 * 256 + of_nat x))"
proof -
  have len: "0 < length (kh_allocs demo_run)" "1 < length (kh_allocs demo_run)" by (simp_all add: demo_lengths)
  have own: "ka_pool (kh_allocs demo_run ! 1) = Some 0" using demo_lengths(4) by simp
  have cnt: "2 \<le> mapped_page_count (kh_allocs demo_run ! 0)" "2 \<le> mapped_page_count (kh_allocs demo_run ! 1)"
    and ids: "ka_page_ids (kh_allocs demo_run ! 0) = [0, 1]" "ka_page_ids (kh_allocs demo_run ! 1) = [2, 3, 4]"
    and planes: "kp_planes (kh_pools demo_run ! 0) = [\<lparr>t_data = 4096, t_dtype = BF16, t_ne = [2, 64, 1, 8], t_nb = [2, 4, 256, 256]\<rparr>]"
    and spec: "kp_spec (kh_pools demo_run ! 0) = demo_spec" by code_simp+
  have order: "sp_plane_order demo_spec = PageMajor" by (simp add: demo_spec_def)
  have "(0 :: nat) \<noteq> 1" by simp
  from copy_allocation_pages [OF demo_run_reachable demo_memcpy_law this len(1) demo_lengths(3) cnt(1) len(2) own cnt(2)]
  obtain cs where c: "copy_paged_kv_allocation demo_run 0 1 0 2 = (cs, Inr ())"
    and m: "\<forall>m. \<forall>t \<in> set (kp_planes (kh_pools demo_run ! 0)). \<forall>q < unat (2 :: u32). \<forall>x < page_bytes PageMajor t.
      fold demo_memcpy cs m (plane_byte PageMajor t ([2, 3, 4] ! q) x) = m (plane_byte PageMajor t ([0, 1] ! q) x)"
    unfolding spec order ids by blast
  have "fold demo_memcpy cs m (4096 + 3 * 256 + of_nat x) = m (4096 + 1 * 256 + of_nat x)" if "x < 256" for m x
  proof -
    let ?t = "\<lparr>t_data = 4096, t_dtype = BF16, t_ne = [2, 64, 1, 8], t_nb = [2, 4, 256, 256]\<rparr>"
    have "fold demo_memcpy cs m (plane_byte PageMajor ?t ([2, 3, 4] ! 1) x) = m (plane_byte PageMajor ?t ([0, 1] ! 1) x)"
      by (rule m [rule_format]) (use that in \<open>simp_all add: planes page_bytes_def\<close>)
    then show ?thesis by (simp add: plane_byte_def plane_offset_def)
  qed
  then show ?thesis using c by blast
qed

section \<open>Zeroed pages\<close>

lemma zero_run_bytes:
  assumes "\<forall>t \<in> set planes. plane_wf order P t" and n: "n \<le> P" and pos: "0 \<le> first"
  shows "set (concat (map zero_bytes (zero_run order planes first (int n))))
    = {plane_byte order t (first + int r) x | t r x. t \<in> set planes \<and> r < n \<and> x < page_bytes order t}"
  using assms(1)
proof (induction planes)
  case (Cons t ts)
  have wf: "plane_wf order P t" using Cons.prems by simp
  have pp: "fst ` set (page_pairs order t d d) = {plane_byte order t d x | x. x < page_bytes order t}" for d
    by (auto simp: page_pairs_def image_image)
  have cc: "fst ` set (concat (map (\<lambda>r. page_pairs order t (first + int r) (first + int r)) [0..<n]))
      = {plane_byte order t (first + int r) x | r x. r < n \<and> x < page_bytes order t}"
    unfolding set_concat image_UN set_map pp by (auto simp: pp) blast
  have "set (zero_bytes (hd (zero_run order (t # ts) first (int n))))
      = {plane_byte order t (first + int r) x | r x. r < n \<and> x < page_bytes order t}"
  proof (cases order)
    case PageMajor
    have "set (zero_bytes (hd (zero_run order (t # ts) first (int n))))
        = fst ` set (cmd_bytes (memcpy_1d (page_at (t_data t) first (nb t 3)) (page_at (t_data t) first (nb t 3))
            (of_nat n * word_of_int (nb t 3))))"
      unfolding cmd_bytes_1d by (simp add: PageMajor zero_bytes_def image_image)
    then show ?thesis
      unfolding run_pairs_major [OF wf [unfolded PageMajor] n pos pos] cc [unfolded PageMajor] PageMajor .
  next
    case HeadMajor
    let ?c = "memcpy_2d (page_at (t_data t) first (nb t 2)) (word_of_int (nb t 3)) (page_at (t_data t) first (nb t 2))
        (word_of_int (nb t 3)) (of_nat n * word_of_int (nb t 2)) (word_of_int (ne t 3))"
    have "set (zero_bytes (hd (zero_run order (t # ts) first (int n)))) = fst ` set (cmd_bytes ?c)"
      by (simp add: HeadMajor zero_bytes_def cmd_bytes_def memcpy_2d_def image_UN image_image)
    moreover have "set (cmd_bytes ?c) = set (concat (map (\<lambda>r. page_pairs order t (first + int r) (first + int r)) [0..<n]))"
      using arg_cong [OF run_pairs_head [OF wf [unfolded HeadMajor] n pos pos], of set_mset]
      unfolding HeadMajor set_mset_mset .
    ultimately show ?thesis using cc by simp
  qed
  moreover have "set (concat (map zero_bytes (zero_run order ts first (int n))))
      = {plane_byte order t (first + int r) x | t r x. t \<in> set ts \<and> r < n \<and> x < page_bytes order t}"
    by (rule Cons.IH) (use Cons.prems in simp)
  moreover have "zero_run order (t # ts) first (int n)
      = hd (zero_run order (t # ts) first (int n)) # zero_run order ts first (int n)" by simp
  ultimately have "set (concat (map zero_bytes (zero_run order (t # ts) first (int n))))
      = {plane_byte order t (first + int r) x | r x. r < n \<and> x < page_bytes order t} \<union>
        {plane_byte order t (first + int r) x | t r x. t \<in> set ts \<and> r < n \<and> x < page_bytes order t}"
    by (metis (no_types, lifting) concat.simps(2) list.map(2) set_append)
  then show ?case by auto
qed simp

lemma consecutive_end_run:
  "0 < e \<Longrightarrow> e \<le> length ids \<Longrightarrow> consecutive_end ids e \<le> length ids \<and>
     (\<forall>x. e - 1 \<le> x \<and> x < consecutive_end ids e \<longrightarrow> ids ! x = ids ! (e - 1) + int (x - (e - 1)))"
proof (induction ids e rule: consecutive_end.induct)
  case (1 ids e)
  show ?case
  proof (cases "e < length ids \<and> ids ! e = ids ! (e - 1) + 1")
    case True
    then have eq: "consecutive_end ids e = consecutive_end ids (Suc e)" by (subst consecutive_end.simps) simp
    have "0 < Suc e" "Suc e \<le> length ids" using True by simp_all
    note IH = 1(1) [OF True this]
    have "ids ! x = ids ! (e - 1) + int (x - (e - 1))" if x: "e - 1 \<le> x" "x < consecutive_end ids (Suc e)" for x
    proof (cases "x = e - 1")
      case False
      then have "Suc e - 1 \<le> x" using x(1) by simp
      then have "ids ! x = ids ! e + int (x - e)" using IH x(2) by (metis diff_Suc_1)
      moreover have "int (x - (e - 1)) = int (x - e) + 1" using False x(1) 1(2) by simp
      ultimately show ?thesis using True by simp
    qed simp
    then show ?thesis unfolding eq using IH by blast
  next
    case False
    then have "consecutive_end ids e = e" by (subst consecutive_end.simps) auto
    moreover have "x = e - 1" if "e - 1 \<le> x" "x < e" for x using that 1(2) by simp
    ultimately show ?thesis using 1(3) by auto
  qed
qed

lemma zero_loop_bytes:
  assumes wf: "\<forall>t \<in> set planes. plane_wf order P t" and pos: "\<forall>q \<in> set ids. 0 \<le> q" and len: "length ids \<le> P"
  shows "set (concat (map zero_bytes (zero_loop order planes ids b)))
    = {plane_byte order t (ids ! q) x | t q x. t \<in> set planes \<and> b \<le> q \<and> q < length ids \<and> x < page_bytes order t}"
proof (induction "length ids - b" arbitrary: b rule: less_induct)
  case less
  show ?case
  proof (cases "b < length ids")
    case False
    then show ?thesis by (subst zero_loop.simps) auto
  next
    case True
    define e where "e = consecutive_end ids (Suc b)"
    have be: "b < e" unfolding e_def by (rule consecutive_end_gt)
    have "0 < Suc b" "Suc b \<le> length ids" using True by simp_all
    note run = consecutive_end_run [OF this, folded e_def, unfolded diff_Suc_1]
    have el: "e \<le> length ids" using run by blast
    have ids: "ids ! (b + r) = ids ! b + int r" if "r < e - b" for r
    proof -
      have "b \<le> b + r" "b + r < e" using that by simp_all
      then have "ids ! (b + r) = ids ! b + int (b + r - b)" using run by blast
      then show ?thesis by simp
    qed
    have "e - b \<le> P" "0 \<le> ids ! b" using el len pos True by simp_all
    from zero_run_bytes [OF wf this]
    have "set (concat (map zero_bytes (zero_run order planes (ids ! b) (int (e - b)))))
      = {plane_byte order t (ids ! b + int r) x | t r x. t \<in> set planes \<and> r < e - b \<and> x < page_bytes order t}" .
    also have "\<dots> = {plane_byte order t (ids ! q) x | t q x. t \<in> set planes \<and> b \<le> q \<and> q < e \<and> x < page_bytes order t}"
    proof (intro equalityI subsetI; elim CollectE exE conjE)
      fix y t r x assume "y = plane_byte order t (ids ! b + int r) x" "t \<in> set planes" "r < e - b" "x < page_bytes order t"
      then show "y \<in> {plane_byte order t (ids ! q) x | t q x. t \<in> set planes \<and> b \<le> q \<and> q < e \<and> x < page_bytes order t}"
        using ids [of r] by (intro CollectI exI [of _ t] exI [of _ "b + r"] exI [of _ x]) simp
    next
      fix y t q x assume "y = plane_byte order t (ids ! q) x" "t \<in> set planes" "b \<le> q" "q < e" "x < page_bytes order t"
      then show "y \<in> {plane_byte order t (ids ! b + int r) x | t r x. t \<in> set planes \<and> r < e - b \<and> x < page_bytes order t}"
        using ids [of "q - b"] by (intro CollectI exI [of _ t] exI [of _ "q - b"] exI [of _ x]) simp
    qed
    finally have 1: "set (concat (map zero_bytes (zero_run order planes (ids ! b) (int (e - b)))))
      = {plane_byte order t (ids ! q) x | t q x. t \<in> set planes \<and> b \<le> q \<and> q < e \<and> x < page_bytes order t}" .
    have 2: "set (concat (map zero_bytes (zero_loop order planes ids e)))
      = {plane_byte order t (ids ! q) x | t q x. t \<in> set planes \<and> e \<le> q \<and> q < length ids \<and> x < page_bytes order t}"
      by (rule less) (use be True in simp)
    have step: "zero_loop order planes ids b
        = zero_run order planes (ids ! b) (int (e - b)) @ zero_loop order planes ids e"
      by (subst zero_loop.simps) (use True in \<open>simp add: Let_def e_def\<close>)
    have q: "b \<le> q \<and> q < length ids \<longleftrightarrow> (b \<le> q \<and> q < e) \<or> (e \<le> q \<and> q < length ids)" for q
      using be el by auto
    show ?thesis unfolding step map_append concat_append set_append 1 2 using q by blast
  qed
qed

lemma sorted_adjacent:
  "sorted (xs :: int list) \<Longrightarrow> list_ex (\<lambda>i. xs ! i = xs ! Suc i) [0..<length xs - 1] \<longleftrightarrow> \<not> distinct xs"
proof (induction xs)
  case (Cons x xs)
  have lx: "list_ex f [0..<n] \<longleftrightarrow> (\<exists>i < n. f i)" for f n by (auto simp: list_ex_iff)
  have IH: "list_ex (\<lambda>i. xs ! i = xs ! Suc i) [0..<length xs - 1] \<longleftrightarrow> \<not> distinct xs" using Cons by simp
  show ?case
  proof (cases xs)
    case (Cons y ys)
    have "(\<exists>i < length xs. (x # xs) ! i = (x # xs) ! Suc i) \<longleftrightarrow> x = y \<or> (\<exists>i < length ys. xs ! i = xs ! Suc i)"
      using Cons by (simp add: Ex_less_Suc2)
    then have "list_ex (\<lambda>i. (x # xs) ! i = (x # xs) ! Suc i) [0..<length (x # xs) - 1]
        \<longleftrightarrow> x = y \<or> \<not> distinct xs" using IH Cons unfolding lx by simp
    moreover have "x \<in> set xs \<longleftrightarrow> x = y" using Cons.prems Cons by (auto intro: order.antisym)
    ultimately show ?thesis by auto
  qed simp
qed simp

lemma sorted_range:
  assumes "sorted (xs :: int list)" and "xs \<noteq> []"
  shows "(hd xs < 0 \<or> last xs \<ge> u) \<longleftrightarrow> \<not> (\<forall>q \<in> set xs. 0 \<le> q \<and> q < u)"
proof
  assume "hd xs < 0 \<or> last xs \<ge> u"
  then show "\<not> (\<forall>q \<in> set xs. 0 \<le> q \<and> q < u)" using assms(2) hd_in_set last_in_set by (metis leD)
next
  assume "\<not> (\<forall>q \<in> set xs. 0 \<le> q \<and> q < u)"
  then obtain q where q: "q \<in> set xs" "q < 0 \<or> u \<le> q" by auto
  obtain i where i: "i < length xs" "q = xs ! i" using q(1) by (auto simp: in_set_conv_nth)
  have "hd xs \<le> q" using assms i sorted_nth_mono [of xs 0 i] by (simp add: hd_conv_nth)
  moreover have "q \<le> last xs" using assms i sorted_nth_mono [of xs i "length xs - 1"] by (simp add: last_conv_nth)
  ultimately show "hd xs < 0 \<or> last xs \<ge> u" using q(2) by linarith
qed

text \<open>
  C35: \<^verbatim>\<open>zero_pages\<close> of a reachable pool zeroes exactly the pages it is given. For distinct page
  numbers of the pool, in any order, the bytes its coalesced commands clear are the bytes of
  those pages in every plane and no others. A number outside the pool or a repeated number is
  refused, in this order, and then nothing is cleared.
\<close>

theorem zero_pages_exact:
  fixes h k
  defines "p \<equiv> kh_pools h ! k"
  assumes reach: "kv_reachable h" and k: "k < length (kh_pools h)"
  shows "if \<not> (\<forall>q \<in> set ids. 0 \<le> q \<and> q < int (unat (page_group_count p))) then zero_pages p ids = ([], Inl Out_of_range)
    else if \<not> distinct ids then zero_pages p ids = ([], Inl Invalid_argument)
    else \<exists>cs. zero_pages p ids = (cs, Inr ()) \<and> set (concat (map zero_bytes cs)) =
      {plane_byte (sp_plane_order (kp_spec p)) t q x | t q x.
         t \<in> set (kp_planes p) \<and> q \<in> set ids \<and> x < page_bytes (sp_plane_order (kp_spec p)) t}"
proof -
  let ?order = "sp_plane_order (kp_spec p)" and ?P = "unat (page_group_count p)" and ?s = "sort ids"
  note wf = reachable_planes(1) [OF reach k, folded p_def]
  have P: "sint (page_group_count p) = int ?P"
  proof (rule reachable_poolE [OF reach k])
    fix p0 assume "planned_pool p0" and eq: "kp_spec (kh_pools h ! k) = kp_spec p0"
    then show ?thesis
    proof (elim planned_poolE)
      assume "unat (page_group_count p0) < 2 ^ 31"
      then have "page_group_count p0 \<le> 0x7FFFFFFF" by (simp add: word_le_nat_alt)
      then show ?thesis using eq by (simp add: p_def sint_small)
    qed
  qed
  show ?thesis
  proof (cases "ids = []")
    case True
    then show ?thesis by (simp add: zero_pages_def)
  next
    case False
    have ne: "?s \<noteq> []" using False by (metis length_sort length_0_conv)
    have g: "zero_pages p ids = (if \<not> (\<forall>q \<in> set ids. 0 \<le> q \<and> q < int ?P) then ([], Inl Out_of_range)
        else if \<not> distinct ids then ([], Inl Invalid_argument) else (zero_loop ?order (kp_planes p) ?s 0, Inr ()))"
      unfolding zero_pages_def Let_def P sorted_range [OF sorted_sort ne] sorted_adjacent [OF sorted_sort]
      using ne by (simp only: set_sort distinct_sort if_False)
    have "set (concat (map zero_bytes (zero_loop ?order (kp_planes p) ?s 0))) =
        {plane_byte ?order t q x | t q x. t \<in> set (kp_planes p) \<and> q \<in> set ids \<and> x < page_bytes ?order t}"
      if r: "\<forall>q \<in> set ids. 0 \<le> q \<and> q < int ?P" and d: "distinct ids"
    proof -
      have "\<forall>q \<in> set ?s. 0 \<le> q" "length ?s \<le> ?P" using r pages_le_groups [OF d r] by simp_all
      from zero_loop_bytes [OF wf this, of 0] have "set (concat (map zero_bytes (zero_loop ?order (kp_planes p) ?s 0))) =
        {plane_byte ?order t (?s ! q) x | t q x. t \<in> set (kp_planes p) \<and> q < length ?s \<and> x < page_bytes ?order t}" by simp
      also have "\<dots> = {plane_byte ?order t q x | t q x. t \<in> set (kp_planes p) \<and> q \<in> set ?s \<and> x < page_bytes ?order t}"
        unfolding in_set_conv_nth by blast
      finally show ?thesis by simp
    qed
    then show ?thesis unfolding g by simp
  qed
qed

theorem zero_pages_exact_witness:
  "snd (zero_pages demo_pool [5, 2, 3]) = Inr () \<and>
   set (concat (map zero_bytes (fst (zero_pages demo_pool [5, 2, 3]))))
     = {plane_byte PageMajor t q x | t q x. t \<in> set (kp_planes demo_pool) \<and> q \<in> {5, 2, 3} \<and> x < page_bytes PageMajor t}"
proof -
  have "0 < length (kh_pools demo_heap)" by (simp add: demo_heap_def)
  moreover have "kh_pools demo_heap ! 0 = demo_pool" by (simp add: demo_heap_def)
  moreover have "unat (page_group_count demo_pool) = 8" "sp_plane_order (kp_spec demo_pool) = PageMajor"
    by (simp_all add: demo_pool_def demo_spec_def)
  ultimately have "\<exists>cs. zero_pages demo_pool [5, 2, 3] = (cs, Inr ()) \<and> set (concat (map zero_bytes cs)) =
      {plane_byte PageMajor t q x | t q x. t \<in> set (kp_planes demo_pool) \<and> q \<in> set [5, 2, 3] \<and> x < page_bytes PageMajor t}"
    using zero_pages_exact [OF demo_heap_reachable, of 0 "[5, 2, 3]"] by simp
  then obtain cs where z: "zero_pages demo_pool [5, 2, 3] = (cs, Inr ())" and b: "set (concat (map zero_bytes cs)) =
      {plane_byte PageMajor t q x | t q x. t \<in> set (kp_planes demo_pool) \<and> q \<in> set [5, 2, 3] \<and> x < page_bytes PageMajor t}"
    by blast
  show ?thesis unfolding z fst_conv snd_conv b by simp
qed

end
