(* ===== verification/Admission_Policy.thy ===== *)
theory Admission_Policy
  imports Prelude "HOL-Library.Product_Lexorder"
begin

text \<open>
  Protected admission: \<^verbatim>\<open>runtime/engine/admission_policy.cpp\<close> and the decision of
  \<^verbatim>\<open>runtime/engine/concurrent_executor.h\<close> that uses it. When the head of the queue does not fit
  beside the active requests, the engine freezes the active set, computes which of its members
  have to finish before the head fits, and lets younger requests run ahead only when they cannot
  delay the head past that frontier. The theory shows that the frontier is the shortest prefix of
  projected completions, that later admissions never overdraw it, and how much work the head can
  be asked to wait for.
\<close>

section \<open>Resources\<close>

record admission_resources =
  active_lanes :: u32
  main_kv_pages :: u32
  backend_kv_pages :: u32

record resource_totals =
  rt_active_lanes :: u64
  rt_main_kv_pages :: u64
  rt_backend_kv_pages :: u64

definition no_totals :: resource_totals where
  "no_totals = \<lparr> rt_active_lanes = 0, rt_main_kv_pages = 0, rt_backend_kv_pages = 0 \<rparr>"

definition add_resources :: "resource_totals \<Rightarrow> admission_resources \<Rightarrow> resource_totals" where
  "add_resources totals res =
     \<lparr> rt_active_lanes = rt_active_lanes totals + ucast (active_lanes res),
       rt_main_kv_pages = rt_main_kv_pages totals + ucast (main_kv_pages res),
       rt_backend_kv_pages = rt_backend_kv_pages totals + ucast (backend_kv_pages res) \<rparr>"

definition subtract_resources :: "resource_totals \<Rightarrow> admission_resources \<Rightarrow> resource_totals result" where
  "subtract_resources totals res =
     (if ucast (active_lanes res) > rt_active_lanes totals \<or>
         ucast (main_kv_pages res) > rt_main_kv_pages totals \<or>
         ucast (backend_kv_pages res) > rt_backend_kv_pages totals
      then Inl Logic_error
      else Inr \<lparr> rt_active_lanes = rt_active_lanes totals - ucast (active_lanes res),
                 rt_main_kv_pages = rt_main_kv_pages totals - ucast (main_kv_pages res),
                 rt_backend_kv_pages = rt_backend_kv_pages totals - ucast (backend_kv_pages res) \<rparr>)"

definition fits :: "resource_totals \<Rightarrow> admission_resources \<Rightarrow> bool" where
  "fits used cap \<longleftrightarrow>
     rt_active_lanes used \<le> ucast (active_lanes cap) \<and>
     rt_main_kv_pages used \<le> ucast (main_kv_pages cap) \<and>
     rt_backend_kv_pages used \<le> ucast (backend_kv_pages cap)"

definition admission_resources_fit :: "admission_resources \<Rightarrow> admission_resources \<Rightarrow> bool" where
  "admission_resources_fit used cap = fits (add_resources no_totals used) cap"

section \<open>Active requests and the protected frontier\<close>

datatype backfill_class = NoBackfill | Persistent | Temporal

record admission_snapshot =
  sn_request_id :: u64
  sn_resources :: admission_resources
  sn_remaining_work_quanta :: u64
  sn_backfill_epoch :: u64
  sn_backfill_class :: backfill_class

datatype protection_phase = Open | Drain

text \<open>The arrays of the structure with their counts are lists here.\<close>

record admission_protection =
  ap_epoch_id :: u64
  ap_head_request_id :: u64
  ap_head_resources :: admission_resources
  ap_incumbent_ids :: "u64 list"
  ap_donor_ids :: "u64 list"
  ap_temporal_credit :: u64
  ap_phase :: protection_phase

definition kMaximumConcurrency :: nat where
  "kMaximumConcurrency = 6"

definition is_incumbent :: "admission_protection \<Rightarrow> u64 \<Rightarrow> bool" where
  "is_incumbent protection rid = List.member (ap_incumbent_ids protection) rid"

definition is_donor :: "admission_protection \<Rightarrow> u64 \<Rightarrow> bool" where
  "is_donor protection rid = List.member (ap_donor_ids protection) rid"

text \<open>The loop over the frozen incumbents: their ids and the resources they hold.\<close>

fun freeze_incumbents :: "resource_totals \<Rightarrow> admission_snapshot list \<Rightarrow> (u64 list \<times> resource_totals) result" where
  "freeze_incumbents survivors [] = Inr ([], survivors)"
| "freeze_incumbents survivors (s # active) =
     (if sn_request_id s = 0 \<or> sn_remaining_work_quanta s = 0 then Inl Invalid_argument
      else bind_result (freeze_incumbents (add_resources survivors (sn_resources s)) active)
             (\<lambda>(ids, t). Inr (sn_request_id s # ids, t)))"

text \<open>
  The comparator of the sort orders by remaining work, then by request id. The order in which
  \<^verbatim>\<open>std::sort\<close> leaves two requests that agree on both is not specified; request ids are unique.
\<close>

definition donor_order :: "admission_snapshot list \<Rightarrow> admission_snapshot list" where
  "donor_order active =
     map ((!) active)
       (sort_key (\<lambda>i. (sn_remaining_work_quanta (active ! i), sn_request_id (active ! i)))
          [0..<length active])"

fun donor_loop ::
  "admission_resources \<Rightarrow> resource_totals \<Rightarrow> u64 list \<Rightarrow> admission_snapshot list \<Rightarrow> (u64 list \<times> u64) result" where
  "donor_loop cap survivors donors [] = Inl Logic_error"
| "donor_loop cap survivors donors (donor # order) =
     bind_result (subtract_resources survivors (sn_resources donor)) (\<lambda>survivors'.
       if fits survivors' cap
       then Inr (donors @ [sn_request_id donor], sn_remaining_work_quanta donor)
       else donor_loop cap survivors' (donors @ [sn_request_id donor]) order)"

definition make_admission_protection ::
  "u64 \<Rightarrow> u64 \<Rightarrow> admission_resources \<Rightarrow> admission_snapshot list \<Rightarrow> admission_resources \<Rightarrow>
   admission_protection result" where
  "make_admission_protection epoch head_id head active cap =
     (if epoch = 0 \<or> head_id = 0 \<or> active = [] \<or> length active > kMaximumConcurrency \<or>
         active_lanes head = 0 \<or> \<not> admission_resources_fit head cap
      then Inl Invalid_argument
      else bind_result (freeze_incumbents no_totals active) (\<lambda>(ids, held).
        let survivors = add_resources held head in
        if fits survivors cap then Inl Invalid_argument
        else bind_result (donor_loop cap survivors [] (donor_order active)) (\<lambda>(donors, credit).
          Inr \<lparr> ap_epoch_id = epoch, ap_head_request_id = head_id, ap_head_resources = head,
                ap_incumbent_ids = ids, ap_donor_ids = donors, ap_temporal_credit = credit,
                ap_phase = Open \<rparr>)))"

definition counts_in_future :: "admission_protection \<Rightarrow> admission_snapshot \<Rightarrow> bool" where
  "counts_in_future protection s =
     (if is_incumbent protection (sn_request_id s) then \<not> is_donor protection (sn_request_id s)
      else sn_backfill_epoch s = ap_epoch_id protection \<and> sn_backfill_class s = Persistent)"

fun future_totals ::
  "admission_protection \<Rightarrow> resource_totals \<Rightarrow> admission_snapshot list \<Rightarrow> resource_totals" where
  "future_totals protection future [] = future"
| "future_totals protection future (s # active) =
     future_totals protection
       (if counts_in_future protection s then add_resources future (sn_resources s) else future) active"

definition persistent_backfill_is_safe ::
  "admission_protection \<Rightarrow> admission_snapshot list \<Rightarrow> admission_resources \<Rightarrow> admission_resources \<Rightarrow> bool" where
  "persistent_backfill_is_safe protection active candidate cap =
     fits (add_resources
             (future_totals protection (add_resources no_totals (ap_head_resources protection)) active)
             candidate) cap"

fun frontier_loop :: "admission_protection \<Rightarrow> u64 \<Rightarrow> admission_snapshot list \<Rightarrow> u64" where
  "frontier_loop protection distance [] = distance"
| "frontier_loop protection distance (s # active) =
     frontier_loop protection
       (if is_donor protection (sn_request_id s) then max distance (sn_remaining_work_quanta s)
        else distance) active"

definition protection_frontier_distance :: "admission_protection \<Rightarrow> admission_snapshot list \<Rightarrow> u64" where
  "protection_frontier_distance protection active = frontier_loop protection 0 active"

definition counts_without_temporal :: "admission_protection \<Rightarrow> admission_snapshot \<Rightarrow> bool" where
  "counts_without_temporal protection s \<longleftrightarrow>
     is_incumbent protection (sn_request_id s) \<or>
     sn_backfill_epoch s \<noteq> ap_epoch_id protection \<or> sn_backfill_class s \<noteq> Temporal"

fun used_totals ::
  "admission_protection \<Rightarrow> resource_totals \<Rightarrow> admission_snapshot list \<Rightarrow> resource_totals" where
  "used_totals protection used [] = used"
| "used_totals protection used (s # active) =
     used_totals protection
       (if counts_without_temporal protection s then add_resources used (sn_resources s) else used) active"

definition protected_head_safe_without_temporal ::
  "admission_protection \<Rightarrow> admission_snapshot list \<Rightarrow> admission_resources \<Rightarrow> bool" where
  "protected_head_safe_without_temporal protection active cap =
     fits (used_totals protection (add_resources no_totals (ap_head_resources protection)) active) cap"

section \<open>Admission bursts between decode rounds\<close>

record decode_admission_burst =
  remaining_budget :: "u32 option"
  admissions :: u32

definition complete_decode :: "decode_admission_burst \<Rightarrow> decode_admission_burst" where
  "complete_decode b = b\<lparr> remaining_budget := None, admissions := 0 \<rparr>"

definition observe_membership ::
  "decode_admission_burst \<Rightarrow> u32 \<Rightarrow> u32 \<Rightarrow> u32 \<Rightarrow> decode_admission_burst result" where
  "observe_membership b max_concurrency active_slots membership_slots =
     (if membership_slots = 0 then Inr (complete_decode b)
      else if active_slots < membership_slots \<or> active_slots > max_concurrency then Inl Logic_error
      else Inr (if remaining_budget b = None
                then b\<lparr> remaining_budget := Some (max_concurrency - active_slots) \<rparr> else b))"

definition allows_admission :: "decode_admission_burst \<Rightarrow> bool" where
  "allows_admission b = (case remaining_budget b of None \<Rightarrow> True | Some n \<Rightarrow> n \<noteq> 0)"

definition consume_admission :: "decode_admission_burst \<Rightarrow> decode_admission_burst result" where
  "consume_admission b =
     (case remaining_budget b of
        None \<Rightarrow> Inl Logic_error
      | Some n \<Rightarrow> if n = 0 then Inl Logic_error
                 else Inr (b\<lparr> remaining_budget := Some (n - 1), admissions := admissions b + 1 \<rparr>))"

section \<open>The engine's decision on a younger request\<close>

definition backfill_decision ::
  "admission_protection \<Rightarrow> admission_snapshot list \<Rightarrow> admission_resources \<Rightarrow> admission_resources \<Rightarrow> u64 \<Rightarrow>
   backfill_class" where
  "backfill_decision protection active cap candidate work =
     (let distance = protection_frontier_distance protection active in
      if persistent_backfill_is_safe protection active candidate cap then Persistent
      else if work \<le> distance \<and> work \<le> ap_temporal_credit protection then Temporal
      else NoBackfill)"

text \<open>What the admission of a backfill writes: the credit, and the fields the snapshot reads.\<close>

definition charge_credit ::
  "admission_protection \<Rightarrow> backfill_class \<Rightarrow> u64 \<Rightarrow> u64 \<Rightarrow> admission_protection result" where
  "charge_credit protection cls epoch work =
     (if cls = Temporal then
        if ap_epoch_id protection \<noteq> epoch \<or> work > ap_temporal_credit protection then Inl Logic_error
        else Inr (protection\<lparr> ap_temporal_credit := ap_temporal_credit protection - work \<rparr>)
      else Inr protection)"

definition admitted_snapshot ::
  "u64 \<Rightarrow> admission_resources \<Rightarrow> u64 \<Rightarrow> u64 \<Rightarrow> backfill_class \<Rightarrow> admission_snapshot" where
  "admitted_snapshot rid res work epoch cls =
     \<lparr> sn_request_id = rid, sn_resources = res, sn_remaining_work_quanta = work,
       sn_backfill_epoch = epoch, sn_backfill_class = cls \<rparr>"

definition consume_service_work :: "admission_snapshot \<Rightarrow> u64 \<Rightarrow> admission_snapshot result" where
  "consume_service_work s work =
     (if work = 0 \<or> work > sn_remaining_work_quanta s then Inl Logic_error
      else Inr (s\<lparr> sn_remaining_work_quanta := sn_remaining_work_quanta s - work \<rparr>))"

text \<open>
  One protection epoch of the engine. Two fields are ghosts: \<open>pe_lent\<close> is the work of the temporal
  borrowers admitted so far, and \<open>pe_rounds\<close> counts the rounds in which every active request with work
  left was served, the clock in which the remaining work of a request measures its distance. A round
  serves each request at least one quantum; a request may also be served alone, or finish early and
  free its lane. A younger request is admitted when the decision allows it, and the engine stops
  lending once the head fits without borrowers. The id of an admitted request is new: an engine-wide
  counter numbers the requests.
\<close>

record protection_epoch =
  pe_protection :: admission_protection
  pe_active :: "admission_snapshot list"
  pe_lent :: nat
  pe_rounds :: nat

definition served :: "admission_snapshot \<Rightarrow> admission_snapshot \<Rightarrow> bool" where
  "served s s' \<longleftrightarrow>
     (if sn_remaining_work_quanta s = 0 then s' = s else \<exists>work. consume_service_work s work = Inr s')"

inductive epoch_step :: "admission_resources \<Rightarrow> protection_epoch \<Rightarrow> protection_epoch \<Rightarrow> bool" for cap where
  run: "i < length (pe_active e) \<Longrightarrow> consume_service_work (pe_active e ! i) work = Inr s \<Longrightarrow>
    epoch_step cap e (e\<lparr> pe_active := (pe_active e)[i := s] \<rparr>)"
| round: "list_all2 served (pe_active e) active \<Longrightarrow>
    epoch_step cap e (e\<lparr> pe_active := active, pe_rounds := Suc (pe_rounds e) \<rparr>)"
| finish: "i < length (pe_active e) \<Longrightarrow>
    epoch_step cap e (e\<lparr> pe_active := take i (pe_active e) @ drop (Suc i) (pe_active e) \<rparr>)"
| drain: "protected_head_safe_without_temporal (pe_protection e) (pe_active e) cap \<Longrightarrow>
    epoch_step cap e (e\<lparr> pe_protection := (pe_protection e)\<lparr> ap_phase := Drain \<rparr> \<rparr>)"
| backfill: "ap_phase (pe_protection e) = Open \<Longrightarrow>
    length (pe_active e) < kMaximumConcurrency \<Longrightarrow>
    \<not> is_incumbent (pe_protection e) rid \<Longrightarrow> rid \<notin> sn_request_id ` set (pe_active e) \<Longrightarrow>
    cls = backfill_decision (pe_protection e) (pe_active e) cap res work \<Longrightarrow> cls \<noteq> NoBackfill \<Longrightarrow>
    charge_credit (pe_protection e) cls (ap_epoch_id (pe_protection e)) work = Inr p \<Longrightarrow>
    epoch_step cap e
      \<lparr> pe_protection = p,
        pe_active = pe_active e @ [admitted_snapshot rid res work (ap_epoch_id (pe_protection e)) cls],
        pe_lent = pe_lent e + (if cls = Temporal then unat work else 0), pe_rounds = pe_rounds e \<rparr>"

inductive_cases epoch_stepE: "epoch_step cap e e'"

inductive epoch_reachable :: "admission_resources \<Rightarrow> protection_epoch \<Rightarrow> protection_epoch \<Rightarrow> bool" for cap where
  start: "epoch_reachable cap e e"
| step: "epoch_reachable cap e e' \<Longrightarrow> epoch_step cap e' e'' \<Longrightarrow> epoch_reachable cap e e''"

section \<open>Totals as sums\<close>

text \<open>The same accounting without machine words: a multiset of requirements fits componentwise.\<close>

definition usage :: "(admission_resources \<Rightarrow> u32) \<Rightarrow> admission_resources list \<Rightarrow> nat" where
  "usage f rs = (\<Sum>r\<leftarrow>rs. unat (f r))"

definition resources_fit :: "admission_resources list \<Rightarrow> admission_resources \<Rightarrow> bool" where
  "resources_fit rs cap \<longleftrightarrow>
     usage active_lanes rs \<le> unat (active_lanes cap) \<and>
     usage main_kv_pages rs \<le> unat (main_kv_pages cap) \<and>
     usage backend_kv_pages rs \<le> unat (backend_kv_pages cap)"

definition totals_count :: "resource_totals \<Rightarrow> admission_resources list \<Rightarrow> bool" where
  "totals_count t rs \<longleftrightarrow>
     unat (rt_active_lanes t) = usage active_lanes rs \<and>
     unat (rt_main_kv_pages t) = usage main_kv_pages rs \<and>
     unat (rt_backend_kv_pages t) = usage backend_kv_pages rs"

lemma usage_simps [simp]: "usage f [] = 0" "usage f (r # rs) = unat (f r) + usage f rs"
  "usage f (rs @ qs) = usage f rs + usage f qs"
  by (simp_all add: usage_def)

lemma usage_bound: "usage f rs \<le> length rs * 4294967295"
proof (induction rs)
  case (Cons r rs)
  have "unat (f r) \<le> 4294967295" using unat_u32_bound [of "f r"] by linarith
  with Cons show ?case by simp
qed simp

lemma usage_mset: "mset rs = mset qs \<Longrightarrow> usage f rs = usage f qs"
  unfolding usage_def by (metis mset_map sum_mset_sum_list)

lemma resources_fit_mset: "mset rs = mset qs \<Longrightarrow> resources_fit rs cap = resources_fit qs cap"
  unfolding resources_fit_def by (simp only: usage_mset [of rs qs])

lemma resources_fit_mono: "mset qs \<subseteq># mset rs \<Longrightarrow> resources_fit rs cap \<Longrightarrow> resources_fit qs cap"
proof -
  assume sub: "mset qs \<subseteq># mset rs" and fit: "resources_fit rs cap"
  obtain ps where "mset rs = mset (qs @ ps)"
    using sub by (metis ex_mset mset_append subset_mset.add_diff_inverse)
  then have "usage f qs \<le> usage f rs" for f using usage_mset [of rs "qs @ ps" f] by simp
  then show ?thesis using fit unfolding resources_fit_def by (meson le_trans)
qed

lemma totals_count_mset: "mset rs = mset qs \<Longrightarrow> totals_count t rs = totals_count t qs"
  unfolding totals_count_def by (simp only: usage_mset [of rs qs])

lemma totals_count_none [simp]: "totals_count no_totals []"
  by (simp add: totals_count_def no_totals_def)

lemma unat_add_u32:
  "unat t = usage f rs \<Longrightarrow> length rs < 4294967295 \<Longrightarrow> unat (t + ucast (f r :: u32) :: u64) = usage f (r # rs)"
  using usage_bound [of f "r # rs"] by (simp add: unat_word_ariths unsigned_ucast_eq)

lemma totals_count_add:
  "totals_count t rs \<Longrightarrow> length rs < 4294967295 \<Longrightarrow> totals_count (add_resources t r) (r # rs)"
  unfolding totals_count_def add_resources_def by (auto simp only: resource_totals.simps unat_add_u32)

lemma fits_totals: "totals_count t rs \<Longrightarrow> fits t cap = resources_fit rs cap"
  by (simp add: totals_count_def fits_def resources_fit_def word_le_nat_alt)

lemma subtract_totals:
  assumes "totals_count t (r # rs)"
  shows "\<exists>t'. subtract_resources t r = Inr t' \<and> totals_count t' rs"
  using assms unfolding totals_count_def subtract_resources_def
  by (auto simp: word_less_nat_alt unat_sub word_le_nat_alt)

lemma admission_resources_fit_iff: "admission_resources_fit used cap = resources_fit [used] cap"
  unfolding admission_resources_fit_def by (rule fits_totals) (rule totals_count_add, simp_all)

section \<open>The frozen frontier\<close>

lemma donor_order_mset [simp]: "mset (donor_order active) = mset active"
proof -
  have "mset (donor_order active) = image_mset ((!) active) (mset [0..<length active])"
    by (simp add: donor_order_def)
  also have "\<dots> = mset (map ((!) active) [0..<length active])" by (simp only: mset_map)
  finally show ?thesis by (simp only: map_nth)
qed

lemma donor_order_set [simp]: "set (donor_order active) = set active"
  using mset_eq_setD [OF donor_order_mset] .

lemma donor_order_length [simp]: "length (donor_order active) = length active"
  by (simp add: donor_order_def)

lemma donor_order_sorted:
  "sorted (map (\<lambda>s. (sn_remaining_work_quanta s, sn_request_id s)) (donor_order active))"
  using sorted_sort_key [of "\<lambda>i. (sn_remaining_work_quanta (active ! i), sn_request_id (active ! i))"
      "[0..<length active]"]
  by (simp add: donor_order_def comp_def)

lemma freeze_incumbents_Inl:
  "\<exists>s\<in>set active. sn_request_id s = 0 \<or> sn_remaining_work_quanta s = 0 \<Longrightarrow>
   freeze_incumbents t active = Inl Invalid_argument"
proof (induction t active rule: freeze_incumbents.induct)
  case (2 t s active)
  then show ?case
    by (cases "sn_request_id s = 0 \<or> sn_remaining_work_quanta s = 0") simp_all
qed simp

lemma freeze_incumbents_Inr:
  "\<forall>s\<in>set active. sn_request_id s \<noteq> 0 \<and> sn_remaining_work_quanta s \<noteq> 0 \<Longrightarrow>
   totals_count t rs \<Longrightarrow> length rs + length active < 4294967295 \<Longrightarrow>
   \<exists>t'. freeze_incumbents t active = Inr (map sn_request_id active, t') \<and>
        totals_count t' (rev (map sn_resources active) @ rs)"
proof (induction t active arbitrary: rs rule: freeze_incumbents.induct)
  case (2 t s active)
  have "totals_count (add_resources t (sn_resources s)) (sn_resources s # rs)"
    by (rule totals_count_add) (use 2 in auto)
  then show ?case using 2(1) [of "sn_resources s # rs"] 2(2,4) by auto
qed auto

lemma donor_loop_least:
  assumes "totals_count t (head # map sn_resources xs)"
    and "\<not> resources_fit (head # map sn_resources xs) cap" and "resources_fit [head] cap"
  shows "\<exists>k. 0 < k \<and> k \<le> length xs \<and> resources_fit (head # map sn_resources (drop k xs)) cap \<and>
    (\<forall>j<k. \<not> resources_fit (head # map sn_resources (drop j xs)) cap) \<and>
    donor_loop cap t ds xs = Inr (ds @ map sn_request_id (take k xs), sn_remaining_work_quanta (xs ! (k - 1)))"
  using assms(1,2)
proof (induction xs arbitrary: t ds)
  case Nil
  then show ?case using assms(3) by simp
next
  case (Cons x xs)
  have "totals_count t (sn_resources x # head # map sn_resources xs)"
    using Cons.prems(1) by (rule iffD1 [OF totals_count_mset, rotated]) simp
  then obtain t' where t': "subtract_resources t (sn_resources x) = Inr t'"
    "totals_count t' (head # map sn_resources xs)" using subtract_totals by blast
  show ?case
  proof (cases "resources_fit (head # map sn_resources xs) cap")
    case True
    then show ?thesis using t' fits_totals [OF t'(2)] Cons.prems(2) by (intro exI [of _ 1]) simp
  next
    case False
    from Cons.IH [OF t'(2) False, of "ds @ [sn_request_id x]"] obtain k where k: "0 < k" "k \<le> length xs"
      "resources_fit (head # map sn_resources (drop k xs)) cap"
      "\<forall>j<k. \<not> resources_fit (head # map sn_resources (drop j xs)) cap"
      "donor_loop cap t' (ds @ [sn_request_id x]) xs
        = Inr ((ds @ [sn_request_id x]) @ map sn_request_id (take k xs), sn_remaining_work_quanta (xs ! (k - 1)))"
      by blast
    have "\<forall>j<Suc k. \<not> resources_fit (head # map sn_resources (drop j (x # xs))) cap"
      using k(4) Cons.prems(2) by (auto simp: drop_Cons split: nat.splits)
    then show ?thesis using k t' False fits_totals [OF t'(2)]
      by (intro exI [of _ "Suc k"]) (simp add: nth_Cons')
  qed
qed

definition frontier_length :: "admission_resources \<Rightarrow> admission_snapshot list \<Rightarrow> admission_resources \<Rightarrow> nat" where
  "frontier_length head active cap =
     (LEAST k. resources_fit (head # map sn_resources (drop k (donor_order active))) cap)"

definition protectable ::
  "u64 \<Rightarrow> u64 \<Rightarrow> admission_resources \<Rightarrow> admission_snapshot list \<Rightarrow> admission_resources \<Rightarrow> bool" where
  "protectable epoch head_id head active cap \<longleftrightarrow>
     epoch \<noteq> 0 \<and> head_id \<noteq> 0 \<and> active \<noteq> [] \<and> length active \<le> kMaximumConcurrency \<and>
     active_lanes head \<noteq> 0 \<and> resources_fit [head] cap \<and>
     (\<forall>s\<in>set active. sn_request_id s \<noteq> 0 \<and> sn_remaining_work_quanta s \<noteq> 0) \<and>
     \<not> resources_fit (head # map sn_resources active) cap"

lemma resources_fit_order:
  "resources_fit (head # map sn_resources (donor_order active)) cap
    = resources_fit (head # map sn_resources active) cap"
  by (rule resources_fit_mset) simp

lemma make_admission_protection_eq:
  "make_admission_protection epoch head_id head active cap =
    (if protectable epoch head_id head active cap
     then Inr \<lparr> ap_epoch_id = epoch, ap_head_request_id = head_id, ap_head_resources = head,
       ap_incumbent_ids = map sn_request_id active,
       ap_donor_ids = map sn_request_id (take (frontier_length head active cap) (donor_order active)),
       ap_temporal_credit =
         sn_remaining_work_quanta (donor_order active ! (frontier_length head active cap - 1)),
       ap_phase = Open \<rparr>
     else Inl Invalid_argument)"
proof (cases "epoch = 0 \<or> head_id = 0 \<or> active = [] \<or> length active > kMaximumConcurrency \<or>
    active_lanes head = 0 \<or> \<not> resources_fit [head] cap")
  case True
  then show ?thesis
    by (auto simp: make_admission_protection_def protectable_def admission_resources_fit_iff)
next
  case g: False
  show ?thesis
  proof (cases "\<forall>s\<in>set active. sn_request_id s \<noteq> 0 \<and> sn_remaining_work_quanta s \<noteq> 0")
    case False
    then have "freeze_incumbents no_totals active = Inl Invalid_argument"
      by (intro freeze_incumbents_Inl) blast
    then show ?thesis using False
      by (simp add: make_admission_protection_def protectable_def)
  next
    case True
    have "length active < 4294967295" using g by (simp add: kMaximumConcurrency_def)
    then obtain held where held: "freeze_incumbents no_totals active = Inr (map sn_request_id active, held)"
      "totals_count held (rev (map sn_resources active))"
      using freeze_incumbents_Inr [OF True totals_count_none] by auto
    let ?t = "add_resources held head"
    have "totals_count ?t (head # rev (map sn_resources active))"
      by (rule totals_count_add [OF held(2)]) (use g in \<open>simp add: kMaximumConcurrency_def\<close>)
    then have t: "totals_count ?t (head # map sn_resources (donor_order active))"
      by (rule iffD1 [OF totals_count_mset, rotated]) simp
    have ft: "fits ?t cap = resources_fit (head # map sn_resources active) cap"
      using fits_totals [OF t] by (simp only: resources_fit_order)
    show ?thesis
    proof (cases "resources_fit (head # map sn_resources active) cap")
      case blocked: True
      then show ?thesis using held ft
        by (simp add: make_admission_protection_def protectable_def)
    next
      case blocked: False
      from donor_loop_least [OF t _ , of cap "[]"] g blocked
      obtain k where k: "resources_fit (head # map sn_resources (drop k (donor_order active))) cap"
        "\<forall>j<k. \<not> resources_fit (head # map sn_resources (drop j (donor_order active))) cap"
        "donor_loop cap ?t [] (donor_order active) = Inr (map sn_request_id (take k (donor_order active)),
            sn_remaining_work_quanta (donor_order active ! (k - 1)))"
        by (auto simp: resources_fit_order)
      have "frontier_length head active cap = k"
        unfolding frontier_length_def using k(1,2) by (metis (mono_tags, lifting) Least_equality linorder_not_le)
      then show ?thesis using k(3) held ft blocked g True
        by (simp add: make_admission_protection_def protectable_def admission_resources_fit_iff)
    qed
  qed
qed

lemma frontier_length_spec:
  assumes "protectable epoch head_id head active cap"
  shows "0 < frontier_length head active cap" "frontier_length head active cap \<le> length active"
    "resources_fit (head # map sn_resources (drop (frontier_length head active cap) (donor_order active))) cap"
    "k < frontier_length head active cap \<Longrightarrow>
     \<not> resources_fit (head # map sn_resources (drop k (donor_order active))) cap"
proof -
  let ?P = "\<lambda>k. resources_fit (head # map sn_resources (drop k (donor_order active))) cap"
  have full: "?P (length active)" using assms by (simp add: protectable_def)
  show l: "?P (frontier_length head active cap)" unfolding frontier_length_def by (rule LeastI [of ?P, OF full])
  show "frontier_length head active cap \<le> length active"
    unfolding frontier_length_def by (rule Least_le [of ?P, OF full])
  show "k < frontier_length head active cap \<Longrightarrow> \<not> ?P k"
    unfolding frontier_length_def by (rule not_less_Least)
  have "\<not> ?P 0" using assms by (simp add: protectable_def resources_fit_order)
  then show "0 < frontier_length head active cap" using l by (cases "frontier_length head active cap") auto
qed

section \<open>Lending against the frontier\<close>

lemma future_totals_count:
  "totals_count t rs \<Longrightarrow> length rs + length active < 4294967295 \<Longrightarrow>
   totals_count (future_totals p t active) (rev (map sn_resources (filter (counts_in_future p) active)) @ rs)"
proof (induction p t active arbitrary: rs rule: future_totals.induct)
  case (2 p t s active)
  show ?case
  proof (cases "counts_in_future p s")
    case True
    have "totals_count (add_resources t (sn_resources s)) (sn_resources s # rs)"
      by (rule totals_count_add) (use 2 in auto)
    then show ?thesis using 2(1) [of "sn_resources s # rs"] 2(3) True by simp
  qed (use 2 in simp)
qed simp

lemma used_totals_count:
  "totals_count t rs \<Longrightarrow> length rs + length active < 4294967295 \<Longrightarrow>
   totals_count (used_totals p t active) (rev (map sn_resources (filter (counts_without_temporal p) active)) @ rs)"
proof (induction p t active arbitrary: rs rule: used_totals.induct)
  case (2 p t s active)
  show ?case
  proof (cases "counts_without_temporal p s")
    case True
    have "totals_count (add_resources t (sn_resources s)) (sn_resources s # rs)"
      by (rule totals_count_add) (use 2 in auto)
    then show ?thesis using 2(1) [of "sn_resources s # rs"] 2(3) True by simp
  qed (use 2 in simp)
qed simp

definition future_fits :: "admission_protection \<Rightarrow> admission_snapshot list \<Rightarrow> admission_resources \<Rightarrow> bool" where
  "future_fits p active cap =
     resources_fit (ap_head_resources p # map sn_resources (filter (counts_in_future p) active)) cap"

lemma head_totals: "totals_count (add_resources no_totals r) [r]"
  by (rule totals_count_add) simp_all

lemma persistent_backfill_is_safe_iff:
  assumes "length active \<le> kMaximumConcurrency"
  shows "persistent_backfill_is_safe p active res cap =
    resources_fit (res # ap_head_resources p # map sn_resources (filter (counts_in_future p) active)) cap"
proof -
  let ?fs = "map sn_resources (filter (counts_in_future p) active)"
  have "totals_count (future_totals p (add_resources no_totals (ap_head_resources p)) active)
      (rev ?fs @ [ap_head_resources p])"
    by (rule future_totals_count [OF head_totals]) (use assms in \<open>simp add: kMaximumConcurrency_def\<close>)
  moreover have "length (rev ?fs @ [ap_head_resources p]) < 4294967295"
    using le_less_trans [OF length_filter_le, of active "4294967294" "counts_in_future p"] assms
    by (simp add: kMaximumConcurrency_def)
  ultimately have "totals_count (add_resources
      (future_totals p (add_resources no_totals (ap_head_resources p)) active) res)
      (res # rev ?fs @ [ap_head_resources p])" by (rule totals_count_add)
  from fits_totals [OF this] show ?thesis unfolding persistent_backfill_is_safe_def
    by (simp only:) (rule resources_fit_mset, simp)
qed

lemma protected_head_safe_iff:
  assumes "length active \<le> kMaximumConcurrency"
  shows "protected_head_safe_without_temporal p active cap =
    resources_fit (ap_head_resources p # map sn_resources (filter (counts_without_temporal p) active)) cap"
proof -
  have "totals_count (used_totals p (add_resources no_totals (ap_head_resources p)) active)
      (rev (map sn_resources (filter (counts_without_temporal p) active)) @ [ap_head_resources p])"
    by (rule used_totals_count [OF head_totals]) (use assms in \<open>simp add: kMaximumConcurrency_def\<close>)
  from fits_totals [OF this] show ?thesis unfolding protected_head_safe_without_temporal_def
    by (simp only:) (rule resources_fit_mset, simp)
qed

text \<open>What an epoch keeps: the frozen part of the protection, and that nothing overdraws it.\<close>

definition same_epoch :: "admission_protection \<Rightarrow> admission_protection \<Rightarrow> bool" where
  "same_epoch p q \<longleftrightarrow>
     ap_epoch_id p = ap_epoch_id q \<and> ap_head_request_id p = ap_head_request_id q \<and>
     ap_head_resources p = ap_head_resources q \<and> ap_incumbent_ids p = ap_incumbent_ids q \<and>
     ap_donor_ids p = ap_donor_ids q"

text \<open>The requests whose departure the frontier counts on: the donors and the temporal borrowers.\<close>

definition leaves_by_frontier :: "admission_protection \<Rightarrow> admission_snapshot \<Rightarrow> bool" where
  "leaves_by_frontier p s \<longleftrightarrow> is_donor p (sn_request_id s) \<or>
     \<not> is_incumbent p (sn_request_id s) \<and> sn_backfill_class s = Temporal"

definition on_time :: "admission_protection \<Rightarrow> nat \<Rightarrow> admission_snapshot \<Rightarrow> bool" where
  "on_time p rounds s \<longleftrightarrow> sn_remaining_work_quanta s = 0 \<or>
     rounds + unat (sn_remaining_work_quanta s) \<le> unat (ap_temporal_credit p)"

definition frontier_inv :: "admission_protection \<Rightarrow> protection_epoch \<Rightarrow> bool" where
  "frontier_inv p0 e \<longleftrightarrow> set (ap_donor_ids p0) \<subseteq> set (ap_incumbent_ids p0) \<and>
     (\<forall>s\<in>set (pe_active e). leaves_by_frontier p0 s \<longrightarrow> on_time p0 (pe_rounds e) s)"

definition epoch_inv :: "admission_protection \<Rightarrow> admission_resources \<Rightarrow> protection_epoch \<Rightarrow> bool" where
  "epoch_inv p0 cap e \<longleftrightarrow>
     same_epoch p0 (pe_protection e) \<and> length (pe_active e) \<le> kMaximumConcurrency \<and>
     future_fits p0 (pe_active e) cap \<and>
     (\<forall>s\<in>set (pe_active e). \<not> is_incumbent p0 (sn_request_id s) \<longrightarrow>
        sn_backfill_epoch s = ap_epoch_id p0 \<and> sn_backfill_class s \<noteq> NoBackfill) \<and>
     pe_lent e + unat (ap_temporal_credit (pe_protection e)) = unat (ap_temporal_credit p0)"

lemma same_epoch_counts:
  assumes "same_epoch p q"
  shows "counts_in_future q = counts_in_future p" "counts_without_temporal q = counts_without_temporal p"
    "is_incumbent q = is_incumbent p" "is_donor q = is_donor p" "ap_head_resources q = ap_head_resources p"
    "ap_epoch_id q = ap_epoch_id p"
  using assms
  by (auto simp: fun_eq_iff same_epoch_def counts_in_future_def counts_without_temporal_def is_incumbent_def
      is_donor_def)

lemma future_fits_mono:
  "mset (filter (counts_in_future p) active') \<subseteq># mset (filter (counts_in_future p) active) \<Longrightarrow>
   future_fits p active cap \<Longrightarrow> future_fits p active' cap"
  unfolding future_fits_def
  by (erule resources_fit_mono [rotated]) (simp add: image_mset_subseteq_mono)

lemma future_update:
  assumes "i < length active" "counts_in_future p s = counts_in_future p (active ! i)"
    "sn_resources s = sn_resources (active ! i)"
  shows "map sn_resources (filter (counts_in_future p) (active[i := s]))
    = map sn_resources (filter (counts_in_future p) active)"
proof -
  have "active = take i active @ active ! i # drop (Suc i) active" using assms(1) by (rule id_take_nth_drop)
  then have "map sn_resources (filter (counts_in_future p) active)
      = map sn_resources (filter (counts_in_future p) (take i active @ active ! i # drop (Suc i) active))"
    by (rule arg_cong)
  then show ?thesis using assms by (simp add: upd_conv_take_nth_drop)
qed

lemma charge_credit_Inr:
  assumes "charge_credit p cls epoch work = Inr q"
  shows "same_epoch p q \<and>
    (if cls = Temporal then unat work else 0) + unat (ap_temporal_credit q) = unat (ap_temporal_credit p)"
proof (cases "cls = Temporal")
  case True
  then have le: "work \<le> ap_temporal_credit p" and q: "q = p\<lparr> ap_temporal_credit := ap_temporal_credit p - work \<rparr>"
    using assms by (auto simp: charge_credit_def split: if_splits)
  have "unat (ap_temporal_credit p - work) = unat (ap_temporal_credit p) - unat work"
    by (rule unat_sub [OF le])
  then show ?thesis using le True q by (simp add: same_epoch_def word_le_nat_alt)
qed (use assms in \<open>auto simp: charge_credit_def same_epoch_def\<close>)

text \<open>Serving a request keeps all of it but the remaining work, which goes down.\<close>

lemma consume_service_work_keeps:
  assumes "consume_service_work s work = Inr s'"
  shows "sn_request_id s' = sn_request_id s" "sn_resources s' = sn_resources s"
    "sn_backfill_epoch s' = sn_backfill_epoch s" "sn_backfill_class s' = sn_backfill_class s"
    "unat (sn_remaining_work_quanta s') < unat (sn_remaining_work_quanta s)"
proof -
  have w: "work \<noteq> 0" "work \<le> sn_remaining_work_quanta s"
    "s' = s\<lparr> sn_remaining_work_quanta := sn_remaining_work_quanta s - work \<rparr>"
    using assms by (auto simp: consume_service_work_def not_less split: if_splits)
  have "0 < unat work" using w(1) by (simp add: unat_gt_0)
  then show "unat (sn_remaining_work_quanta s') < unat (sn_remaining_work_quanta s)"
    using w(2,3) unat_sub [OF w(2)] by (simp add: word_le_nat_alt)
qed (use assms in \<open>auto simp: consume_service_work_def split: if_splits\<close>)

lemma served_keeps:
  assumes "served s s'"
  shows "sn_request_id s' = sn_request_id s" "sn_resources s' = sn_resources s"
    "sn_backfill_epoch s' = sn_backfill_epoch s" "sn_backfill_class s' = sn_backfill_class s"
  using assms consume_service_work_keeps by (auto simp: served_def split: if_splits)

lemma served_on_time: "served s s' \<Longrightarrow> on_time p n s \<Longrightarrow> on_time p (Suc n) s'"
  using consume_service_work_keeps(5) [of s _ s'] by (fastforce simp: served_def on_time_def split: if_splits)

lemma round_mem: "list_all2 served active xs \<Longrightarrow> x \<in> set xs \<Longrightarrow> \<exists>s\<in>set active. served s x"
  by (induction rule: list_all2_induct) auto

lemma round_future:
  "list_all2 served active xs \<Longrightarrow>
   map sn_resources (filter (counts_in_future p) xs) = map sn_resources (filter (counts_in_future p) active)"
  by (induction rule: list_all2_induct) (auto simp: counts_in_future_def served_keeps)

lemma epoch_inv_step:
  assumes inv: "epoch_inv p0 cap e" and step: "epoch_step cap e e'"
  shows "epoch_inv p0 cap e'"
  using step
proof cases
  case (run i work s)
  have s: "s = (pe_active e ! i)\<lparr> sn_remaining_work_quanta := sn_remaining_work_quanta (pe_active e ! i) - work \<rparr>"
    using run(3) by (simp add: consume_service_work_def split: if_splits)
  have "future_fits p0 ((pe_active e)[i := s]) cap"
    using inv future_update [OF run(2), of p0 s] s
    by (simp add: epoch_inv_def future_fits_def counts_in_future_def)
  moreover have "\<forall>x\<in>set ((pe_active e)[i := s]). \<not> is_incumbent p0 (sn_request_id x) \<longrightarrow>
      sn_backfill_epoch x = ap_epoch_id p0 \<and> sn_backfill_class x \<noteq> NoBackfill"
    using inv run(2) s set_update_subset_insert [of "pe_active e" i s] nth_mem [OF run(2)]
    by (auto simp: epoch_inv_def)
  ultimately show ?thesis using inv run(1) by (simp add: epoch_inv_def)
next
  case (round xs)
  have "\<forall>x\<in>set xs. \<not> is_incumbent p0 (sn_request_id x) \<longrightarrow>
      sn_backfill_epoch x = ap_epoch_id p0 \<and> sn_backfill_class x \<noteq> NoBackfill"
    using inv round_mem [OF round(2)] served_keeps unfolding epoch_inv_def by metis
  then show ?thesis using inv round(1) round_future [OF round(2), of p0] list_all2_lengthD [OF round(2)]
    by (simp add: epoch_inv_def future_fits_def)
next
  case (finish i)
  let ?a = "take i (pe_active e) @ drop (Suc i) (pe_active e)"
  have split: "pe_active e = take i (pe_active e) @ pe_active e ! i # drop (Suc i) (pe_active e)"
    using finish(2) by (rule id_take_nth_drop)
  have "mset (filter (counts_in_future p0) ?a) \<subseteq># mset (filter (counts_in_future p0) (pe_active e))"
    by (subst (3) split) simp
  then have "future_fits p0 ?a cap" using inv future_fits_mono by (auto simp: epoch_inv_def)
  moreover have "set ?a \<subseteq> set (pe_active e)" by (simp add: set_take_subset set_drop_subset)
  ultimately show ?thesis using inv finish by (auto simp: epoch_inv_def)
next
  case drain
  then show ?thesis using inv by (simp add: epoch_inv_def same_epoch_def)
next
  case (backfill rid cls res work p)
  let ?s = "admitted_snapshot rid res work (ap_epoch_id (pe_protection e)) cls"
  have ep: "same_epoch p0 (pe_protection e)" and len: "length (pe_active e) \<le> kMaximumConcurrency"
    and fit: "future_fits p0 (pe_active e) cap"
    using inv by (auto simp: epoch_inv_def)
  note sc = same_epoch_counts [OF ep]
  have p: "same_epoch p0 p" "pe_lent e + (if cls = Temporal then unat work else 0) + unat (ap_temporal_credit p)
      = unat (ap_temporal_credit p0)"
    using inv charge_credit_Inr [OF backfill(8)] by (auto simp: epoch_inv_def same_epoch_def)
  have "future_fits p0 (pe_active e @ [?s]) cap"
  proof (cases cls)
    case Persistent
    then have "persistent_backfill_is_safe (pe_protection e) (pe_active e) res cap"
      using backfill(6) by (simp add: backfill_decision_def Let_def split: if_splits)
    then have "resources_fit (res # ap_head_resources p0 # map sn_resources
        (filter (counts_in_future p0) (pe_active e))) cap"
      by (simp add: persistent_backfill_is_safe_iff [OF len] sc)
    then show ?thesis unfolding future_fits_def
      by (rule resources_fit_mono [rotated]) (simp add: admitted_snapshot_def)
  next
    case Temporal
    then have "\<not> counts_in_future p0 ?s"
      using backfill(4) by (simp add: counts_in_future_def admitted_snapshot_def sc)
    then show ?thesis using fit by (simp add: future_fits_def)
  qed (use backfill(7) in simp)
  then show ?thesis using inv p backfill by (auto simp: epoch_inv_def admitted_snapshot_def sc)
qed

lemma epoch_inv_reachable: "epoch_reachable cap e e' \<Longrightarrow> epoch_inv p0 cap e \<Longrightarrow> epoch_inv p0 cap e'"
  by (induction rule: epoch_reachable.induct) (auto intro: epoch_inv_step)

lemma frontier_loop_max:
  "frontier_loop p d active \<in> insert d (sn_remaining_work_quanta ` {s \<in> set active. is_donor p (sn_request_id s)}) \<and>
   d \<le> frontier_loop p d active \<and>
   (\<forall>s\<in>set active. is_donor p (sn_request_id s) \<longrightarrow> sn_remaining_work_quanta s \<le> frontier_loop p d active)"
proof (induction p d active rule: frontier_loop.induct)
  case (2 p d s active)
  show ?case
  proof (cases "is_donor p (sn_request_id s)")
    case True
    let ?d = "max d (sn_remaining_work_quanta s)"
    have loop: "frontier_loop p d (s # active) = frontier_loop p ?d active" using True by simp
    have "?d \<in> insert d (sn_remaining_work_quanta ` {x \<in> set (s # active). is_donor p (sn_request_id x)})"
      using True by (simp add: max_def)
    then show ?thesis using 2 True unfolding loop by auto
  next
    case False
    then show ?thesis using 2 by auto
  qed
qed simp

lemma donors_of_frontier:
  assumes "distinct (map sn_request_id active)"
  shows "filter (\<lambda>s. sn_request_id s \<notin> set (map sn_request_id (take k (donor_order active)))) (donor_order active)
    = drop k (donor_order active)"
proof -
  let ?xs = "donor_order active"
  have d: "distinct (map sn_request_id ?xs)"
    using assms by (metis donor_order_mset mset_eq_imp_distinct_iff mset_map)
  have "distinct (map sn_request_id (take k ?xs) @ map sn_request_id (drop k ?xs))"
    by (metis append_take_drop_id d map_append)
  then have "filter (\<lambda>s. sn_request_id s \<notin> set (map sn_request_id (take k ?xs))) (take k ?xs @ drop k ?xs) = drop k ?xs"
    unfolding filter_append by (auto simp: filter_empty_conv filter_id_conv)
  then show ?thesis by simp
qed

text \<open>A borrower whose work fits the current distance ends with a donor that is on time.\<close>

lemma temporal_on_time:
  assumes inv: "frontier_inv p0 e" and ep: "same_epoch p0 (pe_protection e)"
    and dec: "backfill_decision (pe_protection e) (pe_active e) cap res work = Temporal"
    and s: "sn_remaining_work_quanta s = work"
  shows "on_time p0 (pe_rounds e) s"
proof -
  let ?d = "frontier_loop (pe_protection e) 0 (pe_active e)"
  have le: "work \<le> ?d"
    using dec by (auto simp: backfill_decision_def protection_frontier_distance_def Let_def split: if_splits)
  consider "?d = 0" | x where "x \<in> set (pe_active e)" "is_donor p0 (sn_request_id x)" "?d = sn_remaining_work_quanta x"
    using frontier_loop_max [of "pe_protection e" 0 "pe_active e"] same_epoch_counts(4) [OF ep] by auto
  then show ?thesis
  proof cases
    case 1
    then show ?thesis using le s by (simp add: on_time_def)
  next
    case 2
    then have "on_time p0 (pe_rounds e) x" using inv by (simp add: frontier_inv_def leaves_by_frontier_def)
    then show ?thesis using le s 2(3) by (auto simp: on_time_def word_le_nat_alt unat_eq_0)
  qed
qed

lemma frontier_inv_step:
  assumes inv: "frontier_inv p0 e" and ep: "same_epoch p0 (pe_protection e)" and step: "epoch_step cap e e'"
  shows "frontier_inv p0 e'"
  using step
proof cases
  case (run i work s)
  note keep = consume_service_work_keeps [OF run(3)]
  have "on_time p0 (pe_rounds e) x" if x: "x \<in> set ((pe_active e)[i := s])" "leaves_by_frontier p0 x" for x
  proof (cases "x = s")
    case True
    then have "leaves_by_frontier p0 (pe_active e ! i)" using x(2) keep by (simp add: leaves_by_frontier_def)
    then have "on_time p0 (pe_rounds e) (pe_active e ! i)" using inv run(2) by (simp add: frontier_inv_def)
    then show ?thesis using keep(5) True by (auto simp: on_time_def)
  next
    case False
    then show ?thesis using x inv set_update_subset_insert [of "pe_active e" i s] by (auto simp: frontier_inv_def)
  qed
  then show ?thesis using inv run(1) by (simp add: frontier_inv_def)
next
  case (round xs)
  have "on_time p0 (Suc (pe_rounds e)) x" if x: "x \<in> set xs" "leaves_by_frontier p0 x" for x
  proof -
    obtain s where s: "s \<in> set (pe_active e)" "served s x" using round_mem [OF round(2) x(1)] by blast
    then have "leaves_by_frontier p0 s" using x(2) by (simp add: leaves_by_frontier_def served_keeps [OF s(2)])
    then show ?thesis using inv s by (auto simp: frontier_inv_def intro: served_on_time)
  qed
  then show ?thesis using inv round(1) by (simp add: frontier_inv_def)
next
  case (finish i)
  have "set (take i (pe_active e) @ drop (Suc i) (pe_active e)) \<subseteq> set (pe_active e)"
    by (simp add: set_take_subset set_drop_subset)
  then show ?thesis using inv finish(1) by (auto simp: frontier_inv_def)
next
  case drain
  then show ?thesis using inv by (simp add: frontier_inv_def)
next
  case (backfill rid cls res work p)
  let ?s = "admitted_snapshot rid res work (ap_epoch_id (pe_protection e)) cls"
  have "\<not> is_donor p0 rid"
    using inv backfill(4) same_epoch_counts(3) [OF ep]
    by (auto simp: frontier_inv_def is_donor_def is_incumbent_def List.member_iff)
  then have "on_time p0 (pe_rounds e) ?s" if "leaves_by_frontier p0 ?s"
    using that temporal_on_time [OF inv ep, of cap res work ?s] backfill(6)
    by (simp add: leaves_by_frontier_def admitted_snapshot_def)
  then show ?thesis using inv backfill(1) by (auto simp: frontier_inv_def)
qed

lemma frontier_inv_reachable:
  "epoch_reachable cap e e' \<Longrightarrow> epoch_inv p0 cap e \<Longrightarrow> frontier_inv p0 e \<Longrightarrow> frontier_inv p0 e'"
proof (induction rule: epoch_reachable.induct)
  case (step e e' e'')
  have "same_epoch p0 (pe_protection e')"
    using epoch_inv_reachable [OF step(1) step(4)] by (simp add: epoch_inv_def)
  then show ?case using frontier_inv_step [OF step(3) [OF step(4,5)] _ step(2)] by blast
qed

lemma epoch_inv_start:
  assumes mk: "make_admission_protection epoch head_id head active cap = Inr p"
    and d: "distinct (map sn_request_id active)"
  shows "epoch_inv p cap \<lparr> pe_protection = p, pe_active = active, pe_lent = 0, pe_rounds = 0 \<rparr>"
proof -
  have ok: "protectable epoch head_id head active cap"
    using mk unfolding make_admission_protection_eq by (simp split: if_splits)
  let ?k = "frontier_length head active cap"
  have p: "ap_incumbent_ids p = map sn_request_id active" "ap_head_resources p = head"
    "ap_donor_ids p = map sn_request_id (take ?k (donor_order active))"
    using mk ok unfolding make_admission_protection_eq by auto
  have "filter (counts_in_future p) active = filter (\<lambda>s. sn_request_id s \<notin> set (ap_donor_ids p)) active"
    by (rule filter_cong) (auto simp: counts_in_future_def is_incumbent_def is_donor_def List.member_iff p(1))
  then have "mset (filter (counts_in_future p) active)
      = mset (filter (\<lambda>s. sn_request_id s \<notin> set (ap_donor_ids p)) (donor_order active))"
    by (simp only: mset_filter donor_order_mset)
  also have "\<dots> = mset (drop ?k (donor_order active))" unfolding p(3) donors_of_frontier [OF d] ..
  finally have "mset (map sn_resources (filter (counts_in_future p) active))
      = mset (map sn_resources (drop ?k (donor_order active)))" by simp
  then have "future_fits p active cap"
    using frontier_length_spec(3) [OF ok] unfolding future_fits_def p(2)
    by (subst resources_fit_mset) auto
  then show ?thesis using ok
    by (auto simp: epoch_inv_def same_epoch_def protectable_def is_incumbent_def List.member_iff p(1))
qed

lemma frontier_distance_start:
  assumes mk: "make_admission_protection epoch head_id head active cap = Inr p"
    and d: "distinct (map sn_request_id active)"
  shows "protection_frontier_distance p active = ap_temporal_credit p"
proof -
  have ok: "protectable epoch head_id head active cap"
    using mk unfolding make_admission_protection_eq by (simp split: if_splits)
  let ?k = "frontier_length head active cap" and ?xs = "donor_order active"
  have k: "0 < ?k" "?k \<le> length ?xs" using frontier_length_spec(1,2) [OF ok] by simp_all
  have p: "ap_donor_ids p = map sn_request_id (take ?k ?xs)"
    "ap_temporal_credit p = sn_remaining_work_quanta (?xs ! (?k - 1))"
    using mk ok unfolding make_admission_protection_eq by auto
  have rest: "sn_request_id s \<notin> set (map sn_request_id (take ?k ?xs))" if "s \<in> set (drop ?k ?xs)" for s
    using that arg_cong [OF donors_of_frontier [OF d, of ?k], of set] by auto
  have donor: "is_donor p (sn_request_id s) \<longleftrightarrow> s \<in> set (take ?k ?xs)" if "s \<in> set active" for s
  proof -
    have "s \<in> set (take ?k ?xs) \<or> s \<in> set (drop ?k ?xs)"
      using that donor_order_set [of active] by (metis Un_iff append_take_drop_id set_append)
    then show ?thesis using rest [of s] unfolding is_donor_def List.member_iff p(1) by auto
  qed
  have last: "?xs ! (?k - 1) \<in> set (take ?k ?xs)" using k by (auto simp: in_set_conv_nth intro!: exI [of _ "?k - 1"])
  have le: "sn_remaining_work_quanta s \<le> ap_temporal_credit p" if s: "s \<in> set (take ?k ?xs)" for s
  proof -
    obtain i where i: "i < ?k" "s = ?xs ! i" using s by (auto simp: in_set_conv_nth)
    have "map (\<lambda>s. (sn_remaining_work_quanta s, sn_request_id s)) ?xs ! i
        \<le> map (\<lambda>s. (sn_remaining_work_quanta s, sn_request_id s)) ?xs ! (?k - 1)"
      by (rule sorted_nth_mono [OF donor_order_sorted]) (use i k in auto)
    then show ?thesis using i k p(2) by (auto simp: less_eq_prod_def)
  qed
  have mem: "?xs ! (?k - 1) \<in> set active" using last set_take_subset [of ?k ?xs] by auto
  note m = frontier_loop_max [of p 0 active]
  have "ap_temporal_credit p \<le> frontier_loop p 0 active" using m donor [OF mem] last mem p(2) by auto
  moreover have "frontier_loop p 0 active \<le> ap_temporal_credit p" using m donor le by auto
  ultimately show ?thesis unfolding protection_frontier_distance_def by (rule antisym [rotated])
qed

lemma frontier_inv_start:
  assumes mk: "make_admission_protection epoch head_id head active cap = Inr p"
    and d: "distinct (map sn_request_id active)"
  shows "frontier_inv p \<lparr> pe_protection = p, pe_active = active, pe_lent = 0, pe_rounds = 0 \<rparr>"
proof -
  have ids: "ap_incumbent_ids p = map sn_request_id active"
    "ap_donor_ids p = map sn_request_id (take (frontier_length head active cap) (donor_order active))"
    using mk unfolding make_admission_protection_eq by (auto split: if_splits)
  have sub: "set (ap_donor_ids p) \<subseteq> set (ap_incumbent_ids p)"
    using set_take_subset [of "frontier_length head active cap" "donor_order active"] by (auto simp: ids)
  have "on_time p 0 s" if s: "s \<in> set active" "leaves_by_frontier p s" for s
  proof -
    have "is_donor p (sn_request_id s)"
      using s ids(1) by (auto simp: leaves_by_frontier_def is_incumbent_def List.member_iff)
    then have "sn_remaining_work_quanta s \<le> ap_temporal_credit p"
      using s(1) frontier_loop_max [of p 0 active] frontier_distance_start [OF mk d]
      by (simp add: protection_frontier_distance_def)
    then show ?thesis by (simp add: on_time_def word_le_nat_alt)
  qed
  then show ?thesis using sub by (simp add: frontier_inv_def)
qed

text \<open>Without the requests the frontier counts on, what is left fits beside the head.\<close>

lemma rest_fits:
  assumes inv: "epoch_inv p cap e" and keep: "\<forall>s\<in>set (pe_active e). P s \<longrightarrow> \<not> leaves_by_frontier p s"
  shows "resources_fit (ap_head_resources p # map sn_resources (filter P (pe_active e))) cap"
proof -
  have future: "counts_in_future p s" if "s \<in> set (pe_active e)" "P s" for s
    using that inv keep by (cases "sn_backfill_class s") (auto simp: epoch_inv_def counts_in_future_def leaves_by_frontier_def)
  let ?future = "filter (counts_in_future p) (pe_active e)"
  have eq: "filter P (pe_active e) = filter P ?future"
    unfolding filter_filter by (rule filter_cong) (use future in auto)
  have "mset (filter P ?future) \<subseteq># mset ?future" unfolding mset_filter by (rule multiset_filter_subset)
  then have "mset (map sn_resources (filter P ?future)) \<subseteq># mset (map sn_resources ?future)"
    unfolding mset_map by (rule image_mset_subseteq_mono)
  then have sub: "mset (ap_head_resources p # map sn_resources (filter P ?future))
      \<subseteq># mset (ap_head_resources p # map sn_resources ?future)" by (simp del: mset_map mset_filter)
  have "future_fits p (pe_active e) cap" using inv by (simp add: epoch_inv_def)
  then show ?thesis unfolding eq future_fits_def by (rule resources_fit_mono [OF sub])
qed

section \<open>Properties\<close>

text \<open>
  C25: Protecting a blocked head freezes the active set and returns the earliest frontier. The call
  succeeds exactly when the arguments are valid and the head, which fits alone, is blocked; every
  other call throws \<^verbatim>\<open>invalid_argument\<close>, and the final \<^verbatim>\<open>logic_error\<close> is never reached. The donors are
  the shortest prefix of the active requests in order of remaining work whose departure makes room
  for the head beside the survivors; the credit is the remaining work of the last donor.
\<close>

theorem admission_frontier_exact:
  "(case make_admission_protection epoch head_id head active cap of
      Inl err \<Rightarrow> err = Invalid_argument \<and> \<not> protectable epoch head_id head active cap
    | Inr p \<Rightarrow> protectable epoch head_id head active cap \<and>
        (let k = length (ap_donor_ids p); order = donor_order active in
         ap_epoch_id p = epoch \<and> ap_head_request_id p = head_id \<and> ap_head_resources p = head \<and>
         ap_phase p = Open \<and> ap_incumbent_ids p = map sn_request_id active \<and>
         mset order = mset active \<and>
         sorted (map (\<lambda>s. (sn_remaining_work_quanta s, sn_request_id s)) order) \<and>
         0 < k \<and> ap_donor_ids p = map sn_request_id (take k order) \<and>
         ap_temporal_credit p = sn_remaining_work_quanta (order ! (k - 1)) \<and>
         resources_fit (head # map sn_resources (drop k order)) cap \<and>
         k = (LEAST j. resources_fit (head # map sn_resources (drop j order)) cap)))"
proof (cases "protectable epoch head_id head active cap")
  case True
  note f = frontier_length_spec [OF True]
  have "(LEAST j. resources_fit (head # map sn_resources (drop j (donor_order active))) cap) = frontier_length head active cap"
    using f by (intro Least_equality) (auto simp: not_less [symmetric])
  then show ?thesis using True f by (simp add: make_admission_protection_eq Let_def donor_order_sorted min_absorb2)
qed (simp add: make_admission_protection_eq)

text \<open>
  C6: Younger requests never delay a protected head past its frozen frontier. Throughout a
  protection epoch, whatever runs, finishes or is admitted ahead of the head, the following holds.
  The work lent to temporal borrowers and the credit left always add up to the distance of the
  frontier at its creation, and the engine's charge of a decision it took never throws. Every
  donor and every temporal borrower with work left ends by the frontier: the rounds passed and
  its remaining work do not exceed that distance. So after as many rounds as the distance all of
  them are through, and the head fits beside every request that has work left. Once the donors have
  left, the head fits beside everything but the borrowers, so lending stops; once the borrowers have
  left too, it fits beside all that is running.
\<close>

theorem backfill_respects_frontier:
  assumes mk: "make_admission_protection epoch head_id head active cap = Inr p"
    and d: "distinct (map sn_request_id active)"
    and reach: "epoch_reachable cap \<lparr> pe_protection = p, pe_active = active, pe_lent = 0, pe_rounds = 0 \<rparr> e"
  shows "pe_lent e + unat (ap_temporal_credit (pe_protection e)) = unat (protection_frontier_distance p active) \<and>
    (\<forall>res work. succeeds (charge_credit (pe_protection e)
       (backfill_decision (pe_protection e) (pe_active e) cap res work) (ap_epoch_id (pe_protection e)) work)) \<and>
    (\<forall>s\<in>set (pe_active e).
       is_donor p (sn_request_id s) \<or> \<not> is_incumbent p (sn_request_id s) \<and> sn_backfill_class s = Temporal \<longrightarrow>
       sn_remaining_work_quanta s = 0 \<or>
       pe_rounds e + unat (sn_remaining_work_quanta s) \<le> unat (protection_frontier_distance p active)) \<and>
    (unat (protection_frontier_distance p active) \<le> pe_rounds e \<longrightarrow>
       resources_fit (head # map sn_resources
         (filter (\<lambda>s. sn_remaining_work_quanta s \<noteq> 0) (pe_active e))) cap) \<and>
    ((\<forall>s\<in>set (pe_active e). \<not> is_donor p (sn_request_id s)) \<longrightarrow>
      protected_head_safe_without_temporal (pe_protection e) (pe_active e) cap \<and>
      ((\<forall>s\<in>set (pe_active e). sn_backfill_class s \<noteq> Temporal) \<longrightarrow>
        resources_fit (head # map sn_resources (pe_active e)) cap))"
proof -
  have inv: "epoch_inv p cap e" by (rule epoch_inv_reachable [OF reach epoch_inv_start [OF mk d]])
  have fin: "frontier_inv p e"
    by (rule frontier_inv_reachable [OF reach epoch_inv_start [OF mk d] frontier_inv_start [OF mk d]])
  have ep: "same_epoch p (pe_protection e)" and len: "length (pe_active e) \<le> kMaximumConcurrency"
    and fit: "future_fits p (pe_active e) cap" using inv by (auto simp: epoch_inv_def)
  have head: "ap_head_resources p = head"
    using mk unfolding make_admission_protection_eq by (auto split: if_splits)
  have safe: "protected_head_safe_without_temporal (pe_protection e) (pe_active e) cap"
    if nd: "\<forall>s\<in>set (pe_active e). \<not> is_donor p (sn_request_id s)"
  proof -
    have "filter (counts_without_temporal p) (pe_active e) = filter (counts_in_future p) (pe_active e)"
      by (rule filter_cong) (use nd inv in \<open>auto simp: epoch_inv_def counts_without_temporal_def
          counts_in_future_def intro: backfill_class.exhaust\<close>)
    then show ?thesis using fit
      by (simp add: protected_head_safe_iff [OF len] same_epoch_counts [OF ep] future_fits_def)
  qed
  have all: "resources_fit (head # map sn_resources (pe_active e)) cap"
    if "\<forall>s\<in>set (pe_active e). \<not> is_donor p (sn_request_id s)" "\<forall>s\<in>set (pe_active e). sn_backfill_class s \<noteq> Temporal"
    using rest_fits [OF inv, of "\<lambda>s. True"] that by (simp add: leaves_by_frontier_def head)
  have left: "resources_fit (head # map sn_resources
      (filter (\<lambda>s. sn_remaining_work_quanta s \<noteq> 0) (pe_active e))) cap"
    if passed: "unat (ap_temporal_credit p) \<le> pe_rounds e"
  proof -
    have "\<not> leaves_by_frontier p s" if "s \<in> set (pe_active e)" "sn_remaining_work_quanta s \<noteq> 0" for s
    proof
      assume "leaves_by_frontier p s"
      then have "pe_rounds e + unat (sn_remaining_work_quanta s) \<le> unat (ap_temporal_credit p)"
        using fin that by (auto simp: frontier_inv_def on_time_def)
      moreover have "0 < unat (sn_remaining_work_quanta s)" using that(2) by (simp add: unat_gt_0)
      ultimately show False using passed by linarith
    qed
    then show ?thesis using rest_fits [OF inv, of "\<lambda>s. sn_remaining_work_quanta s \<noteq> 0"] by (simp add: head)
  qed
  have charge: "succeeds (charge_credit (pe_protection e)
      (backfill_decision (pe_protection e) (pe_active e) cap res work) (ap_epoch_id (pe_protection e)) work)" for res work
    by (simp add: charge_credit_def backfill_decision_def Let_def not_less)
  have time: "\<forall>s\<in>set (pe_active e).
      is_donor p (sn_request_id s) \<or> \<not> is_incumbent p (sn_request_id s) \<and> sn_backfill_class s = Temporal \<longrightarrow>
      sn_remaining_work_quanta s = 0 \<or>
      pe_rounds e + unat (sn_remaining_work_quanta s) \<le> unat (ap_temporal_credit p)"
    using fin unfolding frontier_inv_def leaves_by_frontier_def on_time_def by (rule conjunct2)
  have lent: "pe_lent e + unat (ap_temporal_credit (pe_protection e)) = unat (ap_temporal_credit p)"
    using inv by (simp add: epoch_inv_def)
  show ?thesis unfolding frontier_distance_start [OF mk d]
    by (intro conjI allI impI lent charge time left safe all)
qed

text \<open>
  A head of nine pages waits for a request that holds seven of ten. A request of one page fits beside
  the head and is admitted for good; one of two pages borrows until the frontier, one quantum away.
\<close>

definition demo_resources :: "u32 \<Rightarrow> admission_resources" where
  "demo_resources pages = \<lparr> active_lanes = 1, main_kv_pages = pages, backend_kv_pages = 0 \<rparr>"

definition demo_capacity :: admission_resources where
  "demo_capacity = \<lparr> active_lanes = 3, main_kv_pages = 10, backend_kv_pages = 0 \<rparr>"

definition demo_incumbent :: "u64 \<Rightarrow> admission_snapshot" where
  "demo_incumbent work = admitted_snapshot 1 (demo_resources 7) work 0 NoBackfill"

definition demo_persistent :: "u64 \<Rightarrow> admission_snapshot" where
  "demo_persistent work = admitted_snapshot 11 (demo_resources 1) work 1 Persistent"

definition demo_temporal :: "u64 \<Rightarrow> admission_snapshot" where
  "demo_temporal work = admitted_snapshot 12 (demo_resources 2) work 1 Temporal"

definition demo_protection :: "u64 \<Rightarrow> admission_protection" where
  "demo_protection credit = \<lparr> ap_epoch_id = 1, ap_head_request_id = 9, ap_head_resources = demo_resources 9,
     ap_incumbent_ids = [1], ap_donor_ids = [1], ap_temporal_credit = credit, ap_phase = Open \<rparr>"

lemmas demo_admission = demo_resources_def demo_capacity_def demo_incumbent_def demo_persistent_def
  demo_temporal_def demo_protection_def
  admitted_snapshot_def no_totals_def add_resources_def subtract_resources_def fits_def
  is_incumbent_def is_donor_def counts_in_future_def counts_without_temporal_def kMaximumConcurrency_def

lemma demo_protection_made:
  "make_admission_protection 1 9 (demo_resources 9) [demo_incumbent 1] demo_capacity = Inr (demo_protection 1)"
  by (simp add: make_admission_protection_def admission_resources_fit_def donor_order_def Let_def demo_admission)

lemma demo_decisions:
  "backfill_decision (demo_protection 1) [demo_incumbent 1] demo_capacity (demo_resources 1) 40 = Persistent"
  "backfill_decision (demo_protection 1) [demo_incumbent 1, demo_persistent 40] demo_capacity (demo_resources 2) 1 = Temporal"
  by (simp_all add: backfill_decision_def persistent_backfill_is_safe_def protection_frontier_distance_def
      Let_def demo_admission)

lemma demo_epoch:
  "epoch_reachable demo_capacity
     \<lparr> pe_protection = demo_protection 1, pe_active = [demo_incumbent 1], pe_lent = 0, pe_rounds = 0 \<rparr>
     \<lparr> pe_protection = demo_protection 0, pe_active = [demo_incumbent 0, demo_persistent 39, demo_temporal 0],
       pe_lent = 1, pe_rounds = 1 \<rparr>"
proof -
  let ?e0 = "\<lparr> pe_protection = demo_protection 1, pe_active = [demo_incumbent 1], pe_lent = 0, pe_rounds = 0 \<rparr>"
  let ?e1 = "\<lparr> pe_protection = demo_protection 1, pe_active = [demo_incumbent 1, demo_persistent 40],
     pe_lent = 0, pe_rounds = 0 \<rparr>"
  let ?e2 = "\<lparr> pe_protection = demo_protection 0,
     pe_active = [demo_incumbent 1, demo_persistent 40, demo_temporal 1], pe_lent = 1, pe_rounds = 0 \<rparr>"
  have "epoch_step demo_capacity ?e0 ?e1"
    using epoch_step.backfill [of ?e0 11 Persistent demo_capacity "demo_resources 1" 40 "demo_protection 1"] demo_decisions(1)
    by (simp add: charge_credit_def kMaximumConcurrency_def is_incumbent_def demo_protection_def
        demo_incumbent_def demo_persistent_def admitted_snapshot_def)
  moreover have "epoch_step demo_capacity ?e1 ?e2"
    using epoch_step.backfill [of ?e1 12 Temporal demo_capacity "demo_resources 2" 1 "demo_protection 0"] demo_decisions(2)
    by (simp add: charge_credit_def kMaximumConcurrency_def is_incumbent_def demo_protection_def
        demo_incumbent_def demo_persistent_def demo_temporal_def admitted_snapshot_def)
  moreover have "served (demo_incumbent 1) (demo_incumbent 0)" "served (demo_persistent 40) (demo_persistent 39)"
    "served (demo_temporal 1) (demo_temporal 0)"
    by (auto simp: served_def consume_service_work_def demo_incumbent_def demo_persistent_def demo_temporal_def
        admitted_snapshot_def intro!: exI [of _ 1])
  then have "epoch_step demo_capacity ?e2
      \<lparr> pe_protection = demo_protection 0, pe_active = [demo_incumbent 0, demo_persistent 39, demo_temporal 0],
        pe_lent = 1, pe_rounds = 1 \<rparr>"
    using epoch_step.round [of ?e2 "[demo_incumbent 0, demo_persistent 39, demo_temporal 0]" demo_capacity] by simp
  ultimately show ?thesis by (meson epoch_reachable.intros)
qed

theorem backfill_respects_frontier_witness:
  "protection_frontier_distance (demo_protection 1) [demo_incumbent 1] = 1 \<and>
   succeeds (charge_credit (demo_protection 0) (backfill_decision (demo_protection 0)
     [demo_incumbent 0, demo_persistent 39, demo_temporal 0] demo_capacity (demo_resources 2) 1) 1 1) \<and>
   resources_fit [demo_resources 9, demo_resources 1] demo_capacity"
proof -
  have d: "protection_frontier_distance (demo_protection 1) [demo_incumbent 1] = 1"
    by (simp add: protection_frontier_distance_def demo_admission)
  have f: "filter (\<lambda>s. sn_remaining_work_quanta s \<noteq> 0) [demo_incumbent 0, demo_persistent 39, demo_temporal 0]
      = [demo_persistent 39]" "sn_resources (demo_persistent 39) = demo_resources 1"
    "ap_epoch_id (demo_protection 0) = 1"
    by (simp_all add: demo_incumbent_def demo_persistent_def demo_temporal_def admitted_snapshot_def demo_protection_def)
  have "distinct (map sn_request_id [demo_incumbent 1])" by simp
  note b = backfill_respects_frontier [OF demo_protection_made this demo_epoch, unfolded d protection_epoch.simps f]
  have "resources_fit [demo_resources 9, demo_resources 1] demo_capacity"
    using b [THEN conjunct2, THEN conjunct2, THEN conjunct2, THEN conjunct1] by (simp add: f)
  moreover note b [THEN conjunct2, THEN conjunct1, rule_format, of "demo_resources 2" 1]
  ultimately show ?thesis using d by blast
qed

text \<open>
  The interval between two decode rounds: the engine observes the decode membership and binds
  requests in any order; nothing else touches the burst.
\<close>

datatype burst_event = Observe u32 u32 u32 | Bind

fun run_burst :: "burst_event list \<Rightarrow> decode_admission_burst \<Rightarrow> decode_admission_burst result" where
  "run_burst [] b = Inr b"
| "run_burst (Observe m a k # es) b = bind_result (observe_membership b m a k) (run_burst es)"
| "run_burst (Bind # es) b = bind_result (consume_admission b) (run_burst es)"

fun decoding :: "burst_event \<Rightarrow> bool" where
  "decoding (Observe m a k) = (k \<noteq> 0)"
| "decoding Bind = True"

lemma run_burst_debt:
  assumes "remaining_budget b = Some n" "\<forall>ev\<in>set es. decoding ev" "run_burst es b = Inr b'"
    "unat n + unat (admissions b) < 4294967296"
  shows "\<exists>n'. remaining_budget b' = Some n' \<and> unat n' + unat (admissions b') = unat n + unat (admissions b) \<and>
    allows_admission b' = (n' \<noteq> 0) \<and>
    unat (admissions b') = unat (admissions b) + length (filter (\<lambda>ev. ev = Bind) es)"
  using assms
proof (induction es b arbitrary: n rule: run_burst.induct)
  case (1 b)
  then show ?case by (simp add: allows_admission_def)
next
  case (2 m a k es b)
  then show ?case by (auto simp: observe_membership_def split: if_splits)
next
  case (3 es b)
  then have n: "n \<noteq> 0" and r: "run_burst es (b\<lparr> remaining_budget := Some (n - 1), admissions := admissions b + 1 \<rparr>) = Inr b'"
    by (auto simp: consume_admission_def split: if_splits)
  have u: "unat (n - 1) = unat n - 1" "0 < unat n" using n by (simp_all add: unat_minus_one word_neq_0_conv word_less_nat_alt)
  have a: "unat (admissions b + 1) = unat (admissions b) + 1"
    using 3(5) u(2) by (simp add: unat_word_ariths)
  show ?case
    using 3(1) [of "b\<lparr> remaining_budget := Some (n - 1), admissions := admissions b + 1 \<rparr>" "n - 1"] 3 r u a n
    by (auto simp: consume_admission_def)
qed

text \<open>
  The admissions between two decode rounds are bounded by the lanes that were free when the
  decode membership formed. From the first observation on, any sequence of observations and binds
  that succeeds leaves exactly the free lanes not yet bound as budget, so at most
  \<^verbatim>\<open>max_concurrency - active_slots\<close> requests are bound however many of them end at once.
\<close>

theorem burst_admissions_bounded:
  assumes "run_burst (Observe m a k # es) \<lparr> remaining_budget = None, admissions = 0 \<rparr> = Inr b"
    and "k \<noteq> 0" and "\<forall>ev\<in>set es. decoding ev"
  shows "\<exists>n. remaining_budget b = Some n \<and> unat a \<le> unat m \<and>
    unat n + length (filter (\<lambda>ev. ev = Bind) es) = unat m - unat a \<and>
    unat (admissions b) = length (filter (\<lambda>ev. ev = Bind) es) \<and>
    (allows_admission b \<longleftrightarrow> length (filter (\<lambda>ev. ev = Bind) es) < unat m - unat a)"
proof -
  let ?b = "\<lparr> remaining_budget = Some (m - a), admissions = 0 \<rparr>"
  have am: "a \<le> m" and run: "run_burst es ?b = Inr b"
    using assms(1,2) by (auto simp: observe_membership_def split: if_splits)
  have u: "unat (m - a) = unat m - unat a" by (rule unat_sub [OF am])
  have "unat (m - a) + unat (admissions ?b) < 4294967296" by simp
  from run_burst_debt [OF _ assms(3) run this]
  obtain n where n: "remaining_budget b = Some n" "unat n + unat (admissions b) = unat m - unat a"
    "allows_admission b = (n \<noteq> 0)" "unat (admissions b) = length (filter (\<lambda>ev. ev = Bind) es)"
    by (auto simp: u)
  have "(n \<noteq> 0) = (0 < unat n)" by (simp add: unat_gt_0)
  then have "(n \<noteq> 0) = (unat (admissions b) < unat m - unat a)" using n(2) by linarith
  then show ?thesis using n am by (simp add: word_le_nat_alt)
qed

theorem burst_admissions_bounded_witness:
  "\<exists>b. run_burst [Observe 4 2 1, Bind, Observe 4 3 1, Bind] \<lparr> remaining_budget = None, admissions = 0 \<rparr> = Inr b \<and>
     remaining_budget b = Some 0 \<and> \<not> allows_admission b"
  using burst_admissions_bounded [of 4 2 1 "[Bind, Observe 4 3 1, Bind]"
      "\<lparr> remaining_budget = Some 0, admissions = 2 \<rparr>"]
  by (simp add: observe_membership_def consume_admission_def)

end
