(* ===== verification/Kv_Capacity.thy ===== *)
theory Kv_Capacity
  imports Prelude
begin

text \<open>
  Sizing of the main KV cache: \<^verbatim>\<open>runtime/engine/kv_capacity.cpp\<close>. A target reports an affine curve
  from page groups to device bytes; the policy of the user picks a point on it. The theory shows
  that the automatic policy picks the largest affordable point and the explicit one the smallest
  point that holds the requested tokens, and when each of them throws.
\<close>

section \<open>Curves and policies\<close>

record sequence_capacity_curve =
  main_page_tokens :: u32
  minimum_main_page_groups :: u32
  maximum_main_page_groups :: u32
  minimum_device_reservation_bytes :: u64
  bytes_per_additional_main_page_group :: u64

datatype kv_capacity_mode = Explicit | Automatic

record kv_capacity_policy =
  kc_mode :: kv_capacity_mode
  kc_explicit_tokens :: u32
  kc_automatic_headroom_bytes :: u64

record kv_capacity_resolution =
  kr_mode :: kv_capacity_mode
  kr_main_page_groups :: u32
  kr_maximum_main_page_groups :: u32
  kr_resolved_tokens :: u32
  kr_minimum_runtime_reservation_bytes :: u64
  kr_bytes_per_additional_main_page_group :: u64
  kr_runtime_reservation_bytes :: u64
  kr_available_after_weights_bytes :: u64
  kr_available_after_startup_bytes :: u64
  kr_automatic_headroom_bytes :: u64
  kr_planned_slack_bytes :: u64

definition kv_checked_add :: "u64 \<Rightarrow> u64 \<Rightarrow> u64 result" where
  "kv_checked_add a b = (if b > - 1 - a then Inl Overflow_error else Inr (a + b))"

definition kv_checked_mul :: "u64 \<Rightarrow> u64 \<Rightarrow> u64 result" where
  "kv_checked_mul a b = (if b \<noteq> 0 \<and> a > (- 1) div b then Inl Overflow_error else Inr (a * b))"

definition validate_curve :: "sequence_capacity_curve \<Rightarrow> unit result" where
  "validate_curve curve =
     (if main_page_tokens curve = 0 \<or> minimum_main_page_groups curve = 0 \<or>
         minimum_main_page_groups curve > maximum_main_page_groups curve \<or>
         minimum_device_reservation_bytes curve = 0
      then Inl Invalid_argument
      else if minimum_main_page_groups curve < maximum_main_page_groups curve \<and>
         bytes_per_additional_main_page_group curve = 0
      then Inl Invalid_argument
      else Inr ())"

definition explicit_page_groups :: "kv_capacity_policy \<Rightarrow> sequence_capacity_curve \<Rightarrow> u32 result" where
  "explicit_page_groups policy curve =
     (if kc_explicit_tokens policy = 0 then Inl Invalid_argument
      else (let pages = 1 + (ucast (kc_explicit_tokens policy) - 1) div ucast (main_page_tokens curve) :: u64 in
        if pages > 4294967295 then Inl Overflow_error else Inr (ucast pages)))"

definition reservation_bytes :: "sequence_capacity_curve \<Rightarrow> u32 \<Rightarrow> u64 result" where
  "reservation_bytes curve groups =
     bind_result (validate_curve curve) (\<lambda>_.
       if groups < minimum_main_page_groups curve \<or> groups > maximum_main_page_groups curve
       then Inl Invalid_argument
       else bind_result (kv_checked_mul (ucast (groups - minimum_main_page_groups curve))
                           (bytes_per_additional_main_page_group curve)) (\<lambda>increment.
              kv_checked_add (minimum_device_reservation_bytes curve) increment))"

definition resolved_tokens :: "sequence_capacity_curve \<Rightarrow> u32 \<Rightarrow> u32 result" where
  "resolved_tokens curve groups =
     bind_result (validate_curve curve) (\<lambda>_.
       if groups < minimum_main_page_groups curve \<or> groups > maximum_main_page_groups curve
       then Inl Invalid_argument
       else (let tokens = ucast groups * ucast (main_page_tokens curve) :: u64 in
         if tokens > 4294967295 then Inl Overflow_error else Inr (ucast tokens)))"

text \<open>The switch over the mode: the page groups and the bytes they may take.\<close>

definition automatic_pages :: "sequence_capacity_curve \<Rightarrow> u64 \<Rightarrow> u32" where
  "automatic_pages curve budget =
     (if minimum_main_page_groups curve < maximum_main_page_groups curve then
        let additional = (budget - minimum_device_reservation_bytes curve)
                           div bytes_per_additional_main_page_group curve;
            candidate = ucast (minimum_main_page_groups curve) + additional
        in ucast (min candidate (ucast (maximum_main_page_groups curve)))
      else minimum_main_page_groups curve)"

definition choose_pages ::
  "kv_capacity_policy \<Rightarrow> sequence_capacity_curve \<Rightarrow> u64 \<Rightarrow> (u32 \<times> u64) result" where
  "choose_pages policy curve available =
     (case kc_mode policy of
        Explicit \<Rightarrow>
          if kc_automatic_headroom_bytes policy \<noteq> 0 then Inl Invalid_argument
          else bind_result (explicit_page_groups policy curve) (\<lambda>pages. Inr (pages, available))
      | Automatic \<Rightarrow>
          if available < kc_automatic_headroom_bytes policy then Inl Invalid_argument
          else (let budget = available - kc_automatic_headroom_bytes policy in
            if budget < minimum_device_reservation_bytes curve then Inl Invalid_argument
            else Inr (automatic_pages curve budget, budget)))"

definition resolve_kv_capacity ::
  "kv_capacity_policy \<Rightarrow> sequence_capacity_curve \<Rightarrow> u64 \<Rightarrow> kv_capacity_resolution result" where
  "resolve_kv_capacity policy curve available =
     bind_result (validate_curve curve) (\<lambda>_.
     bind_result (choose_pages policy curve available) (\<lambda>(pages, budget).
     bind_result (reservation_bytes curve pages) (\<lambda>reservation.
       if reservation > budget then Inl Invalid_argument
       else bind_result (resolved_tokens curve pages) (\<lambda>tokens.
         Inr \<lparr> kr_mode = kc_mode policy,
               kr_main_page_groups = pages,
               kr_maximum_main_page_groups = maximum_main_page_groups curve,
               kr_resolved_tokens = tokens,
               kr_minimum_runtime_reservation_bytes = minimum_device_reservation_bytes curve,
               kr_bytes_per_additional_main_page_group = bytes_per_additional_main_page_group curve,
               kr_runtime_reservation_bytes = reservation,
               kr_available_after_weights_bytes = available,
               kr_available_after_startup_bytes = 0,
               kr_automatic_headroom_bytes = kc_automatic_headroom_bytes policy,
               kr_planned_slack_bytes = available - reservation \<rparr>))))"

section \<open>The curve as a function on naturals\<close>

definition curve_valid :: "sequence_capacity_curve \<Rightarrow> bool" where
  "curve_valid curve \<longleftrightarrow> validate_curve curve = Inr ()"

definition curve_bytes :: "sequence_capacity_curve \<Rightarrow> nat \<Rightarrow> nat" where
  "curve_bytes curve n =
     unat (minimum_device_reservation_bytes curve) +
     (n - unat (minimum_main_page_groups curve)) * unat (bytes_per_additional_main_page_group curve)"

definition on_curve :: "sequence_capacity_curve \<Rightarrow> nat \<Rightarrow> bool" where
  "on_curve curve n \<longleftrightarrow>
     unat (minimum_main_page_groups curve) \<le> n \<and> n \<le> unat (maximum_main_page_groups curve)"

lemma validate_curve_cases: "validate_curve curve = (if curve_valid curve then Inr () else Inl Invalid_argument)"
  by (simp add: curve_valid_def validate_curve_def)

lemma curve_valid_bounds:
  assumes "curve_valid curve"
  shows "0 < unat (main_page_tokens curve)" "0 < unat (minimum_main_page_groups curve)"
    "unat (minimum_main_page_groups curve) \<le> unat (maximum_main_page_groups curve)"
    "unat (minimum_main_page_groups curve) < unat (maximum_main_page_groups curve) \<Longrightarrow>
     0 < unat (bytes_per_additional_main_page_group curve)"
  using assms by (auto simp: curve_valid_def validate_curve_def unat_gt_0 word_le_nat_alt word_less_nat_alt
      split: if_splits)

lemma curve_bytes_mono: "n \<le> k \<Longrightarrow> curve_bytes curve n \<le> curve_bytes curve k"
  by (simp add: curve_bytes_def diff_le_mono mult_le_mono1)

lemma unat_lt_2_64: "unat (w :: u64) < 2 ^ 64"
  using unat_word_bound [of w] by simp

lemma kv_checked_add_eq:
  "kv_checked_add a b = (if unat a + unat b < 2 ^ 64 then Inr (a + b) else Inl Overflow_error)"
  using add_overflow_test [of a b] by (auto simp: kv_checked_add_def)

lemma kv_checked_mul_eq:
  "kv_checked_mul a b = (if unat a * unat b < 2 ^ 64 then Inr (a * b) else Inl Overflow_error)"
  using mult_overflow_test [of b a] by (auto simp: kv_checked_mul_def)

lemma reservation_bytes_eq:
  assumes v: "curve_valid curve" and on: "on_curve curve (unat g)"
  shows "reservation_bytes curve g =
    (if curve_bytes curve (unat g) < 2 ^ 64 then Inr (of_nat (curve_bytes curve (unat g)))
     else Inl Overflow_error)"
proof -
  let ?s = "bytes_per_additional_main_page_group curve" and ?b = "minimum_device_reservation_bytes curve"
  have le: "minimum_main_page_groups curve \<le> g" "g \<le> maximum_main_page_groups curve"
    using on by (simp_all add: on_curve_def word_le_nat_alt)
  let ?a = "ucast (g - minimum_main_page_groups curve) :: u64"
  have a: "unat ?a = unat g - unat (minimum_main_page_groups curve)" using unat_sub [OF le(1)] by simp
  have start: "reservation_bytes curve g = bind_result (kv_checked_mul ?a ?s) (kv_checked_add ?b)"
    using leD [OF le(1)] leD [OF le(2)] v by (simp add: reservation_bytes_def validate_curve_cases)
  have total: "curve_bytes curve (unat g) = unat ?b + unat ?a * unat ?s" unfolding curve_bytes_def a ..
  show ?thesis
  proof (cases "unat ?a * unat ?s < 2 ^ 64")
    case True
    then have m: "kv_checked_mul ?a ?s = Inr (?a * ?s)" "unat (?a * ?s) = unat ?a * unat ?s"
      using kv_checked_mul_eq [of ?a ?s] unat_mult_no_overflow [of ?a ?s] by simp_all
    have "?b + ?a * ?s = of_nat (curve_bytes curve (unat g))" unfolding total by simp
    then show ?thesis unfolding start m(1) by (simp only: bind_result_Inr kv_checked_add_eq m(2) total)
  next
    case False
    then show ?thesis unfolding start kv_checked_mul_eq total by simp
  qed
qed

lemma resolved_tokens_eq:
  assumes v: "curve_valid curve" and on: "on_curve curve (unat g)"
  shows "resolved_tokens curve g =
    (if unat g * unat (main_page_tokens curve) < 2 ^ 32 then Inr (of_nat (unat g * unat (main_page_tokens curve)))
     else Inl Overflow_error)"
proof -
  have le: "minimum_main_page_groups curve \<le> g" "g \<le> maximum_main_page_groups curve"
    using on by (simp_all add: on_curve_def word_le_nat_alt)
  let ?t = "ucast g * ucast (main_page_tokens curve) :: u64"
  have "unat g * unat (main_page_tokens curve) \<le> 4294967295 * 4294967295"
    using unat_u32_bound [of g] unat_u32_bound [of "main_page_tokens curve"] by (intro mult_le_mono) linarith+
  then have t: "unat ?t = unat g * unat (main_page_tokens curve)"
    using unat_mult_no_overflow [of "ucast g :: u64" "ucast (main_page_tokens curve)"] by simp
  have "resolved_tokens curve g = (if ?t > 4294967295 then Inl Overflow_error else Inr (ucast ?t))"
    using leD [OF le(1)] leD [OF le(2)] v by (simp add: resolved_tokens_def validate_curve_cases Let_def)
  moreover have "ucast ?t = (of_nat (unat ?t) :: u32)" by simp
  ultimately show ?thesis by (simp add: word_less_nat_alt t)
qed

lemma off_curve:
  assumes "curve_valid curve" "\<not> on_curve curve (unat g)"
  shows "reservation_bytes curve g = Inl Invalid_argument"
  using assms by (auto simp: reservation_bytes_def validate_curve_cases on_curve_def word_less_nat_alt)

section \<open>The automatic point\<close>

lemma automatic_pages_largest:
  assumes v: "curve_valid curve" and afford: "unat (minimum_device_reservation_bytes curve) \<le> unat budget"
    and wrap: "unat budget + unat (minimum_main_page_groups curve) < 2 ^ 64"
  shows "on_curve curve (unat (automatic_pages curve budget))"
    "curve_bytes curve (unat (automatic_pages curve budget)) \<le> unat budget"
    "on_curve curve k \<Longrightarrow> unat (automatic_pages curve budget) < k \<Longrightarrow> unat budget < curve_bytes curve k"
proof -
  let ?lo = "unat (minimum_main_page_groups curve)" and ?hi = "unat (maximum_main_page_groups curve)"
  let ?b = "unat (minimum_device_reservation_bytes curve)"
  let ?st = "unat (bytes_per_additional_main_page_group curve)"
  note b = curve_valid_bounds [OF v]
  consider "?lo = ?hi" | "?lo < ?hi" using b(3) by linarith
  then have "on_curve curve (unat (automatic_pages curve budget)) \<and>
      curve_bytes curve (unat (automatic_pages curve budget)) \<le> unat budget \<and>
      (on_curve curve k \<longrightarrow> unat (automatic_pages curve budget) < k \<longrightarrow> unat budget < curve_bytes curve k)"
  proof cases
    case 1
    then have "unat (automatic_pages curve budget) = ?lo" by (simp add: automatic_pages_def word_less_nat_alt)
    then show ?thesis using 1 afford by (simp add: on_curve_def curve_bytes_def)
  next
    case 2
    have st: "0 < ?st" by (rule b(4) [OF 2])
    let ?add = "(budget - minimum_device_reservation_bytes curve) div bytes_per_additional_main_page_group curve"
    let ?cand = "ucast (minimum_main_page_groups curve) + ?add"
    have add: "unat ?add = (unat budget - ?b) div ?st"
      using afford by (simp add: unat_div unat_sub word_le_nat_alt)
    have "(unat budget - ?b) div ?st \<le> unat budget" by (meson diff_le_self div_le_dividend le_trans)
    then have cand: "unat ?cand = ?lo + (unat budget - ?b) div ?st"
      using wrap unat_add_no_overflow [of "ucast (minimum_main_page_groups curve) :: u64" ?add] add by simp
    have m: "unat (min ?cand (ucast (maximum_main_page_groups curve))) = min (?lo + (unat budget - ?b) div ?st) ?hi"
      unfolding min_def word_le_nat_alt if_distrib [of unat] cand unat_ucast_u64 ..
    have "min (?lo + (unat budget - ?b) div ?st) ?hi < 2 ^ 32"
      by (rule le_less_trans [OF min.cobounded2]) simp
    then have "take_bit 32 (min (?lo + (unat budget - ?b) div ?st) ?hi) = min (?lo + (unat budget - ?b) div ?st) ?hi"
      by (rule take_bit_nat_eq_self)
    then have n: "unat (automatic_pages curve budget) = min (?lo + (unat budget - ?b) div ?st) ?hi"
      using 2 m by (simp add: automatic_pages_def Let_def word_less_nat_alt unsigned_ucast_eq)
    let ?q = "(unat budget - ?b) div ?st"
    have q: "?q * ?st \<le> unat budget - ?b" "unat budget - ?b < Suc ?q * ?st"
      using st dividend_less_times_div [of ?st "unat budget - ?b"] by (simp_all add: mult.commute)
    have "curve_bytes curve (min (?lo + ?q) ?hi) \<le> curve_bytes curve (?lo + ?q)" by (rule curve_bytes_mono) simp
    also have "\<dots> = ?b + ?q * ?st" by (simp add: curve_bytes_def)
    also have "\<dots> \<le> unat budget" using q(1) afford by linarith
    finally have fit: "curve_bytes curve (min (?lo + ?q) ?hi) \<le> unat budget" .
    have "unat budget < curve_bytes curve k" if k: "on_curve curve k" "min (?lo + ?q) ?hi < k"
    proof -
      have "?lo + Suc ?q \<le> k" using k by (auto simp: on_curve_def)
      then have "curve_bytes curve (?lo + Suc ?q) \<le> curve_bytes curve k" by (rule curve_bytes_mono)
      then show ?thesis using q(2) afford by (simp add: curve_bytes_def)
    qed
    then show ?thesis using fit 2 unfolding n by (auto simp: on_curve_def)
  qed
  then show "on_curve curve (unat (automatic_pages curve budget))"
    "curve_bytes curve (unat (automatic_pages curve budget)) \<le> unat budget"
    "on_curve curve k \<Longrightarrow> unat (automatic_pages curve budget) < k \<Longrightarrow> unat budget < curve_bytes curve k"
    by blast+
qed

text \<open>The record the resolution returns at a point of the curve, and the branch that refuses it.\<close>

lemma resolve_at_point:
  assumes v: "curve_valid curve" and c: "choose_pages policy curve available = Inr (g, budget)"
    and on: "on_curve curve (unat g)" and fit: "curve_bytes curve (unat g) \<le> unat budget"
    and le: "unat budget \<le> unat available"
  shows "case resolve_kv_capacity policy curve available of
      Inl err \<Rightarrow> err = Overflow_error \<and> 2 ^ 32 \<le> unat g * unat (main_page_tokens curve)
    | Inr r \<Rightarrow> kr_main_page_groups r = g \<and> unat g * unat (main_page_tokens curve) < 2 ^ 32 \<and>
        unat (kr_resolved_tokens r) = unat g * unat (main_page_tokens curve) \<and>
        unat (kr_runtime_reservation_bytes r) = curve_bytes curve (unat g) \<and>
        unat (kr_planned_slack_bytes r) = unat available - curve_bytes curve (unat g)"
proof -
  have small: "curve_bytes curve (unat g) < 2 ^ 64" using fit unat_lt_2_64 [of budget] by linarith
  let ?r = "of_nat (curve_bytes curve (unat g)) :: u64"
  have r: "reservation_bytes curve g = Inr ?r" using reservation_bytes_eq [OF v on] small by simp
  have ur: "unat ?r = curve_bytes curve (unat g)" using small by (simp add: unat_of_nat take_bit_nat_eq_self)
  then have nr: "\<not> ?r > budget" "?r \<le> available" using fit le by (auto simp: word_less_nat_alt word_le_nat_alt)
  have slack: "unat (available - ?r) = unat available - curve_bytes curve (unat g)"
    using unat_sub [OF nr(2)] ur by simp
  show ?thesis
  proof (cases "unat g * unat (main_page_tokens curve) < 2 ^ 32")
    case True
    then have "unat (of_nat (unat g * unat (main_page_tokens curve)) :: u32) = unat g * unat (main_page_tokens curve)"
      by (simp only: unat_of_nat) (simp add: take_bit_nat_eq_self)
    then show ?thesis using resolved_tokens_eq [OF v on] True v c r nr(1) ur slack
      by (simp add: resolve_kv_capacity_def validate_curve_cases)
  next
    case False
    then show ?thesis using resolved_tokens_eq [OF v on] v c r nr(1)
      by (simp add: resolve_kv_capacity_def validate_curve_cases)
  qed
qed

section \<open>Properties\<close>

text \<open>
  C33: Under the automatic policy the resolution takes the largest page count of the curve that
  leaves the headroom free. It is refused with \<^verbatim>\<open>invalid_argument\<close> exactly when the curve is invalid or
  the headroom and the minimum reservation do not fit, and with \<^verbatim>\<open>overflow_error\<close> only when the token
  capacity of the chosen point exceeds 32 bits; otherwise its reservation is the value of the
  curve, reservation, headroom and slack account for all available bytes, and one more page group
  that the curve still allows would not fit.
\<close>

theorem automatic_capacity_largest:
  assumes mode: "kc_mode policy = Automatic"
    and wrap: "unat available + unat (minimum_main_page_groups curve) < 2 ^ 64"
  shows "case resolve_kv_capacity policy curve available of
      Inl err \<Rightarrow>
        (err = Invalid_argument \<and>
          (\<not> curve_valid curve \<or> unat available < unat (kc_automatic_headroom_bytes policy) +
             unat (minimum_device_reservation_bytes curve))) \<or>
        (err = Overflow_error \<and>
          (\<exists>g. on_curve curve g \<and> 2 ^ 32 \<le> g * unat (main_page_tokens curve) \<and>
             curve_bytes curve g + unat (kc_automatic_headroom_bytes policy) \<le> unat available))
    | Inr r \<Rightarrow>
        (let g = unat (kr_main_page_groups r); h = unat (kc_automatic_headroom_bytes policy) in
         curve_valid curve \<and> on_curve curve g \<and>
         unat (kr_resolved_tokens r) = g * unat (main_page_tokens curve) \<and>
         unat (kr_runtime_reservation_bytes r) = curve_bytes curve g \<and>
         unat (kr_runtime_reservation_bytes r) + unat (kr_planned_slack_bytes r) = unat available \<and>
         h \<le> unat (kr_planned_slack_bytes r) \<and>
         (\<forall>k. on_curve curve k \<longrightarrow> g < k \<longrightarrow> unat available < curve_bytes curve k + h))"
proof (cases "curve_valid curve \<and> unat (kc_automatic_headroom_bytes policy) +
    unat (minimum_device_reservation_bytes curve) \<le> unat available")
  case False
  have "resolve_kv_capacity policy curve available = Inl Invalid_argument"
  proof (cases "curve_valid curve")
    case True
    with False have "choose_pages policy curve available = Inl Invalid_argument"
      using mode range_test [where lead = "kc_automatic_headroom_bytes policy" and sz = available
          and n = "minimum_device_reservation_bytes curve"]
      by (auto simp: choose_pages_def Let_def)
    then show ?thesis using True by (simp add: resolve_kv_capacity_def validate_curve_cases)
  qed (simp add: resolve_kv_capacity_def validate_curve_cases)
  then show ?thesis using False by (simp add: not_le)
next
  case True
  let ?h = "kc_automatic_headroom_bytes policy" and ?B = "available - kc_automatic_headroom_bytes policy"
  have hB: "unat ?B = unat available - unat ?h" using True by (simp add: unat_sub word_le_nat_alt)
  have c: "choose_pages policy curve available = Inr (automatic_pages curve ?B, ?B)"
    using True hB mode by (auto simp: choose_pages_def Let_def word_less_nat_alt)
  have v: "curve_valid curve" and a: "unat (minimum_device_reservation_bytes curve) \<le> unat ?B"
    and w: "unat ?B + unat (minimum_main_page_groups curve) < 2 ^ 64"
    using True hB wrap by auto
  note l = automatic_pages_largest [OF v a w]
  have next_page: "unat available < curve_bytes curve k + unat ?h"
    if "on_curve curve k" "unat (automatic_pages curve ?B) < k" for k
    using l(3) [OF that] unfolding hB by linarith
  have fit: "curve_bytes curve (unat (automatic_pages curve ?B)) + unat ?h \<le> unat available"
    using l(2) True unfolding hB by linarith
  have "unat ?B \<le> unat available" unfolding hB by simp
  from resolve_at_point [OF v c l(1,2) this] l(1) fit next_page v
  show ?thesis
    by (cases "resolve_kv_capacity policy curve available") (auto simp: Let_def)
qed

definition demo_curve :: sequence_capacity_curve where
  "demo_curve = \<lparr> main_page_tokens = 256, minimum_main_page_groups = 4, maximum_main_page_groups = 100,
     minimum_device_reservation_bytes = 1000, bytes_per_additional_main_page_group = 300 \<rparr>"

definition demo_policy :: "kv_capacity_mode \<Rightarrow> kv_capacity_policy" where
  "demo_policy m = \<lparr> kc_mode = m, kc_explicit_tokens = (if m = Explicit then 2000 else 0),
     kc_automatic_headroom_bytes = (if m = Explicit then 0 else 500) \<rparr>"

lemmas demo_capacity_defs = demo_curve_def demo_policy_def resolve_kv_capacity_def validate_curve_def
  choose_pages_def automatic_pages_def explicit_page_groups_def reservation_bytes_def resolved_tokens_def
  kv_checked_add_def kv_checked_mul_def Let_def

theorem automatic_capacity_largest_witness:
  "\<exists>r. resolve_kv_capacity (demo_policy Automatic) demo_curve 4000 = Inr r \<and> kr_main_page_groups r = 12 \<and>
     (\<forall>k. on_curve demo_curve k \<longrightarrow> 12 < k \<longrightarrow> 4000 < curve_bytes demo_curve k + 500)"
proof -
  have "\<exists>r. resolve_kv_capacity (demo_policy Automatic) demo_curve 4000 = Inr r \<and> kr_main_page_groups r = 12"
    by (simp add: demo_capacity_defs min_def)
  then show ?thesis
    using automatic_capacity_largest [of "demo_policy Automatic" 4000 demo_curve]
    by (auto simp: demo_policy_def demo_curve_def Let_def)
qed

lemma explicit_page_groups_eq:
  assumes "curve_valid curve" "kc_explicit_tokens policy \<noteq> 0"
  shows "explicit_page_groups policy curve
    = Inr (of_nat (1 + (unat (kc_explicit_tokens policy) - 1) div unat (main_page_tokens curve)))"
    "1 + (unat (kc_explicit_tokens policy) - 1) div unat (main_page_tokens curve) < 2 ^ 32"
proof -
  let ?t = "kc_explicit_tokens policy" and ?p = "main_page_tokens curve"
  have t: "0 < unat ?t" using assms(2) by (simp add: unat_gt_0)
  have q: "(unat ?t - 1) div unat ?p \<le> unat ?t - 1" by (rule div_le_dividend)
  then have "1 + (unat ?t - 1) div unat ?p < 4294967296" using t unat_u32_bound [of ?t] by linarith
  then show lt: "1 + (unat ?t - 1) div unat ?p < 2 ^ 32" by simp
  let ?q = "(ucast ?t - 1) div ucast ?p :: u64"
  have "ucast ?t \<noteq> (0 :: u64)" using t by (metis unat_0 unat_ucast_u64 less_irrefl)
  then have uq: "unat ?q = (unat ?t - 1) div unat ?p" by (simp add: unat_div unat_minus_one)
  have "unat (1 :: u64) + unat ?q < 2 ^ 64" using lt unfolding uq by simp
  then have u: "unat (1 + ?q) = 1 + (unat ?t - 1) div unat ?p" using unat_add_no_overflow [of 1 ?q] uq by simp
  then have small: "\<not> 1 + ?q > 4294967295" using lt by (simp add: word_less_nat_alt)
  have "ucast (1 + ?q) = (of_nat (unat (1 + ?q)) :: u32)" by simp
  then show "explicit_page_groups policy curve = Inr (of_nat (1 + (unat ?t - 1) div unat ?p))"
    using small assms(2) u by (simp only: explicit_page_groups_def Let_def if_False)
qed

text \<open>
  C34: Under the explicit policy the resolution takes the smallest number of page groups that holds
  the requested tokens: the resolved capacity covers the request with less than one page to
  spare. It succeeds exactly when no headroom is named, the request is positive, that count lies on
  the curve and its bytes are available, and the capacity fits 32 bits.
\<close>

theorem explicit_capacity_covers:
  assumes mode: "kc_mode policy = Explicit" and v: "curve_valid curve"
  shows "let t = unat (kc_explicit_tokens policy); p = unat (main_page_tokens curve); g = 1 + (t - 1) div p in
    (succeeds (resolve_kv_capacity policy curve available) \<longleftrightarrow>
       kc_automatic_headroom_bytes policy = 0 \<and> 0 < t \<and> on_curve curve g \<and>
       curve_bytes curve g \<le> unat available \<and> g * p < 2 ^ 32) \<and>
    (\<forall>r. resolve_kv_capacity policy curve available = Inr r \<longrightarrow>
       unat (kr_main_page_groups r) = g \<and> unat (kr_resolved_tokens r) = g * p \<and> t \<le> g * p \<and> g * p < t + p \<and>
       unat (kr_runtime_reservation_bytes r) = curve_bytes curve g)"
proof (cases "kc_automatic_headroom_bytes policy = 0 \<and> kc_explicit_tokens policy \<noteq> 0")
  case False
  have "explicit_page_groups policy curve = Inl Invalid_argument" if "kc_explicit_tokens policy = 0"
    using that by (simp add: explicit_page_groups_def)
  then have "choose_pages policy curve available = Inl Invalid_argument"
    using False mode by (auto simp: choose_pages_def)
  then show ?thesis using False v
    by (auto simp: resolve_kv_capacity_def validate_curve_cases Let_def unat_gt_0)
next
  case True
  let ?t = "unat (kc_explicit_tokens policy)" and ?p = "unat (main_page_tokens curve)"
  define g where "g = 1 + (?t - 1) div ?p"
  define G where "G = (of_nat g :: u32)"
  have t: "0 < ?t" using True by (simp add: unat_gt_0)
  note e = explicit_page_groups_eq [OF v conjunct2 [OF True]]
  note e = e [folded g_def, folded G_def]
  have G: "unat G = g" using e(2) unfolding G_def by (simp only: unat_of_nat) (simp add: take_bit_nat_eq_self)
  have c: "choose_pages policy curve available = Inr (G, available)" using True mode e(1) by (simp add: choose_pages_def)
  have p: "0 < ?p" by (rule curve_valid_bounds(1) [OF v])
  have "?t - 1 < ?p + ?p * ((?t - 1) div ?p)" by (rule dividend_less_times_div [OF p])
  then have cover: "?t \<le> g * ?p" using t by (simp add: g_def algebra_simps)
  have "?p * ((?t - 1) div ?p) < ?t" using times_div_less_eq_dividend [of ?p "?t - 1"] t by linarith
  then have tight: "g * ?p < ?t + ?p" using t by (simp add: g_def algebra_simps)
  have refused: "\<not> succeeds (resolve_kv_capacity policy curve available)"
    if "\<not> (on_curve curve g \<and> curve_bytes curve g \<le> unat available)"
  proof (cases "on_curve curve g")
    case on: True
    have "reservation_bytes curve G = Inl Overflow_error \<or>
        (\<exists>w. reservation_bytes curve G = Inr w \<and> w > available)"
      using reservation_bytes_eq [OF v, of G] on that unfolding G
      by (auto simp: word_less_nat_alt unat_of_nat take_bit_nat_eq_self)
    then show ?thesis using v c by (auto simp: resolve_kv_capacity_def validate_curve_cases)
  next
    case False
    then have "reservation_bytes curve G = Inl Invalid_argument" using off_curve [OF v, of G] unfolding G by simp
    then show ?thesis using v c by (simp add: resolve_kv_capacity_def validate_curve_cases)
  qed
  show ?thesis unfolding Let_def g_def [symmetric]
  proof (cases "on_curve curve g \<and> curve_bytes curve g \<le> unat available")
    case ok: True
    from resolve_at_point [OF v c, unfolded G] ok t True cover tight
    show "(succeeds (resolve_kv_capacity policy curve available) \<longleftrightarrow>
       kc_automatic_headroom_bytes policy = 0 \<and> 0 < ?t \<and> on_curve curve g \<and>
       curve_bytes curve g \<le> unat available \<and> g * ?p < 2 ^ 32) \<and>
      (\<forall>r. resolve_kv_capacity policy curve available = Inr r \<longrightarrow>
       unat (kr_main_page_groups r) = g \<and> unat (kr_resolved_tokens r) = g * ?p \<and> ?t \<le> g * ?p \<and> g * ?p < ?t + ?p \<and>
       unat (kr_runtime_reservation_bytes r) = curve_bytes curve g)"
      by (cases "resolve_kv_capacity policy curve available") (auto simp: G)
  next
    case no: False
    then show "(succeeds (resolve_kv_capacity policy curve available) \<longleftrightarrow>
       kc_automatic_headroom_bytes policy = 0 \<and> 0 < ?t \<and> on_curve curve g \<and>
       curve_bytes curve g \<le> unat available \<and> g * ?p < 2 ^ 32) \<and>
      (\<forall>r. resolve_kv_capacity policy curve available = Inr r \<longrightarrow>
       unat (kr_main_page_groups r) = g \<and> unat (kr_resolved_tokens r) = g * ?p \<and> ?t \<le> g * ?p \<and> g * ?p < ?t + ?p \<and>
       unat (kr_runtime_reservation_bytes r) = curve_bytes curve g)"
      using refused by (auto simp: succeeds_iff)
  qed
qed

theorem explicit_capacity_covers_witness:
  "\<exists>r. resolve_kv_capacity (demo_policy Explicit) demo_curve 4000 = Inr r \<and>
      unat (kr_main_page_groups r) = 8 \<and> unat (kr_resolved_tokens r) = 2048"
proof -
  have "curve_valid demo_curve" by (simp add: curve_valid_def validate_curve_def demo_curve_def)
  from explicit_capacity_covers [OF _ this, of "demo_policy Explicit" 4000]
  have "succeeds (resolve_kv_capacity (demo_policy Explicit) demo_curve 4000)"
    "\<And>r. resolve_kv_capacity (demo_policy Explicit) demo_curve 4000 = Inr r \<Longrightarrow>
      unat (kr_main_page_groups r) = 8 \<and> unat (kr_resolved_tokens r) = 2048"
    by (simp_all add: Let_def demo_curve_def demo_policy_def on_curve_def curve_bytes_def)
  then show ?thesis by (auto simp: succeeds_iff)
qed

end
