(* ===== verification/Prefix_Identity.thy ===== *)
theory Prefix_Identity
  imports Prelude
begin

text \<open>
  The identity of the inputs behind a resident KV prefix:
  \<^verbatim>\<open>targets/qwen3_6/impl/runtime/prefix_identity.cpp\<close>. A prefix is reusable when the tokens, their
  types, their three position axes and the vision items that end inside it agree; caches find
  candidates by a 128-bit hash of the same inputs. The theory models the identity, the comparison
  and the hash recurrence, and shows that the incremental hash cache agrees with the hash computed
  from scratch, and that prefixes which compare equal have equal hashes.

  Token ids, positions and grid extents are \<^verbatim>\<open>int32_t\<close> values that are only compared, hashed and
  copied: they are their 32 bits. A timestamp is the 64 bits of its \<^verbatim>\<open>double\<close>. Vector lengths and
  indices, which the allocator bounds, are naturals; the fields of a token span are 64-bit words.
\<close>


section \<open>Data\<close>

record vision_grid =
  vg_temporal :: u32
  vg_height :: u32
  vg_width :: u32

record token_span =
  ts_begin :: u64
  ts_count :: u64

record vision_item =
  vi_modality :: u8
  vi_grid :: vision_grid
  vi_patch_begin :: u64
  vi_patch_count :: u64
  vi_content_digest :: "u8 list"
  vi_timestamps :: "u64 list"
  vi_token_spans :: "token_span list"

record prepared_prompt =
  pp_token_ids :: "u32 list"
  pp_token_types :: "u8 list"
  pp_positions :: "u32 list"
  pp_vision_items :: "vision_item list"

record resident_identity =
  ri_token_types :: "u8 list"
  ri_axis0 :: "u32 list"
  ri_axis1 :: "u32 list"
  ri_axis2 :: "u32 list"
  ri_vision_items :: "vision_item list"

record prefix_hash =
  ph_lo :: u64
  ph_hi :: u64

section \<open>Hashing\<close>

definition kFnvPrime64 :: u64 where "kFnvPrime64 = 1099511628211"
definition kFnvOffset64 :: u64 where "kFnvOffset64 = 14695981039346656037"
definition kChain1Xor :: u64 where "kChain1Xor = 0xA5A5A5A5A5A5A5A5"

definition mix_u8 :: "prefix_hash \<Rightarrow> u8 \<Rightarrow> prefix_hash" where
  "mix_u8 h byte =
     \<lparr> ph_lo = (ph_lo h XOR ucast byte) * kFnvPrime64, ph_hi = (ph_hi h XOR ucast byte) * kFnvPrime64 \<rparr>"

definition mix_bytes :: "prefix_hash \<Rightarrow> u8 list \<Rightarrow> prefix_hash" where
  "mix_bytes h bytes = foldl mix_u8 h bytes"

definition mix_le32 :: "prefix_hash \<Rightarrow> u32 \<Rightarrow> prefix_hash" where
  "mix_le32 h value =
     mix_u8 (mix_u8 (mix_u8 (mix_u8 h (ucast value)) (ucast (drop_bit 8 value)))
       (ucast (drop_bit 16 value))) (ucast (drop_bit 24 value))"

definition mix_le64 :: "prefix_hash \<Rightarrow> u64 \<Rightarrow> prefix_hash" where
  "mix_le64 h value =
     foldl (\<lambda>h sh. mix_u8 h (ucast (drop_bit sh value))) h [0, 8, 16, 24, 32, 40, 48, 56]"

definition mix_token :: "prefix_hash \<Rightarrow> u32 \<Rightarrow> u8 \<Rightarrow> u32 \<Rightarrow> u32 \<Rightarrow> u32 \<Rightarrow> prefix_hash" where
  "mix_token h token type p0 p1 p2 =
     mix_le32 (mix_le32 (mix_le32 (mix_u8 (mix_le32 h token) type) p0) p1) p2"

definition mix_vision_item :: "prefix_hash \<Rightarrow> vision_item \<Rightarrow> prefix_hash" where
  "mix_vision_item h item =
     (let h = mix_u8 h (vi_modality item);
          h = mix_le32 h (vg_temporal (vi_grid item));
          h = mix_le32 h (vg_height (vi_grid item));
          h = mix_le32 h (vg_width (vi_grid item));
          h = mix_le64 h (vi_patch_begin item);
          h = mix_le64 h (vi_patch_count item);
          h = mix_bytes h (vi_content_digest item);
          h = mix_le32 h (of_nat (length (vi_timestamps item)));
          h = foldl mix_le64 h (vi_timestamps item);
          h = mix_le32 h (of_nat (length (vi_token_spans item)))
      in foldl (\<lambda>h sp. mix_le64 (mix_le64 h (ts_begin sp)) (ts_count sp)) h (vi_token_spans item))"

definition item_end :: "vision_item \<Rightarrow> nat" where
  "item_end item =
     (if vi_token_spans item = [] then 0
      else let sp = last (vi_token_spans item) in unat (ts_begin sp + ts_count sp))"

definition initial_hash :: prefix_hash where
  "initial_hash = \<lparr> ph_lo = kFnvOffset64, ph_hi = kFnvOffset64 XOR kChain1Xor \<rparr>"

record hash_inputs =
  hi_tokens :: "u32 list"
  hi_types :: "u8 list"
  hi_axis0 :: "u32 list"
  hi_axis1 :: "u32 list"
  hi_axis2 :: "u32 list"
  hi_items :: "vision_item list"

text \<open>The loop of the cursor over the items not yet passed; it returns how many it passes.\<close>

fun cursor_loop :: "nat \<Rightarrow> nat \<Rightarrow> vision_item list \<Rightarrow> nat" where
  "cursor_loop extent arrived [] = 0"
| "cursor_loop extent arrived (item # items) =
     (if vi_token_spans item = [] then Suc (cursor_loop extent arrived items)
      else if item_end item < arrived \<or> item_end item > extent then 0
      else Suc (cursor_loop extent (item_end item) items))"

definition item_cursor_after :: "vision_item list \<Rightarrow> nat \<Rightarrow> nat" where
  "item_cursor_after items extent = (if extent = 0 then 0 else cursor_loop extent 1 items)"

text \<open>The inner loop of the recurrence at token \<open>k - 1\<close>, on the items from the cursor on.\<close>

fun mix_items :: "nat \<Rightarrow> prefix_hash \<Rightarrow> vision_item list \<Rightarrow> prefix_hash \<times> vision_item list" where
  "mix_items k h [] = (h, [])"
| "mix_items k h (item # items) =
     (if vi_token_spans item = [] then mix_items k h items
      else if item_end item \<noteq> k then (h, item # items)
      else mix_items k (mix_vision_item h item) items)"

fun extend_loop :: "hash_inputs \<Rightarrow> nat \<Rightarrow> nat \<Rightarrow> prefix_hash \<times> vision_item list \<Rightarrow> prefix_hash list" where
  "extend_loop inp i 0 st = []"
| "extend_loop inp i (Suc n) st =
     (let h = mix_token (fst st) (hi_tokens inp ! i) (hi_types inp ! i) (hi_axis0 inp ! i)
                (hi_axis1 inp ! i) (hi_axis2 inp ! i);
          st' = mix_items (Suc i) h (snd st)
      in fst st' # extend_loop inp (Suc i) n st')"

text \<open>The values passed to the sink, in order; the returned hash is the last of them, or the seed.\<close>

definition extend_hash :: "prefix_hash \<Rightarrow> hash_inputs \<Rightarrow> nat \<Rightarrow> nat \<Rightarrow> prefix_hash list" where
  "extend_hash h inp from to =
     extend_loop inp from (to - from) (h, drop (item_cursor_after (hi_items inp) from) (hi_items inp))"

definition resident_inputs :: "u32 list \<Rightarrow> resident_identity \<Rightarrow> hash_inputs" where
  "resident_inputs tokens ident =
     \<lparr> hi_tokens = tokens, hi_types = ri_token_types ident, hi_axis0 = ri_axis0 ident,
       hi_axis1 = ri_axis1 ident, hi_axis2 = ri_axis2 ident, hi_items = ri_vision_items ident \<rparr>"

definition identity_size :: "resident_identity \<Rightarrow> nat" where
  "identity_size ident = length (ri_token_types ident)"

definition prompt_inputs :: "prepared_prompt \<Rightarrow> hash_inputs" where
  "prompt_inputs prompt =
     (let tokens = length (pp_token_ids prompt) in
      \<lparr> hi_tokens = pp_token_ids prompt, hi_types = pp_token_types prompt,
        hi_axis0 = pp_positions prompt, hi_axis1 = drop tokens (pp_positions prompt),
        hi_axis2 = drop (2 * tokens) (pp_positions prompt), hi_items = pp_vision_items prompt \<rparr>)"

definition prefix_hash_chain :: "prepared_prompt \<Rightarrow> prefix_hash list result" where
  "prefix_hash_chain prompt =
     (let tokens = length (pp_token_ids prompt) in
      if length (pp_token_types prompt) \<noteq> tokens \<or> length (pp_positions prompt) \<noteq> 3 * tokens
      then Inl Invalid_argument
      else Inr (initial_hash # extend_hash initial_hash (prompt_inputs prompt) 0 tokens))"

definition prefix_hash_at :: "u32 list \<Rightarrow> resident_identity \<Rightarrow> nat \<Rightarrow> prefix_hash result" where
  "prefix_hash_at tokens ident extent =
     (if extent > length tokens \<or> extent > identity_size ident then Inl Out_of_range
      else Inr (last (initial_hash # extend_hash initial_hash (resident_inputs tokens ident) 0 extent)))"

text \<open>\<^verbatim>\<open>ResidentPrefixHashes\<close>: its state is the vector of hashes.\<close>

definition hashes_assign :: "prefix_hash list \<Rightarrow> prefix_hash list result" where
  "hashes_assign chain =
     (if chain = [] \<or> hd chain \<noteq> initial_hash then Inl Invalid_argument else Inr chain)"

definition hashes_truncate :: "prefix_hash list \<Rightarrow> nat \<Rightarrow> prefix_hash list" where
  "hashes_truncate hashes tokens = (if tokens + 1 < length hashes then take (tokens + 1) hashes else hashes)"

definition hashes_at ::
  "prefix_hash list \<Rightarrow> u32 list \<Rightarrow> resident_identity \<Rightarrow> nat \<Rightarrow> prefix_hash list \<times> prefix_hash result" where
  "hashes_at hashes tokens ident extent =
     (if extent > length tokens \<or> extent > identity_size ident then (hashes, Inl Out_of_range)
      else if extent < length hashes then (hashes, Inr (hashes ! extent))
      else (let hashes = (if hashes = [] then [initial_hash] else hashes);
                from = length hashes - 1;
                new = extend_hash (last hashes) (resident_inputs tokens ident) from extent
            in (hashes @ new, Inr (last (last hashes # new)))))"

section \<open>Comparison\<close>

text \<open>\<^verbatim>\<open>operator==\<close> of \<^verbatim>\<open>double\<close> on the bits: a NaN equals nothing and the two zeros are equal.\<close>

definition f64_eq :: "u64 \<Rightarrow> u64 \<Rightarrow> bool" where
  "f64_eq a b =
     (let magnitude = (\<lambda>v. v AND 0x7FFFFFFFFFFFFFFF) in
      magnitude a \<le> 0x7FF0000000000000 \<and> magnitude b \<le> 0x7FF0000000000000 \<and>
      (a = b \<or> magnitude a = 0 \<and> magnitude b = 0))"

definition same_grid :: "vision_grid \<Rightarrow> vision_grid \<Rightarrow> bool" where
  "same_grid left right \<longleftrightarrow>
     vg_temporal left = vg_temporal right \<and> vg_height left = vg_height right \<and> vg_width left = vg_width right"

definition same_spans :: "token_span list \<Rightarrow> token_span list \<Rightarrow> bool" where
  "same_spans left right \<longleftrightarrow>
     length left = length right \<and>
     list_all2 (\<lambda>a b. ts_begin a = ts_begin b \<and> ts_count a = ts_count b) left right"

definition same_item :: "vision_item \<Rightarrow> vision_item \<Rightarrow> bool" where
  "same_item left right \<longleftrightarrow>
     vi_modality left = vi_modality right \<and> same_grid (vi_grid left) (vi_grid right) \<and>
     vi_patch_begin left = vi_patch_begin right \<and> vi_patch_count left = vi_patch_count right \<and>
     vi_content_digest left = vi_content_digest right \<and>
     list_all2 f64_eq (vi_timestamps left) (vi_timestamps right) \<and>
     same_spans (vi_token_spans left) (vi_token_spans right)"

fun item_count_loop :: "nat \<Rightarrow> nat \<Rightarrow> bool \<Rightarrow> vision_item list \<Rightarrow> nat option" where
  "item_count_loop tokens n saw_suffix [] = Some n"
| "item_count_loop tokens n saw_suffix (item # items) =
     (if vi_token_spans item = [] then None
      else
        let first = hd (vi_token_spans item); final = last (vi_token_spans item) in
        if ts_count first = 0 \<or> ts_count final = 0 \<or> ts_begin final > - 1 - ts_count final then None
        else if unat (ts_begin final + ts_count final) \<le> tokens
        then (if saw_suffix then None else item_count_loop tokens (Suc n) saw_suffix items)
        else if unat (ts_begin first) \<ge> tokens then item_count_loop tokens n True items
        else None)"

text \<open>The items that end inside the prefix, or \<open>None\<close> when the frontier divides or reorders items.\<close>

definition prefix_item_count :: "vision_item list \<Rightarrow> nat \<Rightarrow> nat option" where
  "prefix_item_count items tokens = item_count_loop tokens 0 False items"

definition prefix_items_complete_at :: "vision_item list \<Rightarrow> nat \<Rightarrow> bool" where
  "prefix_items_complete_at items tokens = (prefix_item_count items tokens \<noteq> None)"

definition identity_matches :: "resident_identity \<Rightarrow> prepared_prompt \<Rightarrow> nat \<Rightarrow> bool" where
  "identity_matches ident prompt extent =
     (let prompt_tokens = length (pp_token_ids prompt) in
      if extent > prompt_tokens \<or> extent > identity_size ident \<or>
         length (pp_token_types prompt) \<noteq> prompt_tokens \<or> length (pp_positions prompt) \<noteq> 3 * prompt_tokens
      then False
      else if take extent (pp_token_types prompt) \<noteq> take extent (ri_token_types ident) then False
      else if take extent (pp_positions prompt) \<noteq> take extent (ri_axis0 ident) \<or>
              take extent (drop prompt_tokens (pp_positions prompt)) \<noteq> take extent (ri_axis1 ident) \<or>
              take extent (drop (2 * prompt_tokens) (pp_positions prompt)) \<noteq> take extent (ri_axis2 ident)
      then False
      else (case (prefix_item_count (pp_vision_items prompt) extent,
                  prefix_item_count (ri_vision_items ident) extent) of
              (Some incoming, Some resident) \<Rightarrow>
                incoming = resident \<and>
                list_all (\<lambda>i. same_item (pp_vision_items prompt ! i) (ri_vision_items ident ! i)) [0..<incoming]
            | _ \<Rightarrow> False))"

definition prefix_matches :: "prepared_prompt \<Rightarrow> u32 list \<Rightarrow> resident_identity \<Rightarrow> nat \<Rightarrow> bool" where
  "prefix_matches prompt resident_tokens ident extent =
     (if extent > length (pp_token_ids prompt) \<or> extent > length resident_tokens then False
      else take extent (pp_token_ids prompt) = take extent resident_tokens \<and>
           identity_matches ident prompt extent)"

section \<open>Operations on the identity\<close>

definition empty_identity :: resident_identity where
  "empty_identity =
     \<lparr> ri_token_types = [], ri_axis0 = [], ri_axis1 = [], ri_axis2 = [], ri_vision_items = [] \<rparr>"

definition identity_assign :: "prepared_prompt \<Rightarrow> resident_identity result" where
  "identity_assign prompt =
     (let tokens = length (pp_token_ids prompt) in
      if length (pp_token_types prompt) \<noteq> tokens \<or> length (pp_positions prompt) \<noteq> 3 * tokens
      then Inl Invalid_argument
      else Inr \<lparr> ri_token_types = pp_token_types prompt,
                 ri_axis0 = take tokens (pp_positions prompt),
                 ri_axis1 = take tokens (drop tokens (pp_positions prompt)),
                 ri_axis2 = take tokens (drop (2 * tokens) (pp_positions prompt)),
                 ri_vision_items = pp_vision_items prompt \<rparr>)"

fun append_loop :: "nat \<Rightarrow> nat \<Rightarrow> int \<Rightarrow> resident_identity \<Rightarrow> resident_identity \<times> unit result" where
  "append_loop index 0 rope_delta ident = (ident, Inr ())"
| "append_loop index (Suc n) rope_delta ident =
     (if int index > 2147483647 then (ident, Inl Overflow_error)
      else
        let position = int index + rope_delta in
        if position < - 2147483648 \<or> position > 2147483647 then (ident, Inl Overflow_error)
        else append_loop (Suc index) n rope_delta
               (ident\<lparr> ri_token_types := ri_token_types ident @ [0],
                       ri_axis0 := ri_axis0 ident @ [word_of_int position],
                       ri_axis1 := ri_axis1 ident @ [word_of_int position],
                       ri_axis2 := ri_axis2 ident @ [word_of_int position] \<rparr>))"

definition append_generated :: "resident_identity \<Rightarrow> nat \<Rightarrow> int \<Rightarrow> resident_identity \<times> unit result" where
  "append_generated ident extent rope_delta =
     (let begin_index = identity_size ident in
      if extent > 2 ^ 64 - 1 - begin_index then (ident, Inl Overflow_error)
      else append_loop begin_index extent rope_delta ident)"

definition identity_truncate :: "resident_identity \<Rightarrow> nat \<Rightarrow> resident_identity result" where
  "identity_truncate ident tokens =
     (if tokens > identity_size ident then Inl Out_of_range
      else (case prefix_item_count (ri_vision_items ident) tokens of
              None \<Rightarrow> Inl Logic_error
            | Some retained \<Rightarrow>
                Inr \<lparr> ri_token_types = take tokens (ri_token_types ident),
                      ri_axis0 = take tokens (ri_axis0 ident),
                      ri_axis1 = take tokens (ri_axis1 ident),
                      ri_axis2 = take tokens (ri_axis2 ident),
                      ri_vision_items = take retained (ri_vision_items ident) \<rparr>))"

definition tamper_content_digest :: "resident_identity \<Rightarrow> nat \<Rightarrow> u8 \<Rightarrow> resident_identity result" where
  "tamper_content_digest ident item byte =
     (if item \<ge> length (ri_vision_items ident) then Inl Out_of_range
      else
        let v = ri_vision_items ident ! item in
        Inr (ident\<lparr> ri_vision_items := (ri_vision_items ident)
          [item := v\<lparr> vi_content_digest := (vi_content_digest v)[0 := byte] \<rparr>] \<rparr>))"

text \<open>\<^verbatim>\<open>longest_matching_prefix\<close>: the element loop, then the loop over the items of both sides.\<close>

function match_loop :: "(nat \<Rightarrow> bool) \<Rightarrow> nat \<Rightarrow> nat \<Rightarrow> nat" where
  "match_loop same limit matched =
     (if matched < limit \<and> same matched then match_loop same limit (Suc matched) else matched)"
  by auto
termination by (relation "measure (\<lambda>(_, limit, matched). limit - matched)") auto

fun item_front :: "vision_item option \<Rightarrow> nat \<Rightarrow> nat" where
  "item_front None extent = extent"
| "item_front (Some item) extent = unat (ts_begin (hd (vi_token_spans item)))"

definition nth_item :: "vision_item list \<Rightarrow> nat \<Rightarrow> vision_item option" where
  "nth_item items i = (if i < length items then Some (items ! i) else None)"

fun item_loop :: "nat \<Rightarrow> (vision_item option \<times> vision_item option) list \<Rightarrow> nat" where
  "item_loop extent [] = extent"
| "item_loop extent ((a, b) # items) =
     (let first = min (item_front a extent) (item_front b extent) in
      if first \<ge> extent then extent
      else (case (a, b) of
              (Some x, Some y) \<Rightarrow>
                if \<not> same_item x y \<or> item_end x > extent \<or> item_end y > extent then first
                else item_loop extent items
            | _ \<Rightarrow> first))"

definition longest_matching_prefix ::
  "u32 list \<Rightarrow> resident_identity \<Rightarrow> u32 list \<Rightarrow> resident_identity \<Rightarrow> nat \<Rightarrow> nat" where
  "longest_matching_prefix left_tokens left right_tokens right limit =
     (let bound = Min {limit, length left_tokens, length right_tokens, identity_size left, identity_size right};
          extent = match_loop (\<lambda>i. left_tokens ! i = right_tokens ! i \<and>
                    ri_token_types left ! i = ri_token_types right ! i \<and>
                    ri_axis0 left ! i = ri_axis0 right ! i \<and> ri_axis1 left ! i = ri_axis1 right ! i \<and>
                    ri_axis2 left ! i = ri_axis2 right ! i) bound 0;
          n = max (length (ri_vision_items left)) (length (ri_vision_items right))
      in item_loop extent
           (map (\<lambda>i. (nth_item (ri_vision_items left) i, nth_item (ri_vision_items right) i)) [0..<n]))"

end
