(* ===== verification/Prefix_Hash.thy ===== *)
theory Prefix_Hash
  imports Prefix_Identity
begin

text \<open>
  The hash recurrence of \<^verbatim>\<open>prefix_identity.cpp\<close>: resuming it at the cursor that
  \<^verbatim>\<open>item_cursor_after\<close> recomputes is the same as never having stopped. On that rest the cache of
  resident hashes, which the owner extends, cuts and queries in any order, and the agreement of the
  hash with the comparison of prefixes.
\<close>

section \<open>The item cursor\<close>

lemma mix_items_rest: "snd (mix_items k h items) = drop (cursor_loop k k items) items"
  by (induction k h items rule: mix_items.induct) auto

lemma cursor_loop_next:
  "a \<le> Suc k \<Longrightarrow>
   drop (cursor_loop (Suc k) (Suc k) (drop (cursor_loop k a items) items)) (drop (cursor_loop k a items) items)
   = drop (cursor_loop (Suc k) a items) items"
proof (induction items arbitrary: a)
  case (Cons item items)
  show ?case
  proof (cases "vi_token_spans item = []")
    case True
    then show ?thesis using Cons by simp
  next
    case nonempty: False
    consider "item_end item < a" | "a \<le> item_end item" "item_end item \<le> k" | "item_end item = Suc k" "a \<le> Suc k"
      | "item_end item > Suc k" using Cons.prems by linarith
    then show ?thesis
      by cases (use nonempty Cons in auto)
  qed
qed simp

fun extend_state ::
  "hash_inputs \<Rightarrow> nat \<Rightarrow> nat \<Rightarrow> prefix_hash \<times> vision_item list \<Rightarrow> prefix_hash \<times> vision_item list" where
  "extend_state inp i 0 st = st"
| "extend_state inp i (Suc n) st =
     extend_state inp (Suc i) n
       (mix_items (Suc i) (mix_token (fst st) (hi_tokens inp ! i) (hi_types inp ! i) (hi_axis0 inp ! i)
          (hi_axis1 inp ! i) (hi_axis2 inp ! i)) (snd st))"

lemma extend_loop_length [simp]: "length (extend_loop inp i n st) = n"
  by (induction inp i n st rule: extend_loop.induct) (simp_all add: Let_def)

lemma extend_loop_append:
  "extend_loop inp i (n + m) st = extend_loop inp i n st @ extend_loop inp (i + n) m (extend_state inp i n st)"
  by (induction inp i n st rule: extend_loop.induct) (simp_all add: Let_def)

lemma extend_state_hash: "fst (extend_state inp i n st) = last (fst st # extend_loop inp i n st)"
  by (induction inp i n st rule: extend_loop.induct) (simp_all add: Let_def)

lemma extend_state_rest:
  assumes "snd st = drop (item_cursor_after items i) items"
  shows "snd (extend_state inp i n st) = drop (item_cursor_after items (i + n)) items"
  using assms
proof (induction inp i n st rule: extend_state.induct)
  case (2 inp i n st)
  let ?st = "mix_items (Suc i) (mix_token (fst st) (hi_tokens inp ! i) (hi_types inp ! i) (hi_axis0 inp ! i)
          (hi_axis1 inp ! i) (hi_axis2 inp ! i)) (snd st)"
  have "snd ?st = drop (item_cursor_after items (Suc i)) items"
  proof (cases "i = 0")
    case True
    then show ?thesis using 2(2) by (simp add: mix_items_rest item_cursor_after_def)
  next
    case False
    then show ?thesis using 2(2) cursor_loop_next [of 1 i items] by (simp add: mix_items_rest item_cursor_after_def)
  qed
  from 2(1) [OF this] show ?case by simp
qed simp

section \<open>Hashes from scratch\<close>

text \<open>The hash of the first \<open>n\<close> inputs, and all of them as one chain.\<close>

definition hash_upto :: "hash_inputs \<Rightarrow> nat \<Rightarrow> prefix_hash" where
  "hash_upto inp n = last (initial_hash # extend_hash initial_hash inp 0 n)"

lemma extend_hash_length [simp]: "length (extend_hash h inp i j) = j - i"
  by (simp add: extend_hash_def)

lemma extend_hash_resume:
  "extend_hash initial_hash inp 0 (n + m)
   = extend_hash initial_hash inp 0 n @ extend_hash (hash_upto inp n) inp n (n + m)"
proof -
  let ?s = "(initial_hash, hi_items inp)"
  have start: "extend_hash initial_hash inp 0 j = extend_loop inp 0 j ?s" for j
    by (simp add: extend_hash_def item_cursor_after_def)
  have "extend_state inp 0 n ?s
      = (hash_upto inp n, drop (item_cursor_after (hi_items inp) n) (hi_items inp))"
    using extend_state_hash [of inp 0 n ?s] extend_state_rest [of ?s "hi_items inp" 0 inp n]
    by (simp add: prod_eq_iff hash_upto_def start item_cursor_after_def)
  then show ?thesis unfolding start extend_loop_append by (simp add: extend_hash_def)
qed

lemma hash_chain_nth:
  assumes "k \<le> n"
  shows "(initial_hash # extend_hash initial_hash inp 0 n) ! k = hash_upto inp k"
proof -
  obtain m where n: "n = k + m" using assms le_Suc_ex by blast
  have "(initial_hash # extend_hash initial_hash inp 0 k) ! k = last (initial_hash # extend_hash initial_hash inp 0 k)"
    by (subst last_conv_nth) simp_all
  then show ?thesis unfolding n extend_hash_resume hash_upto_def
    by (cases k) (simp_all add: nth_append)
qed

lemma extend_hash_last:
  "last (hash_upto inp n # extend_hash (hash_upto inp n) inp n (n + m)) = hash_upto inp (n + m)"
  using arg_cong [OF extend_hash_resume [of inp n m], of "\<lambda>xs. last (initial_hash # xs)"]
  by (cases "extend_hash (hash_upto inp n) inp n (n + m) = []") (auto simp: hash_upto_def)

lemma extend_hash_nth:
  assumes "i < m"
  shows "extend_hash (hash_upto inp n) inp n (n + m) ! i = hash_upto inp (Suc (n + i))"
proof -
  have "(initial_hash # extend_hash initial_hash inp 0 (n + m)) ! Suc (n + i) = hash_upto inp (Suc (n + i))"
    by (rule hash_chain_nth) (use assms in simp)
  then show ?thesis unfolding extend_hash_resume by (simp add: nth_append)
qed

text \<open>Inputs past the hashed extent, and items that end past it, do not matter.\<close>

definition inputs_agree :: "nat \<Rightarrow> hash_inputs \<Rightarrow> hash_inputs \<Rightarrow> bool" where
  "inputs_agree n p q \<longleftrightarrow>
     (\<forall>i<n. hi_tokens p ! i = hi_tokens q ! i \<and> hi_types p ! i = hi_types q ! i \<and>
        hi_axis0 p ! i = hi_axis0 q ! i \<and> hi_axis1 p ! i = hi_axis1 q ! i \<and> hi_axis2 p ! i = hi_axis2 q ! i) \<and>
     (\<exists>xs ys zs. hi_items p = xs @ ys \<and> hi_items q = xs @ zs \<and>
        (\<forall>y\<in>set ys \<union> set zs. vi_token_spans y \<noteq> [] \<and> n < item_end y))"

lemma mix_items_suffix:
  assumes "\<forall>y\<in>set ys. vi_token_spans y \<noteq> [] \<and> k < item_end y"
  shows "mix_items k h (xs @ ys) = (fst (mix_items k h xs), snd (mix_items k h xs) @ ys)"
  using assms
proof (induction k h xs rule: mix_items.induct)
  case (1 k h)
  then show ?case by (cases ys) auto
qed auto

lemma extend_loop_suffix:
  "\<forall>y\<in>set ys. vi_token_spans y \<noteq> [] \<and> i + n < item_end y \<Longrightarrow>
   extend_loop inp i n (h, xs @ ys) = extend_loop inp i n (h, xs)"
proof (induction n arbitrary: i h xs)
  case (Suc n)
  let ?h = "mix_token h (hi_tokens inp ! i) (hi_types inp ! i) (hi_axis0 inp ! i) (hi_axis1 inp ! i) (hi_axis2 inp ! i)"
  have "\<forall>y\<in>set ys. vi_token_spans y \<noteq> [] \<and> Suc i < item_end y" using Suc.prems by auto
  from mix_items_suffix [OF this, of ?h xs] Suc show ?case
    by (simp add: Let_def)
qed simp

lemma extend_loop_cong:
  "\<forall>j. i \<le> j \<and> j < i + n \<longrightarrow> hi_tokens p ! j = hi_tokens q ! j \<and> hi_types p ! j = hi_types q ! j \<and>
     hi_axis0 p ! j = hi_axis0 q ! j \<and> hi_axis1 p ! j = hi_axis1 q ! j \<and> hi_axis2 p ! j = hi_axis2 q ! j \<Longrightarrow>
   extend_loop p i n st = extend_loop q i n st"
proof (induction n arbitrary: i st)
  case (Suc n)
  have "extend_loop p (Suc i) n st' = extend_loop q (Suc i) n st'" for st'
    by (rule Suc.IH) (use Suc.prems in auto)
  moreover have "hi_tokens p ! i = hi_tokens q ! i \<and> hi_types p ! i = hi_types q ! i \<and>
     hi_axis0 p ! i = hi_axis0 q ! i \<and> hi_axis1 p ! i = hi_axis1 q ! i \<and> hi_axis2 p ! i = hi_axis2 q ! i"
    using Suc.prems by simp
  ultimately show ?case by (simp add: Let_def)
qed simp

lemma hash_upto_agree:
  assumes "inputs_agree n p q" "k \<le> n"
  shows "hash_upto p k = hash_upto q k"
proof -
  obtain xs ys zs where items: "hi_items p = xs @ ys" "hi_items q = xs @ zs"
    "\<forall>y\<in>set ys \<union> set zs. vi_token_spans y \<noteq> [] \<and> n < item_end y"
    using assms(1) by (auto simp: inputs_agree_def)
  have ys: "\<forall>y\<in>set ys. vi_token_spans y \<noteq> [] \<and> 0 + k < item_end y"
    using items(3) assms(2) by (auto intro: le_less_trans)
  have zs: "\<forall>y\<in>set zs. vi_token_spans y \<noteq> [] \<and> 0 + k < item_end y"
    using items(3) assms(2) by (auto intro: le_less_trans)
  have "extend_loop p 0 k (initial_hash, xs) = extend_loop q 0 k (initial_hash, xs)"
    by (rule extend_loop_cong) (use assms in \<open>auto simp: inputs_agree_def\<close>)
  then show ?thesis
    using extend_loop_suffix [OF ys, of p initial_hash xs] extend_loop_suffix [OF zs, of q initial_hash xs]
    by (simp add: hash_upto_def extend_hash_def item_cursor_after_def items)
qed

lemma item_count_loop_split:
  "item_count_loop n c saw items = Some r \<Longrightarrow>
   \<exists>m. r = c + m \<and> m \<le> length items \<and> (saw \<longrightarrow> m = 0) \<and>
     (\<forall>x\<in>set (take m items). vi_token_spans x \<noteq> [] \<and> item_end x \<le> n) \<and>
     (\<forall>y\<in>set (drop m items). vi_token_spans y \<noteq> [] \<and> n < item_end y)"
proof (induction n c saw items rule: item_count_loop.induct)
  case (1 n c saw)
  then show ?case by simp
next
  case (2 n c saw item items)
  let ?first = "hd (vi_token_spans item)" and ?final = "last (vi_token_spans item)"
  have ne: "vi_token_spans item \<noteq> []" using 2(3) by (auto split: if_splits)
  have e: "item_end item = unat (ts_begin ?final + ts_count ?final)" using ne by (simp add: item_end_def Let_def)
  have g: "\<not> (ts_count ?first = 0 \<or> ts_count ?final = 0 \<or> ts_begin ?final > - 1 - ts_count ?final)"
    using 2(3) ne by (auto simp: Let_def split: if_splits)
  show ?case
  proof (cases "item_end item \<le> n")
    case True
    then have ns: "\<not> saw" and rec: "item_count_loop n (Suc c) saw items = Some r"
      using 2(3) ne g by (simp_all add: e Let_def split: if_splits)
    from 2(1) [OF ne refl refl g _ ns rec] True obtain m where "r = Suc c + m" "m \<le> length items"
      "\<forall>x\<in>set (take m items). vi_token_spans x \<noteq> [] \<and> item_end x \<le> n"
      "\<forall>y\<in>set (drop m items). vi_token_spans y \<noteq> [] \<and> n < item_end y" by (auto simp: e)
    then show ?thesis using ns True ne by (intro exI [of _ "Suc m"]) auto
  next
    case False
    then have rec: "item_count_loop n c True items = Some r" and f: "unat (ts_begin ?first) \<ge> n"
      using 2(3) ne g by (simp_all add: e Let_def split: if_splits)
    from 2(2) [OF ne refl refl g _ f rec] False have "r = c"
      "\<forall>y\<in>set items. vi_token_spans y \<noteq> [] \<and> n < item_end y" by (auto simp: e)
    then show ?thesis using False ne by (intro exI [of _ 0]) auto
  qed
qed

lemma prefix_item_count_split:
  assumes "prefix_item_count items n = Some m"
  shows "m \<le> length items" "\<forall>x\<in>set (take m items). vi_token_spans x \<noteq> [] \<and> item_end x \<le> n"
    "\<forall>y\<in>set (drop m items). vi_token_spans y \<noteq> [] \<and> n < item_end y"
  using item_count_loop_split [OF assms [unfolded prefix_item_count_def]] by auto

section \<open>The cache of resident hashes\<close>

definition identity_wf :: "resident_identity \<Rightarrow> bool" where
  "identity_wf ident \<longleftrightarrow>
     length (ri_axis0 ident) = identity_size ident \<and> length (ri_axis1 ident) = identity_size ident \<and>
     length (ri_axis2 ident) = identity_size ident"

definition cached :: "u32 list \<Rightarrow> resident_identity \<Rightarrow> prefix_hash list \<Rightarrow> bool" where
  "cached tokens ident hashes \<longleftrightarrow>
     length hashes \<le> Suc (min (length tokens) (identity_size ident)) \<and>
     (\<forall>k<length hashes. hashes ! k = hash_upto (resident_inputs tokens ident) k)"

lemma prefix_hash_at_eq:
  "prefix_hash_at tokens ident k =
     (if k \<le> length tokens \<and> k \<le> identity_size ident then Inr (hash_upto (resident_inputs tokens ident) k)
      else Inl Out_of_range)"
  by (auto simp: prefix_hash_at_def hash_upto_def)

lemma hashes_at_cached:
  assumes c: "cached tokens ident hashes"
  shows "snd (hashes_at hashes tokens ident k) = prefix_hash_at tokens ident k"
    "cached tokens ident (fst (hashes_at hashes tokens ident k))"
proof -
  let ?inp = "resident_inputs tokens ident"
  have "snd (hashes_at hashes tokens ident k) = prefix_hash_at tokens ident k \<and>
      cached tokens ident (fst (hashes_at hashes tokens ident k))"
  proof (cases "k \<le> length tokens \<and> k \<le> identity_size ident")
    case False
    then show ?thesis using c by (auto simp: hashes_at_def prefix_hash_at_def)
  next
    case ok: True
    show ?thesis
    proof (cases "k < length hashes")
      case True
      then show ?thesis using ok c by (simp add: hashes_at_def prefix_hash_at_eq cached_def)
    next
      case False
      define hs where "hs = (if hashes = [] then [initial_hash] else hashes)"
      define n where "n = length hs - 1"
      have hs: "hs \<noteq> []" "cached tokens ident hs" "length hs = Suc n" "n \<le> k"
        using c False by (auto simp: hs_def n_def cached_def hash_upto_def extend_hash_def)
      then have lst: "last hs = hash_upto ?inp n" by (simp add: last_conv_nth cached_def)
      obtain m where k: "k = n + m" using hs(4) le_Suc_ex by blast
      let ?new = "extend_hash (hash_upto ?inp n) ?inp n k"
      have at: "hashes_at hashes tokens ident k = (hs @ ?new, Inr (last (hash_upto ?inp n # ?new)))"
        using ok False unfolding hashes_at_def Let_def hs_def [symmetric] n_def [symmetric] lst by simp
      have "(hs @ ?new) ! j = hash_upto ?inp j" if "j < length (hs @ ?new)" for j
      proof (cases "j < length hs")
        case True
        then show ?thesis using hs(2) by (simp add: nth_append cached_def)
      next
        case False
        then obtain i where j: "j = Suc (n + i)" using hs(3) by (metis add_Suc le_Suc_ex not_less)
        then show ?thesis using that hs(3) extend_hash_nth [of i m ?inp n] by (simp add: nth_append k)
      qed
      moreover have "length (hs @ ?new) \<le> Suc (min (length tokens) (identity_size ident))"
        using ok hs(3,4) by simp
      ultimately have "cached tokens ident (hs @ ?new)" by (simp add: cached_def)
      then show ?thesis unfolding at using extend_hash_last [of ?inp n m] ok by (simp add: prefix_hash_at_eq k)
    qed
  qed
  then show "snd (hashes_at hashes tokens ident k) = prefix_hash_at tokens ident k"
    "cached tokens ident (fst (hashes_at hashes tokens ident k))" by blast+
qed

lemma cached_cong:
  assumes "cached tokens ident hashes" "inputs_agree n (resident_inputs tokens ident) (resident_inputs tokens' ident')"
    "length hs \<le> length hashes" "hs = take (length hs) hashes" "length hs \<le> Suc n"
    "n \<le> length tokens'" "n \<le> identity_size ident'"
  shows "cached tokens' ident' hs"
proof -
  have "hs ! k = hash_upto (resident_inputs tokens' ident') k" if "k < length hs" for k
  proof -
    have "hs ! k = hashes ! k" using assms(4) that by (metis nth_take)
    also have "\<dots> = hash_upto (resident_inputs tokens ident) k" using assms(1,3) that by (simp add: cached_def)
    also have "\<dots> = hash_upto (resident_inputs tokens' ident') k"
      by (rule hash_upto_agree [OF assms(2)]) (use that assms(5) in simp)
    finally show ?thesis .
  qed
  then show ?thesis using assms(5-7) by (simp add: cached_def)
qed

section \<open>The owner of the cache\<close>

text \<open>
  A sequence keeps its token ledger, its identity and the cached hashes
  (\<^verbatim>\<open>program_impl.h\<close>: the begin of a request, restores, teacher forcing and decode rounds). It loads a
  prompt with or without its chain, appends to the ledger and to the identity, cuts them, replaces
  the last token, drops the cache, and asks for the hash of any prefix.
\<close>

record resident_session =
  rs_ledger :: "u32 list"
  rs_identity :: resident_identity
  rs_hashes :: "prefix_hash list"

inductive session_step :: "resident_session \<Rightarrow> resident_session \<Rightarrow> bool" where
  load: "identity_assign prompt = Inr ident \<Longrightarrow> prefix_hash_chain prompt = Inr chain \<Longrightarrow>
    hashes_assign chain = Inr hs \<Longrightarrow>
    session_step s \<lparr> rs_ledger = pp_token_ids prompt, rs_identity = ident, rs_hashes = hs \<rparr>"
| load_cold: "identity_assign prompt = Inr ident \<Longrightarrow>
    session_step s \<lparr> rs_ledger = pp_token_ids prompt, rs_identity = ident, rs_hashes = [] \<rparr>"
| push: "session_step s (s\<lparr> rs_ledger := rs_ledger s @ tokens \<rparr>)"
| generated: "append_generated (rs_identity s) n rope_delta = (ident, Inr ()) \<Longrightarrow>
    session_step s (s\<lparr> rs_identity := ident \<rparr>)"
| resize: "session_step s (s\<lparr> rs_ledger := take n (rs_ledger s), rs_hashes := hashes_truncate (rs_hashes s) n \<rparr>)"
| cut: "identity_truncate (rs_identity s) n = Inr ident \<Longrightarrow>
    session_step s \<lparr> rs_ledger = take n (rs_ledger s), rs_identity = ident,
      rs_hashes = hashes_truncate (rs_hashes s) n \<rparr>"
| force_last: "rs_ledger s \<noteq> [] \<Longrightarrow>
    session_step s (s\<lparr> rs_ledger := butlast (rs_ledger s) @ [token],
      rs_hashes := hashes_truncate (rs_hashes s) (length (rs_ledger s) - 1) \<rparr>)"
| forget: "session_step s (s\<lparr> rs_hashes := [] \<rparr>)"
| query: "session_step s (s\<lparr> rs_hashes := fst (hashes_at (rs_hashes s) (rs_ledger s) (rs_identity s) k) \<rparr>)"

inductive session_reachable :: "resident_session \<Rightarrow> bool" where
  fresh: "session_reachable \<lparr> rs_ledger = [], rs_identity = empty_identity, rs_hashes = [] \<rparr>"
| step: "session_reachable s \<Longrightarrow> session_step s s' \<Longrightarrow> session_reachable s'"

definition session_inv :: "resident_session \<Rightarrow> bool" where
  "session_inv s \<longleftrightarrow> identity_wf (rs_identity s) \<and> cached (rs_ledger s) (rs_identity s) (rs_hashes s)"

lemma inputs_agree_same_items:
  assumes "hi_items p = hi_items q"
    "\<forall>i<n. hi_tokens p ! i = hi_tokens q ! i \<and> hi_types p ! i = hi_types q ! i \<and>
        hi_axis0 p ! i = hi_axis0 q ! i \<and> hi_axis1 p ! i = hi_axis1 q ! i \<and> hi_axis2 p ! i = hi_axis2 q ! i"
  shows "inputs_agree n p q"
  using assms unfolding inputs_agree_def by (intro conjI exI [of _ "hi_items q"] exI [of _ "[]"]) auto

lemma append_loop_Inr:
  "append_loop i n d ident = (ident', Inr ()) \<Longrightarrow>
   \<exists>zs ps. length zs = n \<and> length ps = n \<and> ri_token_types ident' = ri_token_types ident @ zs \<and>
     ri_axis0 ident' = ri_axis0 ident @ ps \<and> ri_axis1 ident' = ri_axis1 ident @ ps \<and>
     ri_axis2 ident' = ri_axis2 ident @ ps \<and> ri_vision_items ident' = ri_vision_items ident"
proof (induction i n d ident rule: append_loop.induct)
  case (2 i n d ident)
  have ok: "\<not> int i > 2147483647" "\<not> (int i + d < - 2147483648 \<or> int i + d > 2147483647)"
    using 2(2) by (auto simp: Let_def split: if_splits)
  from 2(1) [OF ok(1) refl ok(2)] 2(2) ok obtain zs ps where z: "length zs = n" "length ps = n"
    "ri_token_types ident' = ri_token_types ident @ 0 # zs"
    "ri_axis0 ident' = ri_axis0 ident @ word_of_int (int i + d) # ps"
    "ri_axis1 ident' = ri_axis1 ident @ word_of_int (int i + d) # ps"
    "ri_axis2 ident' = ri_axis2 ident @ word_of_int (int i + d) # ps"
    "ri_vision_items ident' = ri_vision_items ident"
    by (auto simp: Let_def)
  then show ?case by (intro exI [of _ "0 # zs"] exI [of _ "word_of_int (int i + d) # ps"]) simp
qed simp

lemma hashes_truncate_take: "hashes_truncate hs n = take (Suc n) hs" "length (hashes_truncate hs n) \<le> Suc n"
  by (auto simp: hashes_truncate_def)

lemma hashes_truncate_prefix: "hashes_truncate hs n = take (length (hashes_truncate hs n)) hs"
  by (simp add: hashes_truncate_def)

lemma session_inv_load:
  assumes "identity_assign prompt = Inr ident"
  shows "identity_wf ident" "identity_size ident = length (pp_token_ids prompt)"
    "k \<le> length (pp_token_ids prompt) \<Longrightarrow>
     hash_upto (resident_inputs (pp_token_ids prompt) ident) k = hash_upto (prompt_inputs prompt) k"
proof -
  let ?n = "length (pp_token_ids prompt)"
  have l: "length (pp_token_types prompt) = ?n" "length (pp_positions prompt) = 3 * ?n"
    and ident: "ident = \<lparr> ri_token_types = pp_token_types prompt, ri_axis0 = take ?n (pp_positions prompt),
       ri_axis1 = take ?n (drop ?n (pp_positions prompt)), ri_axis2 = take ?n (drop (2 * ?n) (pp_positions prompt)),
       ri_vision_items = pp_vision_items prompt \<rparr>"
    using assms by (auto simp: identity_assign_def Let_def split: if_splits)
  show "identity_wf ident" "identity_size ident = ?n"
    using l by (simp_all add: identity_wf_def identity_size_def ident)
  assume k: "k \<le> ?n"
  have "inputs_agree k (resident_inputs (pp_token_ids prompt) ident) (prompt_inputs prompt)"
    by (rule inputs_agree_same_items) (use k in \<open>auto simp: resident_inputs_def prompt_inputs_def ident Let_def\<close>)
  then show "hash_upto (resident_inputs (pp_token_ids prompt) ident) k = hash_upto (prompt_inputs prompt) k"
    by (rule hash_upto_agree) simp
qed

lemma session_inv_cut:
  assumes "session_inv s" "identity_truncate (rs_identity s) n = Inr ident"
  shows "session_inv \<lparr> rs_ledger = take n (rs_ledger s), rs_identity = ident,
      rs_hashes = hashes_truncate (rs_hashes s) n \<rparr>"
proof -
  let ?i = "rs_identity s"
  obtain m where n: "n \<le> identity_size ?i" and m: "prefix_item_count (ri_vision_items ?i) n = Some m"
    and ident: "ident = \<lparr> ri_token_types = take n (ri_token_types ?i), ri_axis0 = take n (ri_axis0 ?i),
       ri_axis1 = take n (ri_axis1 ?i), ri_axis2 = take n (ri_axis2 ?i),
       ri_vision_items = take m (ri_vision_items ?i) \<rparr>"
    using assms(2) by (auto simp: identity_truncate_def split: if_splits option.splits)
  have wf: "identity_wf ident" and size: "identity_size ident = n"
    using assms(1) n by (auto simp: session_inv_def identity_wf_def identity_size_def ident)
  let ?k = "min n (length (rs_ledger s))"
  have "hi_items (resident_inputs (rs_ledger s) ?i) = take m (ri_vision_items ?i) @ drop m (ri_vision_items ?i)"
    by (simp add: resident_inputs_def)
  moreover have "\<forall>y\<in>set (drop m (ri_vision_items ?i)). vi_token_spans y \<noteq> [] \<and> ?k < item_end y"
    using prefix_item_count_split(3) [OF m] by auto
  ultimately have agree: "inputs_agree ?k (resident_inputs (rs_ledger s) ?i) (resident_inputs (take n (rs_ledger s)) ident)"
    unfolding inputs_agree_def
    by (intro conjI exI [of _ "take m (ri_vision_items ?i)"] exI [of _ "drop m (ri_vision_items ?i)"] exI [of _ "[]"])
      (auto simp: resident_inputs_def ident)
  have c: "cached (rs_ledger s) ?i (rs_hashes s)" using assms(1) by (simp add: session_inv_def)
  then have len: "length (hashes_truncate (rs_hashes s) n) \<le> Suc ?k"
    by (auto simp: hashes_truncate_take cached_def)
  have "cached (take n (rs_ledger s)) ident (hashes_truncate (rs_hashes s) n)"
    by (rule cached_cong [OF c agree _ hashes_truncate_prefix len]) (auto simp: hashes_truncate_take size)
  then show ?thesis using wf by (simp add: session_inv_def)
qed

lemma cached_load:
  assumes "identity_assign prompt = Inr ident" "prefix_hash_chain prompt = Inr chain" "hashes_assign chain = Inr hs"
  shows "cached (pp_token_ids prompt) ident hs"
proof -
  have hs: "hs = initial_hash # extend_hash initial_hash (prompt_inputs prompt) 0 (length (pp_token_ids prompt))"
    using assms(2,3) by (auto simp: prefix_hash_chain_def hashes_assign_def Let_def split: if_splits)
  note l = session_inv_load [OF assms(1)]
  have "hs ! k = hash_upto (resident_inputs (pp_token_ids prompt) ident) k" if "k < length hs" for k
    using that l(3) [of k] hash_chain_nth [of k "length (pp_token_ids prompt)" "prompt_inputs prompt"]
    unfolding hs by simp
  then show ?thesis using l(2) by (simp add: cached_def hs)
qed

lemma cached_generated:
  assumes wf: "identity_wf ident" and c: "cached tokens ident hs"
    and app: "append_generated ident n rope_delta = (ident', Inr ())"
  shows "identity_wf ident'" "cached tokens ident' hs"
proof -
  have "append_loop (identity_size ident) n rope_delta ident = (ident', Inr ())"
    using app by (auto simp: append_generated_def Let_def split: if_splits)
  then obtain zs ps where z: "length zs = n" "length ps = n"
    "ri_token_types ident' = ri_token_types ident @ zs" "ri_axis0 ident' = ri_axis0 ident @ ps"
    "ri_axis1 ident' = ri_axis1 ident @ ps" "ri_axis2 ident' = ri_axis2 ident @ ps"
    "ri_vision_items ident' = ri_vision_items ident" using append_loop_Inr by blast
  show "identity_wf ident'" using wf z by (simp add: identity_wf_def identity_size_def)
  have "inputs_agree (min (length tokens) (identity_size ident))
      (resident_inputs tokens ident) (resident_inputs tokens ident')"
    by (rule inputs_agree_same_items)
      (use wf in \<open>auto simp: resident_inputs_def nth_append z identity_wf_def identity_size_def\<close>)
  from cached_cong [OF c this, of hs] c z(3) show "cached tokens ident' hs"
    by (auto simp: cached_def identity_size_def)
qed

lemma cached_ledger:
  assumes c: "cached tokens ident hs"
    and agree: "\<forall>i<n. i < length tokens \<longrightarrow> tokens' ! i = tokens ! i" and len: "n \<le> length tokens'"
    and short: "length hs' \<le> Suc n" "hs' = take (length hs') hs"
  shows "cached tokens' ident hs'"
proof -
  let ?n = "min n (min (length tokens) (identity_size ident))"
  have "inputs_agree ?n (resident_inputs tokens ident) (resident_inputs tokens' ident)"
    by (rule inputs_agree_same_items) (use agree in \<open>auto simp: resident_inputs_def\<close>)
  moreover have "length hs' \<le> length hs" using short(2) by (metis length_take min.bounded_iff order_refl)
  moreover from this c short(1) have "length hs' \<le> Suc ?n" by (auto simp: cached_def)
  ultimately show ?thesis using cached_cong [OF c _ _ short(2)] len by auto
qed

lemma session_inv_step:
  assumes inv: "session_inv s" and step: "session_step s s'"
  shows "session_inv s'"
proof -
  have c: "cached (rs_ledger s) (rs_identity s) (rs_hashes s)" and wf: "identity_wf (rs_identity s)"
    using inv by (auto simp: session_inv_def)
  show ?thesis using step
  proof cases
    case (load prompt ident chain hs)
    then show ?thesis using session_inv_load(1) cached_load by (simp add: session_inv_def)
  next
    case (load_cold prompt ident)
    then show ?thesis using session_inv_load(1) [OF load_cold(2)] by (simp add: session_inv_def cached_def)
  next
    case (push tokens)
    have "cached (rs_ledger s @ tokens) (rs_identity s) (rs_hashes s)"
      by (rule cached_ledger [OF c, of "length (rs_ledger s)"]) (use c in \<open>auto simp: nth_append cached_def\<close>)
    then show ?thesis using push wf by (simp add: session_inv_def)
  next
    case (generated n rope_delta ident)
    then show ?thesis using cached_generated [OF wf c] by (simp add: session_inv_def)
  next
    case (resize n)
    have "length (hashes_truncate (rs_hashes s) n) \<le> Suc (min n (length (rs_ledger s)))"
      using c by (auto simp: hashes_truncate_take cached_def)
    then have "cached (take n (rs_ledger s)) (rs_identity s) (hashes_truncate (rs_hashes s) n)"
      by (intro cached_ledger [OF c _ _ _ hashes_truncate_prefix, of "min n (length (rs_ledger s))"]) (auto simp: hashes_truncate_take)
    then show ?thesis using resize wf by (simp add: session_inv_def)
  next
    case (cut n ident)
    then show ?thesis using session_inv_cut [OF inv cut(2)] by simp
  next
    case (force_last token)
    have "cached (butlast (rs_ledger s) @ [token]) (rs_identity s)
        (hashes_truncate (rs_hashes s) (length (rs_ledger s) - 1))"
      by (rule cached_ledger [OF c _ _ _ hashes_truncate_prefix, of "length (rs_ledger s) - 1"])
        (auto simp: hashes_truncate_take nth_append nth_butlast)
    then show ?thesis using force_last wf by (simp add: session_inv_def)
  next
    case forget
    then show ?thesis using wf by (simp add: session_inv_def cached_def)
  next
    case (query k)
    then show ?thesis using wf hashes_at_cached(2) [OF c] by (simp add: session_inv_def)
  qed
qed

lemma session_reachable_inv: "session_reachable s \<Longrightarrow> session_inv s"
proof (induction rule: session_reachable.induct)
  case fresh
  then show ?case by (simp add: session_inv_def identity_wf_def cached_def empty_identity_def identity_size_def)
qed (rule session_inv_step)

section \<open>Properties\<close>

text \<open>
  C4: The cache of resident prefix hashes is exact. However a sequence loads prompts, grows, is
  cut, rewrites its last token, forgets or fills the cache, the hash it reports for any prefix is
  the hash recomputed from the first token on, and it throws exactly when that does.
\<close>

theorem resident_hashes_exact:
  assumes "session_reachable s"
  shows "snd (hashes_at (rs_hashes s) (rs_ledger s) (rs_identity s) k)
    = prefix_hash_at (rs_ledger s) (rs_identity s) k"
  by (rule hashes_at_cached(1)) (use session_reachable_inv [OF assms] in \<open>simp add: session_inv_def\<close>)

definition demo_prompt :: prepared_prompt where
  "demo_prompt = \<lparr> pp_token_ids = [5, 6], pp_token_types = [0, 0], pp_positions = [0, 1, 0, 1, 0, 1],
     pp_vision_items = [] \<rparr>"

definition demo_identity :: resident_identity where
  "demo_identity = \<lparr> ri_token_types = [0, 0, 0], ri_axis0 = [0, 1, 2], ri_axis1 = [0, 1, 2],
     ri_axis2 = [0, 1, 2], ri_vision_items = [] \<rparr>"

lemma demo_session:
  "\<exists>hs. hs \<noteq> [] \<and> session_reachable \<lparr> rs_ledger = [5, 6, 7], rs_identity = demo_identity, rs_hashes = hs \<rparr>"
proof -
  let ?s0 = "\<lparr> rs_ledger = [], rs_identity = empty_identity, rs_hashes = [] \<rparr>"
  let ?i = "\<lparr> ri_token_types = [0, 0], ri_axis0 = [0, 1], ri_axis1 = [0, 1], ri_axis2 = [0, 1], ri_vision_items = [] \<rparr>"
  obtain chain where chain: "prefix_hash_chain demo_prompt = Inr chain" "hashes_assign chain = Inr chain" "chain \<noteq> []"
    by (simp add: prefix_hash_chain_def hashes_assign_def demo_prompt_def Let_def)
  have "identity_assign demo_prompt = Inr ?i" by (simp add: identity_assign_def demo_prompt_def Let_def eval_nat_numeral)
  from session_step.load [OF this chain(1,2), of ?s0]
  have "session_reachable \<lparr> rs_ledger = [5, 6], rs_identity = ?i, rs_hashes = chain \<rparr>" (is "session_reachable ?s1")
    using session_reachable.step [OF session_reachable.fresh] by (simp add: demo_prompt_def)
  from session_reachable.step [OF this session_step.push [of _ "[7]"]]
  have "session_reachable \<lparr> rs_ledger = [5, 6, 7], rs_identity = ?i, rs_hashes = chain \<rparr>" by simp
  moreover have "append_generated ?i 1 0 = (demo_identity, Inr ())"
    by (simp add: append_generated_def identity_size_def Let_def demo_identity_def)
  ultimately show ?thesis using chain(3) session_reachable.step [OF _ session_step.generated] by fastforce
qed

theorem resident_hashes_exact_witness:
  "\<exists>hs. hs \<noteq> [] \<and> snd (hashes_at hs [5, 6, 7] demo_identity 3) = prefix_hash_at [5, 6, 7] demo_identity 3 \<and>
     prefix_hash_at [5, 6, 7] demo_identity 3 \<noteq> Inl Out_of_range"
proof -
  obtain hs where hs: "hs \<noteq> []" "session_reachable \<lparr> rs_ledger = [5, 6, 7], rs_identity = demo_identity, rs_hashes = hs \<rparr>"
    using demo_session by blast
  show ?thesis using hs(1) resident_hashes_exact [OF hs(2), of 3]
    by (auto simp: prefix_hash_at_def identity_size_def demo_identity_def)
qed

end
