(* ===== verification/Prefix_Match.thy ===== *)
theory Prefix_Match
  imports Prefix_Hash
begin

text \<open>
  The comparison of prefixes in \<^verbatim>\<open>prefix_identity.cpp\<close>: prefixes that match have equal hashes, so a
  hash lookup never misses a reusable prefix, and \<^verbatim>\<open>longest_matching_prefix\<close> returns the longest
  extent on which two residents agree and that divides no vision item.
\<close>

section \<open>Equal items\<close>

lemma f64_zero: "v AND 0x7FFFFFFFFFFFFFFF = (0 :: u64) \<Longrightarrow> v \<noteq> 0x8000000000000000 \<Longrightarrow> v = 0"
proof -
  assume z: "v AND 0x7FFFFFFFFFFFFFFF = 0" and n: "v \<noteq> 0x8000000000000000"
  have "(0x7FFFFFFFFFFFFFFF :: u64) = mask 63" by (simp add: mask_eq_exp_minus_1)
  then have "unat (take_bit 63 v) = 0" using z by (simp add: take_bit_eq_mask)
  then have "unat v mod 2 ^ 63 = 0" by (simp add: take_bit_eq_mod unat_mod)
  then obtain q where q: "unat v = 9223372036854775808 * q" by auto
  have "q < 2" using unat_u64_bound [of v] q by simp
  then have "unat v = 0 \<or> unat v = unat (0x8000000000000000 :: u64)" using q by (auto simp: less_2_cases_iff)
  then show ?thesis using n by (metis unat_eqD unat_0)
qed

lemma f64_eq_bits:
  assumes "f64_eq a b" "a \<noteq> 0x8000000000000000" "b \<noteq> 0x8000000000000000"
  shows "a = b"
  using assms f64_zero [of a] f64_zero [of b] by (auto simp: f64_eq_def Let_def)

lemma same_spans_eq: "same_spans xs ys \<longleftrightarrow> xs = ys"
proof -
  have "(\<lambda>(a :: token_span) b. ts_begin a = ts_begin b \<and> ts_count a = ts_count b) = (=)"
    by (intro ext) (auto intro: token_span.equality)
  then show ?thesis by (auto simp: same_spans_def list.rel_eq)
qed

definition plain_timestamps :: "vision_item \<Rightarrow> bool" where
  "plain_timestamps item \<longleftrightarrow> 0x8000000000000000 \<notin> set (vi_timestamps item)"

lemma same_item_eq:
  assumes "same_item x y" "plain_timestamps x" "plain_timestamps y"
  shows "x = y"
proof -
  have "list_all2 (=) (vi_timestamps x) (vi_timestamps y)"
    by (rule list.rel_mono_strong [of f64_eq])
      (use assms in \<open>auto simp: same_item_def plain_timestamps_def intro: f64_eq_bits\<close>)
  then have "vi_timestamps x = vi_timestamps y" by (simp add: list.rel_eq)
  moreover have "vi_grid x = vi_grid y" using assms(1)
    by (auto simp: same_item_def same_grid_def intro: vision_grid.equality)
  ultimately show ?thesis using assms(1) by (auto simp: same_item_def same_spans_eq intro: vision_item.equality)
qed

lemma same_item_end: "same_item x y \<Longrightarrow> item_end x = item_end y"
  by (simp add: same_item_def same_spans_eq item_end_def)

section \<open>Items in order\<close>

definition item_begin :: "vision_item \<Rightarrow> nat" where
  "item_begin item = unat (ts_begin (hd (vi_token_spans item)))"

definition item_wf :: "vision_item \<Rightarrow> bool" where
  "item_wf item \<longleftrightarrow>
     vi_token_spans item \<noteq> [] \<and> ts_count (hd (vi_token_spans item)) \<noteq> 0 \<and>
     ts_count (last (vi_token_spans item)) \<noteq> 0 \<and>
     \<not> ts_begin (last (vi_token_spans item)) > - 1 - ts_count (last (vi_token_spans item)) \<and>
     item_begin item < item_end item"

text \<open>Prepared prompts list their items in token order; the items of one prompt do not overlap.\<close>

fun items_ordered :: "nat \<Rightarrow> vision_item list \<Rightarrow> bool" where
  "items_ordered p [] = True"
| "items_ordered p (x # xs) = (item_wf x \<and> p \<le> item_begin x \<and> items_ordered (item_end x) xs)"

lemma items_ordered_mono: "items_ordered p xs \<Longrightarrow> q \<le> p \<Longrightarrow> items_ordered q xs"
  by (cases xs) auto

lemma item_count_loop_step:
  assumes "item_wf x"
  shows "item_count_loop k c saw (x # xs) =
    (if item_end x \<le> k then (if saw then None else item_count_loop k (Suc c) saw xs)
     else if item_begin x \<ge> k then item_count_loop k c True xs else None)"
  using assms by (auto simp: item_wf_def item_begin_def item_end_def Let_def)

lemma item_count_loop_after:
  "items_ordered p xs \<Longrightarrow> k \<le> p \<Longrightarrow> item_count_loop k c True xs = Some c"
proof (induction xs arbitrary: p)
  case (Cons x xs)
  then have "item_wf x" "k \<le> item_begin x" "\<not> item_end x \<le> k" by (auto simp: item_wf_def)
  then show ?case using Cons.IH [of "item_end x"] Cons.prems
    by (simp only: item_count_loop_step) (simp add: item_wf_def)
qed simp

lemma item_count_loop_Suc: "item_count_loop k (c + d) saw xs = map_option (\<lambda>n. n + d) (item_count_loop k c saw xs)"
proof (induction xs arbitrary: c saw)
  case (Cons x xs)
  show ?case using Cons.IH [of "Suc c"] Cons.IH [of c] by (simp add: Let_def)
qed simp

lemma prefix_item_count_before:
  assumes "items_ordered p (x # xs)" "k \<le> item_begin x"
  shows "prefix_item_count (x # xs) k = Some 0"
proof -
  have x: "item_wf x" "\<not> item_end x \<le> k" and xs: "items_ordered (item_end x) xs"
    using assms by (auto simp: item_wf_def)
  have "item_count_loop k 0 True xs = Some 0" by (rule item_count_loop_after [OF xs]) (use x in simp)
  then show ?thesis using assms x unfolding prefix_item_count_def by (simp only: item_count_loop_step) simp
qed

lemma prefix_item_count_inside:
  assumes "items_ordered p (x # xs)" "item_begin x < k" "k < item_end x"
  shows "prefix_item_count (x # xs) k = None"
  using assms unfolding prefix_item_count_def by (simp only: items_ordered.simps item_count_loop_step) simp

lemma prefix_item_count_past:
  assumes "items_ordered p (x # xs)" "item_end x \<le> k"
  shows "prefix_item_count (x # xs) k = map_option Suc (prefix_item_count xs k)"
proof -
  have "item_wf x" using assms(1) by simp
  moreover have "item_count_loop k (Suc 0) False xs = map_option Suc (item_count_loop k 0 False xs)"
    using item_count_loop_Suc [of k 0 1 False xs] by simp
  ultimately show ?thesis using assms unfolding prefix_item_count_def by (simp only: item_count_loop_step) simp
qed

lemmas prefix_item_count_cases = prefix_item_count_before prefix_item_count_inside prefix_item_count_past

section \<open>The loop over the items of both sides\<close>

definition items_agree :: "vision_item list \<Rightarrow> vision_item list \<Rightarrow> nat \<Rightarrow> bool" where
  "items_agree xs ys k \<longleftrightarrow>
     (\<exists>m. prefix_item_count xs k = Some m \<and> prefix_item_count ys k = Some m \<and> (\<forall>i<m. same_item (xs ! i) (ys ! i)))"

fun zip_items :: "vision_item list \<Rightarrow> vision_item list \<Rightarrow> (vision_item option \<times> vision_item option) list" where
  "zip_items [] [] = []"
| "zip_items (x # xs) [] = (Some x, None) # zip_items xs []"
| "zip_items [] (y # ys) = (None, Some y) # zip_items [] ys"
| "zip_items (x # xs) (y # ys) = (Some x, Some y) # zip_items xs ys"

lemma zip_items_nth:
  "map (\<lambda>i. (nth_item xs i, nth_item ys i)) [0..<max (length xs) (length ys)] = zip_items xs ys"
proof (induction xs ys rule: zip_items.induct)
  case (2 x xs)
  have "map (\<lambda>i. (nth_item (x # xs) i, nth_item [] i)) [0..<Suc (length xs)]
      = (Some x, None) # map (\<lambda>i. (nth_item xs i, nth_item [] i)) [0..<length xs]"
    by (simp only: upt_conv_Cons zero_less_Suc list.map map_Suc_upt [symmetric] map_map) (simp add: nth_item_def)
  then show ?case using 2 by simp
next
  case (3 y ys)
  have "map (\<lambda>i. (nth_item [] i, nth_item (y # ys) i)) [0..<Suc (length ys)]
      = (None, Some y) # map (\<lambda>i. (nth_item [] i, nth_item ys i)) [0..<length ys]"
    by (simp only: upt_conv_Cons zero_less_Suc list.map map_Suc_upt [symmetric] map_map) (simp add: nth_item_def)
  then show ?case using 3 by simp
next
  case (4 x xs y ys)
  have "map (\<lambda>i. (nth_item (x # xs) i, nth_item (y # ys) i)) [0..<Suc (max (length xs) (length ys))]
      = (Some x, Some y) # map (\<lambda>i. (nth_item xs i, nth_item ys i)) [0..<max (length xs) (length ys)]"
    by (simp only: upt_conv_Cons zero_less_Suc list.map map_Suc_upt [symmetric] map_map) (simp add: nth_item_def)
  then show ?case using 4 by simp
qed (simp add: nth_item_def)

lemma items_agree_before:
  assumes "items_ordered p xs" "items_ordered q ys" "\<forall>x\<in>set xs. k \<le> item_begin x" "\<forall>y\<in>set ys. k \<le> item_begin y"
  shows "items_agree xs ys k"
proof -
  have "prefix_item_count zs k = Some 0" if "items_ordered r zs" "\<forall>z\<in>set zs. k \<le> item_begin z" for r zs
    using that prefix_item_count_before [of r] by (cases zs) (auto simp: prefix_item_count_def)
  then show ?thesis using assms unfolding items_agree_def by (intro exI [of _ 0]) auto
qed

lemma items_ordered_begin: "items_ordered p xs \<Longrightarrow> x \<in> set xs \<Longrightarrow> item_begin (hd xs) \<le> item_begin x \<and> p \<le> item_begin x"
proof (induction xs arbitrary: p)
  case (Cons z zs)
  then have z: "item_begin z < item_end z" "p \<le> item_begin z" "items_ordered (item_end z) zs"
    by (auto simp: item_wf_def)
  show ?case
  proof (cases "x = z")
    case False
    then have "item_end z \<le> item_begin x" using Cons.IH [OF z(3)] Cons.prems(2) by simp
    then show ?thesis using z by simp
  qed (use z in simp)
qed simp

lemma items_begin_le:
  assumes "items_ordered p (x # xs)" "k \<le> item_begin x"
  shows "\<forall>z\<in>set (x # xs). k \<le> item_begin z"
  using items_ordered_begin [OF assms(1)] assms(2) by (auto intro: le_trans)

lemma f64_eq_sym: "f64_eq a b = f64_eq b a"
  by (auto simp: f64_eq_def Let_def)

lemma same_item_sym: "same_item x y = same_item y x"
proof -
  have "list_all2 f64_eq xs ys = list_all2 f64_eq ys xs" for xs ys
    by (auto simp: list_all2_conv_all_nth f64_eq_sym)
  then show ?thesis by (auto simp: same_item_def same_grid_def same_spans_eq)
qed

lemma items_agree_sym: "items_agree xs ys k = items_agree ys xs k"
  by (auto simp: items_agree_def same_item_sym)

lemma items_agree_past:
  assumes "items_ordered p (x # xs)" "items_ordered q (y # ys)" "same_item x y" "item_end x \<le> k"
  shows "items_agree (x # xs) (y # ys) k \<longleftrightarrow> items_agree xs ys k"
proof -
  have y: "item_end y \<le> k" using assms(3,4) same_item_end by simp
  show ?thesis
  proof
    assume "items_agree (x # xs) (y # ys) k"
    then obtain m where m: "prefix_item_count xs k = Some m" "prefix_item_count ys k = Some m"
      "\<forall>i<Suc m. same_item ((x # xs) ! i) ((y # ys) ! i)"
      unfolding items_agree_def prefix_item_count_past [OF assms(1,4)] prefix_item_count_past [OF assms(2) y]
      by auto
    from m(3) have "\<forall>i<m. same_item (xs ! i) (ys ! i)" by (metis Suc_less_eq nth_Cons_Suc)
    then show "items_agree xs ys k" using m by (auto simp: items_agree_def)
  next
    assume "items_agree xs ys k"
    then obtain m where m: "prefix_item_count xs k = Some m" "prefix_item_count ys k = Some m"
      "\<forall>i<m. same_item (xs ! i) (ys ! i)" by (auto simp: items_agree_def)
    then show "items_agree (x # xs) (y # ys) k" using assms(3)
      unfolding items_agree_def prefix_item_count_past [OF assms(1,4)] prefix_item_count_past [OF assms(2) y]
      by (intro exI [of _ "Suc m"]) (auto simp: nth_Cons split: nat.splits)
  qed
qed

lemma items_agree_started:
  assumes "items_ordered p (x # xs)" "items_agree (x # xs) ys k" "item_begin x < k"
  shows "item_end x \<le> k" "\<exists>y ys'. ys = y # ys' \<and> same_item x y"
proof -
  obtain m where m: "prefix_item_count (x # xs) k = Some m" "prefix_item_count ys k = Some m"
    "\<forall>i<m. same_item ((x # xs) ! i) (ys ! i)" using assms(2) by (auto simp: items_agree_def)
  show e: "item_end x \<le> k" using m(1) prefix_item_count_inside [OF assms(1,3)] by fastforce
  then have "0 < m" using m(1) prefix_item_count_past [OF assms(1) e] by auto
  moreover have "m \<le> length ys" using prefix_item_count_split(1) [OF m(2)] .
  ultimately show "\<exists>y ys'. ys = y # ys' \<and> same_item x y" using m(3) by (cases ys) fastforce+
qed

text \<open>The loop stops at the largest frontier on which the items of both sides agree.\<close>

lemma item_loop_agree:
  "items_ordered p xs \<Longrightarrow> items_ordered p ys \<Longrightarrow> p \<le> c \<Longrightarrow>
   item_loop c (zip_items xs ys) \<le> c \<and> p \<le> item_loop c (zip_items xs ys) \<and>
   items_agree xs ys (item_loop c (zip_items xs ys)) \<and>
   (\<forall>k. item_loop c (zip_items xs ys) < k \<longrightarrow> k \<le> c \<longrightarrow> \<not> items_agree xs ys k)"
proof (induction xs ys arbitrary: p rule: zip_items.induct)
  case 1
  then show ?case by (simp add: items_agree_def prefix_item_count_def)
next
  case (2 x xs)
  let ?k = "item_loop c (zip_items (x # xs) [])"
  have k: "?k = min (item_begin x) c" by (simp add: Let_def item_begin_def)
  have "\<forall>z\<in>set (x # xs). ?k \<le> item_begin z"
    unfolding k by (rule items_begin_le [OF 2(2) min.cobounded1])
  then have "items_agree (x # xs) [] ?k" using 2 by (intro items_agree_before [of p _ 0]) auto
  moreover have "\<not> items_agree (x # xs) [] k'" if "?k < k'" "k' \<le> c" for k'
    using that items_agree_started(2) [OF 2(2), of "[]" k'] unfolding k by (auto simp: min_def split: if_splits)
  ultimately show ?case using 2 unfolding k by auto
next
  case (3 y ys)
  let ?k = "item_loop c (zip_items [] (y # ys))"
  have k: "?k = min (item_begin y) c" by (simp add: Let_def item_begin_def)
  have "\<forall>z\<in>set (y # ys). ?k \<le> item_begin z"
    unfolding k by (rule items_begin_le [OF 3(3) min.cobounded1])
  then have "items_agree [] (y # ys) ?k" using 3 by (intro items_agree_before [of 0 _ p]) auto
  moreover have "\<not> items_agree [] (y # ys) k'" if "?k < k'" "k' \<le> c" for k'
    using that items_agree_started(2) [OF 3(3), of "[]" k'] unfolding k items_agree_sym [of "[]"]
    by (auto simp: min_def split: if_splits)
  ultimately show ?case using 3 unfolding k by auto
next
  case (4 x xs y ys)
  let ?f = "min (item_begin x) (item_begin y)"
  let ?k = "item_loop c (zip_items (x # xs) (y # ys))"
  have before: "items_agree (x # xs) (y # ys) k" if "k \<le> ?f" for k
    by (rule items_agree_before [OF 4(2,3) items_begin_le [OF 4(2)] items_begin_le [OF 4(3)]]) (use that in simp_all)
  consider "?f \<ge> c" | "?f < c" "\<not> same_item x y \<or> item_end x > c \<or> item_end y > c"
    | "?f < c" "same_item x y" "item_end x \<le> c" "item_end y \<le> c" by linarith
  then show ?case
  proof cases
    case 1
    then have "?k = c" by (simp add: Let_def item_begin_def)
    then show ?thesis using 1 4(4) before [of c] by simp
  next
    case 2
    have "\<not> ?f \<ge> c" using 2(1) by (simp only: not_le)
    then have k: "?k = ?f" using 2(2) by (auto simp: Let_def item_begin_def)
    have "\<not> items_agree (x # xs) (y # ys) k'" if "?f < k'" "k' \<le> c" for k'
    proof
      assume a: "items_agree (x # xs) (y # ys) k'"
      have "same_item x y \<and> item_end x \<le> k' \<and> item_end y \<le> k'"
      proof (cases "item_begin x < k'")
        case True
        from items_agree_started [OF 4(2) a True] show ?thesis using same_item_end [of x y] by auto
      next
        case False
        then have "item_begin y < k'" using that(1) by (simp add: min_less_iff_disj)
        from items_agree_started [OF 4(3) a [unfolded items_agree_sym [of "x # xs"]] this] show ?thesis
          using same_item_end [of y x] same_item_sym [of x y] by auto
      qed
      then show False using 2 that(2) by auto
    qed
    moreover have "?f \<le> c" "p \<le> ?f" using 2(1) 4(2,3) by auto
    ultimately show ?thesis using before [of ?f] unfolding k by blast
  next
    case 3
    have "\<not> ?f \<ge> c" using 3(1) by (simp only: not_le)
    then have k: "?k = item_loop c (zip_items xs ys)" using 3(2-4) by (auto simp: Let_def item_begin_def)
    have o: "items_ordered (item_end x) xs" "items_ordered (item_end x) ys"
      using 4(2,3) 3 same_item_end [of x y] by auto
    note IH = 4(1) [OF o 3(3)]
    have "p \<le> item_end x" using 4(2) by (auto simp: item_wf_def)
    moreover have "items_agree (x # xs) (y # ys) k' = items_agree xs ys k'" if "item_end x \<le> k'" for k'
      by (rule items_agree_past [OF 4(2,3) 3(2) that])
    ultimately show ?thesis using IH unfolding k by auto
  qed
qed

section \<open>The element loop\<close>

declare match_loop.simps [simp del]

lemma match_loop_spec:
  "i \<le> n \<Longrightarrow> match_loop P n i \<le> n \<and> i \<le> match_loop P n i \<and>
     (\<forall>j. i \<le> j \<longrightarrow> j < match_loop P n i \<longrightarrow> P j) \<and> (match_loop P n i < n \<longrightarrow> \<not> P (match_loop P n i))"
proof (induction P n i rule: match_loop.induct)
  case (1 P n i)
  show ?case
  proof (cases "i < n \<and> P i")
    case True
    then have r: "match_loop P n i = match_loop P n (Suc i)" using match_loop.simps [of P n i] by simp
    have "P j" if "i \<le> j" "j < match_loop P n i" for j
      using 1 True that by (cases "j = i") (auto simp: r)
    then show ?thesis using 1 True by (simp only: r) auto
  next
    case False
    then have "match_loop P n i = i" using match_loop.simps [of P n i] by (auto split: if_splits)
    then show ?thesis using 1(2) False by auto
  qed
qed

definition entries_agree :: "u32 list \<Rightarrow> resident_identity \<Rightarrow> u32 list \<Rightarrow> resident_identity \<Rightarrow> nat \<Rightarrow> bool" where
  "entries_agree lt l rt r k \<longleftrightarrow>
     k \<le> length lt \<and> k \<le> length rt \<and> k \<le> identity_size l \<and> k \<le> identity_size r \<and>
     take k lt = take k rt \<and> take k (ri_token_types l) = take k (ri_token_types r) \<and>
     take k (ri_axis0 l) = take k (ri_axis0 r) \<and> take k (ri_axis1 l) = take k (ri_axis1 r) \<and>
     take k (ri_axis2 l) = take k (ri_axis2 r)"

lemma entries_agree_iff:
  assumes "identity_wf l" "identity_wf r"
  shows "entries_agree lt l rt r k \<longleftrightarrow>
    k \<le> length lt \<and> k \<le> length rt \<and> k \<le> identity_size l \<and> k \<le> identity_size r \<and>
    (\<forall>i<k. lt ! i = rt ! i \<and> ri_token_types l ! i = ri_token_types r ! i \<and> ri_axis0 l ! i = ri_axis0 r ! i \<and>
       ri_axis1 l ! i = ri_axis1 r ! i \<and> ri_axis2 l ! i = ri_axis2 r ! i)"
  using assms unfolding entries_agree_def identity_wf_def identity_size_def
  by (auto simp: list_eq_iff_nth_eq)

text \<open>Two residents agree on a frontier when their entries and the items that end before it do.\<close>

definition residents_agree :: "u32 list \<Rightarrow> resident_identity \<Rightarrow> u32 list \<Rightarrow> resident_identity \<Rightarrow> nat \<Rightarrow> bool" where
  "residents_agree lt l rt r k \<longleftrightarrow>
     entries_agree lt l rt r k \<and> items_agree (ri_vision_items l) (ri_vision_items r) k"

lemma nth_of_take: "take k xs = take k ys \<Longrightarrow> i < k \<Longrightarrow> xs ! i = ys ! i"
  by (metis nth_take)

section \<open>Properties\<close>

text \<open>
  C15: The longest matching prefix of two residents whose vision items lie in order, as the vision
  control enforces for every prompt, is the largest frontier, up to the limit, on which
  their tokens, types, positions and completed vision items agree and which divides no item of
  either side.
\<close>

theorem longest_matching_prefix_greatest:
  assumes wf: "identity_wf l" "identity_wf r"
    and ord: "items_ordered 0 (ri_vision_items l)" "items_ordered 0 (ri_vision_items r)"
  shows "let k = longest_matching_prefix lt l rt r limit in
    k \<le> limit \<and> residents_agree lt l rt r k \<and>
    (\<forall>j. j \<le> limit \<longrightarrow> residents_agree lt l rt r j \<longrightarrow> j \<le> k)"
proof -
  define P where "P i \<longleftrightarrow> lt ! i = rt ! i \<and> ri_token_types l ! i = ri_token_types r ! i \<and>
    ri_axis0 l ! i = ri_axis0 r ! i \<and> ri_axis1 l ! i = ri_axis1 r ! i \<and> ri_axis2 l ! i = ri_axis2 r ! i" for i
  define n where "n = Min {limit, length lt, length rt, identity_size l, identity_size r}"
  define c where "c = match_loop P n 0"
  let ?k = "item_loop c (zip_items (ri_vision_items l) (ri_vision_items r))"
  have k: "longest_matching_prefix lt l rt r limit = ?k"
    unfolding longest_matching_prefix_def Let_def zip_items_nth c_def n_def P_def ..
  have n: "j \<le> n \<longleftrightarrow> j \<le> limit \<and> j \<le> length lt \<and> j \<le> length rt \<and> j \<le> identity_size l \<and> j \<le> identity_size r" for j
    by (simp add: n_def)
  note m = match_loop_spec [of 0 n P, folded c_def, simplified]
  have entries: "entries_agree lt l rt r j \<and> j \<le> limit \<longleftrightarrow> j \<le> c" for j
  proof
    assume a: "entries_agree lt l rt r j \<and> j \<le> limit"
    then have "j \<le> n" "\<forall>i<j. P i" unfolding n entries_agree_iff [OF wf] P_def by auto
    then show "j \<le> c" using m by (metis linorder_not_le order_less_le_trans)
  next
    assume "j \<le> c"
    then have "j \<le> n" "\<forall>i<j. P i" using m by auto
    then show "entries_agree lt l rt r j \<and> j \<le> limit" unfolding n entries_agree_iff [OF wf] P_def by blast
  qed
  note i = item_loop_agree [OF ord, of c, simplified]
  have "?k \<le> limit \<and> residents_agree lt l rt r ?k" using i entries [of ?k] by (simp add: residents_agree_def)
  moreover have "j \<le> ?k" if "j \<le> limit" "residents_agree lt l rt r j" for j
    using i entries [of j] that by (auto simp: residents_agree_def not_less [symmetric])
  ultimately show ?thesis unfolding k Let_def by blast
qed

definition demo_item :: "u8 \<Rightarrow> vision_item" where
  "demo_item d = \<lparr> vi_modality = 1, vi_grid = \<lparr> vg_temporal = 1, vg_height = 2, vg_width = 2 \<rparr>,
     vi_patch_begin = 0, vi_patch_count = 4, vi_content_digest = replicate 32 d, vi_timestamps = [],
     vi_token_spans = [\<lparr> ts_begin = 1, ts_count = 2 \<rparr>] \<rparr>"

definition demo_resident :: "u8 \<Rightarrow> resident_identity" where
  "demo_resident d = \<lparr> ri_token_types = [0, 1, 1, 0], ri_axis0 = [0, 1, 1, 2], ri_axis1 = [0, 1, 1, 2],
     ri_axis2 = [0, 1, 2, 2], ri_vision_items = [demo_item d] \<rparr>"

theorem longest_matching_prefix_greatest_witness:
  "longest_matching_prefix [1, 2, 3, 4] (demo_resident 7) [1, 2, 3, 4] (demo_resident 8) 4 = 1 \<and>
   residents_agree [1, 2, 3, 4] (demo_resident 7) [1, 2, 3, 4] (demo_resident 8) 1 \<and>
   \<not> residents_agree [1, 2, 3, 4] (demo_resident 7) [1, 2, 3, 4] (demo_resident 8) 2 \<and>
   \<not> residents_agree [1, 2, 3, 4] (demo_resident 7) [1, 2, 3, 4] (demo_resident 8) 4"
proof -
  have wf: "identity_wf (demo_resident d)" for d by (simp add: identity_wf_def identity_size_def demo_resident_def)
  have ord: "items_ordered 0 (ri_vision_items (demo_resident d))" for d
    by (simp add: demo_resident_def demo_item_def item_wf_def item_begin_def item_end_def)
  have "longest_matching_prefix [1, 2, 3, 4] (demo_resident 7) [1, 2, 3, 4] (demo_resident 8) 4 = 1"
    by (simp add: longest_matching_prefix_def identity_size_def demo_resident_def demo_item_def match_loop.simps
        same_item_def nth_item_def Let_def)
  then have "residents_agree [1, 2, 3, 4] (demo_resident 7) [1, 2, 3, 4] (demo_resident 8) 1 \<and>
      (\<forall>j. j \<le> 4 \<longrightarrow> residents_agree [1, 2, 3, 4] (demo_resident 7) [1, 2, 3, 4] (demo_resident 8) j \<longrightarrow> j \<le> 1)"
    using longest_matching_prefix_greatest [OF wf [of 7] wf [of 8] ord ord,
        where lt = "[1, 2, 3, 4]" and rt = "[1, 2, 3, 4]" and limit = 4] by (simp add: Let_def)
  moreover have "\<not> (4::nat) \<le> 1" "\<not> (2::nat) \<le> 1" "(2::nat) \<le> 4" "(4::nat) \<le> 4" by simp_all
  ultimately show ?thesis using \<open>longest_matching_prefix [1, 2, 3, 4] (demo_resident 7) [1, 2, 3, 4] (demo_resident 8) 4 = 1\<close> by blast
qed

text \<open>
  C30: A prompt that matches a resident prefix hashes to the same value. Whenever the comparison
  accepts \<open>k\<close> tokens, the prompt has a hash chain and its entry \<open>k\<close> is the resident hash of \<open>k\<close>
  tokens, so an index keyed by these hashes finds every reusable prefix. Timestamps are compared as
  numbers and hashed as bits; the two agree on everything but a negative zero.
\<close>

theorem matching_prefix_same_hash:
  assumes match: "prefix_matches prompt tokens ident k"
    and plain: "\<forall>item\<in>set (pp_vision_items prompt) \<union> set (ri_vision_items ident). plain_timestamps item"
  shows "\<exists>chain. prefix_hash_chain prompt = Inr chain \<and> k < length chain \<and>
    prefix_hash_at tokens ident k = Inr (chain ! k)"
proof -
  let ?n = "length (pp_token_ids prompt)" and ?p = "pp_positions prompt"
  have len: "k \<le> ?n" "k \<le> length tokens" and tok: "take k (pp_token_ids prompt) = take k tokens"
    and idm: "identity_matches ident prompt k"
    using match by (auto simp: prefix_matches_def split: if_splits)
  have shape: "k \<le> identity_size ident" "length (pp_token_types prompt) = ?n" "length ?p = 3 * ?n"
    and eqs: "take k (pp_token_types prompt) = take k (ri_token_types ident)" "take k ?p = take k (ri_axis0 ident)"
      "take k (drop ?n ?p) = take k (ri_axis1 ident)" "take k (drop (2 * ?n) ?p) = take k (ri_axis2 ident)"
    using idm by (auto simp: identity_matches_def Let_def split: if_splits)
  obtain m where m: "prefix_item_count (pp_vision_items prompt) k = Some m"
    "prefix_item_count (ri_vision_items ident) k = Some m"
    "\<forall>i<m. same_item (pp_vision_items prompt ! i) (ri_vision_items ident ! i)"
    using idm by (auto simp: identity_matches_def Let_def list_all_iff split: if_splits option.splits)
  note sp = prefix_item_count_split [OF m(1)] and sr = prefix_item_count_split [OF m(2)]
  have items: "take m (pp_vision_items prompt) = take m (ri_vision_items ident)"
    using sp(1) sr(1) m(3) plain by (auto simp: list_eq_iff_nth_eq intro!: same_item_eq)
  have nths: "\<forall>i<k. pp_token_ids prompt ! i = tokens ! i \<and> pp_token_types prompt ! i = ri_token_types ident ! i \<and>
      ?p ! i = ri_axis0 ident ! i \<and> drop ?n ?p ! i = ri_axis1 ident ! i \<and> drop (2 * ?n) ?p ! i = ri_axis2 ident ! i"
    using nth_of_take [OF tok] nth_of_take [OF eqs(1)] nth_of_take [OF eqs(2)] nth_of_take [OF eqs(3)]
      nth_of_take [OF eqs(4)] by blast
  have "hi_items (prompt_inputs prompt) = take m (pp_vision_items prompt) @ drop m (pp_vision_items prompt)"
    by (simp add: prompt_inputs_def Let_def)
  moreover have "hi_items (resident_inputs tokens ident) = take m (pp_vision_items prompt) @ drop m (ri_vision_items ident)"
    unfolding items by (simp add: resident_inputs_def)
  ultimately have "inputs_agree k (prompt_inputs prompt) (resident_inputs tokens ident)"
    using nths sp(3) sr(3) unfolding inputs_agree_def
    by (intro conjI exI [of _ "take m (pp_vision_items prompt)"] exI [of _ "drop m (pp_vision_items prompt)"]
        exI [of _ "drop m (ri_vision_items ident)"]) (auto simp: prompt_inputs_def resident_inputs_def Let_def)
  then have h: "hash_upto (prompt_inputs prompt) k = hash_upto (resident_inputs tokens ident) k"
    by (rule hash_upto_agree) simp
  have "prefix_hash_at tokens ident k = Inr (hash_upto (resident_inputs tokens ident) k)"
    using len shape by (simp add: prefix_hash_at_eq)
  then show ?thesis using shape hash_chain_nth [OF len(1), of "prompt_inputs prompt"] len(1)
    by (simp add: prefix_hash_chain_def h)
qed

theorem matching_prefix_same_hash_witness:
  "\<exists>chain. prefix_hash_chain demo_prompt = Inr chain \<and> prefix_hash_at [5, 6, 7] demo_identity 2 = Inr (chain ! 2)"
proof -
  have "prefix_matches demo_prompt [5, 6, 7] demo_identity 2"
    by (simp add: prefix_matches_def identity_matches_def identity_size_def demo_prompt_def demo_identity_def
        prefix_item_count_def Let_def eval_nat_numeral)
  from matching_prefix_same_hash [OF this] show ?thesis by (auto simp: demo_prompt_def demo_identity_def)
qed

end
