(* ===== verification/Byte_Codec.thy ===== *)
theory Byte_Codec
  imports Prelude
begin

text \<open>
  Byte strings of the serialized formats: little-endian scalars, repeated reads, and the contract of
  a reader that inverts a printer. The prefix identity and the disk tier are instances.
\<close>

section \<open>Little-endian integers\<close>

primrec le_bytes :: "nat \<Rightarrow> nat \<Rightarrow> u8 list" where
  "le_bytes 0 v = []"
| "le_bytes (Suc n) v = of_nat (v mod 256) # le_bytes n (v div 256)"

fun le_value :: "u8 list \<Rightarrow> nat" where
  "le_value [] = 0"
| "le_value (b # bs) = unat b + 256 * le_value bs"

fun read_many :: "(u8 list \<Rightarrow> ('a \<times> u8 list) result) \<Rightarrow> nat \<Rightarrow> u8 list \<Rightarrow> ('a list \<times> u8 list) result" where
  "read_many rd 0 r = Inr ([], r)"
| "read_many rd (Suc n) r =
     bind_result (rd r) (\<lambda>(x, r). bind_result (read_many rd n r) (\<lambda>(xs, r). Inr (x # xs, r)))"

definition enc_u32 :: "u32 \<Rightarrow> u8 list" where "enc_u32 v = le_bytes 4 (unat v)"
definition enc_u64 :: "u64 \<Rightarrow> u8 list" where "enc_u64 v = le_bytes 8 (unat v)"

text \<open>A reader that does not look past what it consumes: more input only adds to the rest.\<close>

definition extends :: "(u8 list \<Rightarrow> ('a \<times> u8 list) result) \<Rightarrow> bool" where
  "extends dec \<longleftrightarrow> (\<forall>bs x r s. dec bs = Inr (x, r) \<longrightarrow> dec (bs @ s) = Inr (x, r @ s))"

named_theorems reader_extends \<open>readers that are stable under more input\<close>

section \<open>Codecs\<close>

text \<open>
  A reader that inverts a printer: it returns exactly the printed value, and it accepts nothing but
  printed values. Repetition keeps the contract.
\<close>

locale codec =
  fixes enc :: "'a \<Rightarrow> u8 list" and dec :: "u8 list \<Rightarrow> ('a \<times> u8 list) result" and ok :: "'a \<Rightarrow> bool"
  assumes dec_enc: "ok x \<Longrightarrow> dec (enc x @ rest) = Inr (x, rest)"
    and enc_dec: "dec bs = Inr (x, rest) \<Longrightarrow> ok x \<and> bs = enc x @ rest"
begin

lemma read_many_enc:
  "\<forall>x\<in>set xs. ok x \<Longrightarrow> read_many dec (length xs) (concat (map enc xs) @ rest) = Inr (xs, rest)"
  by (induction xs) (simp_all add: dec_enc)

lemma enc_read_many:
  "read_many dec n bs = Inr (xs, rest) \<Longrightarrow>
   length xs = n \<and> (\<forall>x\<in>set xs. ok x) \<and> bs = concat (map enc xs) @ rest"
proof (induction n arbitrary: bs xs)
  case (Suc n)
  then obtain x r ys where x: "dec bs = Inr (x, r)" "read_many dec n r = Inr (ys, rest)" "xs = x # ys"
    by (auto simp: bind_result_eq_Inr)
  show ?case using enc_dec [OF x(1)] Suc.IH [OF x(2)] x(3) by simp
qed simp

lemma read_many_iff:
  "read_many dec n bs = Inr (xs, rest) \<longleftrightarrow>
   length xs = n \<and> (\<forall>x\<in>set xs. ok x) \<and> bs = concat (map enc xs) @ rest"
  using enc_read_many read_many_enc by blast

lemma dec_iff: "dec bs = Inr (x, rest) \<longleftrightarrow> ok x \<and> bs = enc x @ rest"
  using dec_enc enc_dec by blast

lemma extends_dec: "extends dec"
  unfolding extends_def using enc_dec dec_enc append_assoc by metis

end

lemma extends_return [reader_extends]: "extends (\<lambda>r. Inr (x, r))"
  by (simp add: extends_def)

lemma extends_fail [reader_extends]: "extends (\<lambda>r. Inl e)"
  by (simp add: extends_def)

lemma extends_if [reader_extends]: "extends f \<Longrightarrow> extends g \<Longrightarrow> extends (\<lambda>r. if c then f r else g r)"
  by (simp add: extends_def)

lemma extends_short [reader_extends]: "extends f \<Longrightarrow> extends (\<lambda>r. if c \<or> length r < n then Inl e else f r)"
  by (auto simp: extends_def)

lemma extends_few [reader_extends]: "extends f \<Longrightarrow> extends (\<lambda>r. if c \<or> length r div k < n then Inl e else f r)"
  unfolding extends_def
proof (intro allI impI)
  fix bs x r s
  assume f: "\<forall>bs x r s. f bs = Inr (x, r) \<longrightarrow> f (bs @ s) = Inr (x, r @ s)"
    and a: "(if c \<or> length bs div k < n then Inl e else f bs) = Inr (x, r)"
  have "length bs div k \<le> length (bs @ s) div k" by (simp add: div_le_mono)
  then show "(if c \<or> length (bs @ s) div k < n then Inl e else f (bs @ s)) = Inr (x, r @ s)"
    using f a by (auto split: if_splits)
qed

lemma extends_bind [reader_extends]:
  assumes "extends m" "\<And>x. extends (f x)"
  shows "extends (\<lambda>r. bind_result (m r) (\<lambda>(x, r). f x r))"
  unfolding extends_def
proof (intro allI impI)
  fix bs x r s
  assume "bind_result (m bs) (\<lambda>(x, r). f x r) = Inr (x, r)"
  then obtain y q where y: "m bs = Inr (y, q)" "f y q = Inr (x, r)" by (auto simp: bind_result_eq_Inr)
  have "m (bs @ s) = Inr (y, q @ s)" using assms(1) y(1) by (simp add: extends_def)
  moreover have "f y (q @ s) = Inr (x, r @ s)" using assms(2) [of y] y(2) by (simp add: extends_def)
  ultimately show "bind_result (m (bs @ s)) (\<lambda>(x, r). f x r) = Inr (x, r @ s)" by simp
qed

lemma extends_many [reader_extends]: "extends dec \<Longrightarrow> extends (read_many dec n)"
proof (induction n)
  case 0
  show ?case by (simp add: extends_def)
next
  case (Suc n)
  have "extends (\<lambda>r. bind_result (dec r) (\<lambda>(x, r). bind_result (read_many dec n r) (\<lambda>(xs, r). Inr (x # xs, r))))"
    using Suc by (intro reader_extends)
  then show ?case by (simp add: extends_def)
qed

text \<open>A text that a stable reader consumes whole has no readable strict prefix.\<close>

lemma extends_truncated:
  assumes "extends dec" "dec bs = Inr (x, [])" "k < length bs"
  shows "\<not> succeeds (dec (take k bs))"
proof
  assume "succeeds (dec (take k bs))"
  then obtain y r where "dec (take k bs) = Inr (y, r)" by (auto simp: succeeds_iff)
  then have "dec (take k bs @ drop k bs) = Inr (y, r @ drop k bs)" using assms(1) unfolding extends_def by blast
  then show False using assms(2,3) by simp
qed

lemma le_bytes_length [simp]: "length (le_bytes n v) = n"
  by (induction n arbitrary: v) simp_all

lemma le_value_bound: "le_value bs < 256 ^ length bs"
proof (induction bs)
  case (Cons b bs)
  have "unat b < 256" using unat_word_bound [of b] by simp
  with Cons show ?case by simp
qed simp

lemma le_value_bytes: "v < 256 ^ n \<Longrightarrow> le_value (le_bytes n v) = v"
proof (induction n arbitrary: v)
  case (Suc n)
  have "v div 256 < 256 ^ n" using Suc.prems by (simp add: less_mult_imp_div_less mult.commute)
  moreover have "unat (of_nat (v mod 256) :: u8) = v mod 256" by (simp add: unat_of_nat take_bit_nat_eq_self)
  ultimately show ?case using Suc.IH by simp
qed simp

lemma le_bytes_value: "le_bytes (length bs) (le_value bs) = bs"
proof (induction bs)
  case (Cons b bs)
  have b: "unat b < 256" using unat_word_bound [of b] by simp
  have "(unat b + 256 * le_value bs) mod 256 = unat b" "(unat b + 256 * le_value bs) div 256 = le_value bs"
    using b by simp_all
  then show ?case using Cons by simp
qed simp

lemma enc_u32_length [simp]: "length (enc_u32 v) = 4" by (simp add: enc_u32_def)
lemma enc_u64_length [simp]: "length (enc_u64 v) = 8" by (simp add: enc_u64_def)

end
