(* ===== verification/Prefix_Codec.thy ===== *)
theory Prefix_Codec
  imports Prefix_Hash Byte_Codec
begin

text \<open>
  The serialized form of a resident prefix identity (\<^verbatim>\<open>pack\<close> and \<^verbatim>\<open>unpack\<close> of
  \<^verbatim>\<open>prefix_identity.cpp\<close>), which the RAM and disk tiers store beside the KV image. Every scalar is
  copied from or to a little-endian host. The theory shows that the writer fills its buffer
  exactly and that unpacking is the inverse of packing, in both directions.
\<close>

section \<open>The writer\<close>

text \<open>The bytes written so far and the room left before \<^verbatim>\<open>end\<close>.\<close>

record writer =
  w_out :: "u8 list"
  w_left :: nat

definition write_bytes :: "u8 list \<Rightarrow> writer \<Rightarrow> writer result" where
  "write_bytes bs w =
     (if length bs > w_left w then Inl Logic_error
      else Inr \<lparr> w_out = w_out w @ bs, w_left = w_left w - length bs \<rparr>)"

definition write_u8 :: "u8 \<Rightarrow> writer \<Rightarrow> writer result" where
  "write_u8 v = write_bytes [v]"

definition write_u32 :: "u32 \<Rightarrow> writer \<Rightarrow> writer result" where
  "write_u32 v = write_bytes (le_bytes 4 (unat v))"

definition write_u64 :: "u64 \<Rightarrow> writer \<Rightarrow> writer result" where
  "write_u64 v = write_bytes (le_bytes 8 (unat v))"

definition u32_array :: "u32 list \<Rightarrow> u8 list" where
  "u32_array vs = concat (map (\<lambda>v. le_bytes 4 (unat v)) vs)"

definition u64_array :: "u64 list \<Rightarrow> u8 list" where
  "u64_array vs = concat (map (\<lambda>v. le_bytes 8 (unat v)) vs)"

fun write_spans :: "token_span list \<Rightarrow> writer \<Rightarrow> writer result" where
  "write_spans [] w = Inr w"
| "write_spans (sp # spans) w =
     bind_result (write_u64 (ts_begin sp) w) (\<lambda>w. bind_result (write_u64 (ts_count sp) w) (write_spans spans))"

definition write_item :: "vision_item \<Rightarrow> writer \<Rightarrow> writer result" where
  "write_item item w =
     bind_result (write_u8 (vi_modality item) w) (\<lambda>w.
     bind_result (write_u32 (vg_temporal (vi_grid item)) w) (\<lambda>w.
     bind_result (write_u32 (vg_height (vi_grid item)) w) (\<lambda>w.
     bind_result (write_u32 (vg_width (vi_grid item)) w) (\<lambda>w.
     bind_result (write_u64 (vi_patch_begin item) w) (\<lambda>w.
     bind_result (write_u64 (vi_patch_count item) w) (\<lambda>w.
     bind_result (write_bytes (vi_content_digest item) w) (\<lambda>w.
     bind_result (write_u32 (of_nat (length (vi_timestamps item))) w) (\<lambda>w.
     bind_result (write_bytes (u64_array (vi_timestamps item)) w) (\<lambda>w.
     bind_result (write_u32 (of_nat (length (vi_token_spans item))) w) (write_spans (vi_token_spans item)))))))))))"

fun write_items :: "vision_item list \<Rightarrow> writer \<Rightarrow> writer result" where
  "write_items [] w = Inr w"
| "write_items (item # items) w = bind_result (write_item item w) (write_items items)"

definition packed_item_bytes :: "vision_item \<Rightarrow> nat" where
  "packed_item_bytes item =
     1 + 12 + 16 + 32 + 4 + length (vi_timestamps item) * 8 + 4 + length (vi_token_spans item) * 16"

definition packed_bytes :: "resident_identity \<Rightarrow> nat" where
  "packed_bytes ident =
     8 + length (ri_token_types ident) + 3 * length (ri_token_types ident) * 4 +
     sum_list (map packed_item_bytes (ri_vision_items ident))"

definition identity_pack :: "resident_identity \<Rightarrow> u64 \<Rightarrow> u8 list result" where
  "identity_pack ident dst =
     (if dst = 0 then Inl Invalid_argument
      else
        bind_result (write_u32 (of_nat (length (ri_token_types ident))) \<lparr> w_out = [], w_left = packed_bytes ident \<rparr>) (\<lambda>w.
        bind_result (write_u32 (of_nat (length (ri_vision_items ident))) w) (\<lambda>w.
        bind_result (write_bytes (ri_token_types ident) w) (\<lambda>w.
        bind_result (write_bytes (u32_array (ri_axis0 ident)) w) (\<lambda>w.
        bind_result (write_bytes (u32_array (ri_axis1 ident)) w) (\<lambda>w.
        bind_result (write_bytes (u32_array (ri_axis2 ident)) w) (\<lambda>w.
        bind_result (write_items (ri_vision_items ident) w) (\<lambda>w.
          if w_left w \<noteq> 0 then Inl Logic_error else Inr (w_out w)))))))))"

section \<open>The reader\<close>

text \<open>The unread bytes; a read returns the value and the rest.\<close>

definition read_bytes :: "nat \<Rightarrow> u8 list \<Rightarrow> (u8 list \<times> u8 list) result" where
  "read_bytes n r = (if n > length r then Inl Logic_error else Inr (take n r, drop n r))"

definition read_u8 :: "u8 list \<Rightarrow> (u8 \<times> u8 list) result" where
  "read_u8 r = bind_result (read_bytes 1 r) (\<lambda>(bs, r). Inr (of_nat (le_value bs), r))"

definition read_u32 :: "u8 list \<Rightarrow> (u32 \<times> u8 list) result" where
  "read_u32 r = bind_result (read_bytes 4 r) (\<lambda>(bs, r). Inr (of_nat (le_value bs), r))"

definition read_u64 :: "u8 list \<Rightarrow> (u64 \<times> u8 list) result" where
  "read_u64 r = bind_result (read_bytes 8 r) (\<lambda>(bs, r). Inr (of_nat (le_value bs), r))"

fun chunks :: "nat \<Rightarrow> nat \<Rightarrow> u8 list \<Rightarrow> nat list" where
  "chunks width 0 bs = []"
| "chunks width (Suc n) bs = le_value (take width bs) # chunks width n (drop width bs)"

text \<open>Copies into a vector of \<open>n\<close> scalars.\<close>

definition read_u32_array :: "nat \<Rightarrow> u8 list \<Rightarrow> (u32 list \<times> u8 list) result" where
  "read_u32_array n r = bind_result (read_bytes (n * 4) r) (\<lambda>(bs, r). Inr (map of_nat (chunks 4 n bs), r))"

definition read_u64_array :: "nat \<Rightarrow> u8 list \<Rightarrow> (u64 list \<times> u8 list) result" where
  "read_u64_array n r = bind_result (read_bytes (n * 8) r) (\<lambda>(bs, r). Inr (map of_nat (chunks 8 n bs), r))"

definition read_span :: "u8 list \<Rightarrow> (token_span \<times> u8 list) result" where
  "read_span r =
     bind_result (read_u64 r) (\<lambda>(b, r). bind_result (read_u64 r) (\<lambda>(c, r).
       Inr (\<lparr> ts_begin = b, ts_count = c \<rparr>, r)))"

definition read_item :: "u8 list \<Rightarrow> (vision_item \<times> u8 list) result" where
  "read_item r =
     bind_result (read_u8 r) (\<lambda>(modality, r).
     bind_result (read_u32 r) (\<lambda>(temporal, r).
     bind_result (read_u32 r) (\<lambda>(height, r).
     bind_result (read_u32 r) (\<lambda>(width, r).
     bind_result (read_u64 r) (\<lambda>(patch_begin, r).
     bind_result (read_u64 r) (\<lambda>(patch_count, r).
     bind_result (read_bytes 32 r) (\<lambda>(digest, r).
     bind_result (read_u32 r) (\<lambda>(timestamp_count, r).
     if timestamp_count \<noteq> 0 \<and> length r div 8 < unat timestamp_count then Inl Logic_error
     else
     bind_result (read_u64_array (unat timestamp_count) r) (\<lambda>(timestamps, r).
     bind_result (read_u32 r) (\<lambda>(span_count, r).
     if span_count \<noteq> 0 \<and> length r div 16 < unat span_count then Inl Logic_error
     else
     bind_result (read_many read_span (unat span_count) r) (\<lambda>(spans, r).
       Inr (\<lparr> vi_modality = modality,
              vi_grid = \<lparr> vg_temporal = temporal, vg_height = height, vg_width = width \<rparr>,
              vi_patch_begin = patch_begin, vi_patch_count = patch_count, vi_content_digest = digest,
              vi_timestamps = timestamps, vi_token_spans = spans \<rparr>, r))))))))))))"

definition token_need :: "u32 \<Rightarrow> u64" where
  "token_need token_count = ucast token_count + 3 * ucast token_count * 4"

definition identity_unpack :: "u64 \<Rightarrow> u8 list \<Rightarrow> resident_identity result" where
  "identity_unpack src bytes =
     (if src = 0 \<and> bytes \<noteq> [] then Inl Invalid_argument
      else
        bind_result (read_u32 bytes) (\<lambda>(token_count, r).
        bind_result (read_u32 r) (\<lambda>(item_count, r).
        if (token_count \<noteq> 0 \<and> token_need token_count div ucast token_count \<noteq> 13) \<or>
           length r < unat (token_need token_count)
        then Inl Logic_error
        else
        bind_result (read_bytes (unat token_count) r) (\<lambda>(types, r).
        bind_result (read_u32_array (unat token_count) r) (\<lambda>(axis0, r).
        bind_result (read_u32_array (unat token_count) r) (\<lambda>(axis1, r).
        bind_result (read_u32_array (unat token_count) r) (\<lambda>(axis2, r).
        if item_count \<noteq> 0 \<and> length r div 69 < unat item_count then Inl Logic_error
        else
        bind_result (read_many read_item (unat item_count) r) (\<lambda>(items, r).
          if r \<noteq> [] then Inl Logic_error
          else Inr \<lparr> ri_token_types = types, ri_axis0 = axis0, ri_axis1 = axis1, ri_axis2 = axis2,
                     ri_vision_items = items \<rparr>))))))))"

section \<open>What the reader accepts\<close>

lemma read_bytes_iff: "read_bytes n bs = Inr (xs, rest) \<longleftrightarrow> length xs = n \<and> bs = xs @ rest"
  by (auto simp: read_bytes_def split: if_splits)

text \<open>A scalar of \<open>n\<close> bytes as a codec, at each width the format uses.\<close>

lemma scalar_iff:
  assumes "2 ^ LENGTH('a) = (256 :: nat) ^ n"
  shows "bind_result (read_bytes n bs) (\<lambda>(cs, r). Inr (of_nat (le_value cs) :: 'a :: len word, r)) = Inr (v, rest)
    \<longleftrightarrow> bs = le_bytes n (unat v) @ rest"
proof
  assume "bind_result (read_bytes n bs) (\<lambda>(cs, r). Inr (of_nat (le_value cs) :: 'a word, r)) = Inr (v, rest)"
  then obtain cs where cs: "length cs = n" "bs = cs @ rest" "v = of_nat (le_value cs)"
    by (auto simp: bind_result_eq_Inr read_bytes_iff)
  have "le_value cs < 2 ^ LENGTH('a)" using le_value_bound [of cs] cs(1) assms by simp
  then have "unat v = le_value cs" unfolding cs(3) by (simp add: unat_of_nat)
  then show "bs = le_bytes n (unat v) @ rest" using cs le_bytes_value [of cs] by simp
next
  assume "bs = le_bytes n (unat v) @ rest"
  moreover have "le_value (le_bytes n (unat v)) = unat v"
    by (rule le_value_bytes) (use assms unat_word_bound [of v] in simp)
  ultimately show "bind_result (read_bytes n bs) (\<lambda>(cs, r). Inr (of_nat (le_value cs) :: 'a word, r)) = Inr (v, rest)"
    by (simp add: read_bytes_def)
qed

lemma read_u8_iff: "read_u8 bs = Inr (v, rest) \<longleftrightarrow> bs = [v] @ rest"
proof -
  have "le_bytes 1 (unat v) = [v]" using unat_word_bound [of v] by simp
  then show ?thesis using scalar_iff [where 'a = 8, of 1 bs v rest] by (simp add: read_u8_def)
qed

lemma read_u32_iff: "read_u32 bs = Inr (v, rest) \<longleftrightarrow> bs = le_bytes 4 (unat v) @ rest"
  unfolding read_u32_def by (rule scalar_iff) simp

lemma read_u64_iff: "read_u64 bs = Inr (v, rest) \<longleftrightarrow> bs = le_bytes 8 (unat v) @ rest"
  unfolding read_u64_def by (rule scalar_iff) simp

lemma chunks_bytes: "length cs = n * w \<Longrightarrow> concat (map (le_bytes w) (chunks w n cs)) = cs"
proof (induction n arbitrary: cs)
  case (Suc n)
  have "length (take w cs) = w" using Suc.prems by simp
  then have "le_bytes w (le_value (take w cs)) = take w cs" using le_bytes_value [of "take w cs"] by simp
  then show ?case using Suc.IH [of "drop w cs"] Suc.prems by simp
qed simp

lemma chunks_bound: "length cs = n * w \<Longrightarrow> \<forall>v\<in>set (chunks w n cs). v < 256 ^ w"
proof (induction n arbitrary: cs)
  case (Suc n)
  then show ?case using Suc.IH [of "drop w cs"] le_value_bound [of "take w cs"] by simp
qed simp

lemma chunks_length [simp]: "length (chunks w n cs) = n"
  by (induction n arbitrary: cs) simp_all

lemma chunks_concat: "\<forall>v\<in>set vs. v < 256 ^ w \<Longrightarrow> chunks w (length vs) (concat (map (le_bytes w) vs)) = vs"
  by (induction vs) (simp_all add: le_value_bytes)

lemma array_iff:
  assumes w: "2 ^ LENGTH('a) = (256 :: nat) ^ w"
  shows "bind_result (read_bytes (n * w) bs) (\<lambda>(cs, r). Inr (map of_nat (chunks w n cs) :: 'a :: len word list, r))
      = Inr (vs, rest)
    \<longleftrightarrow> length vs = n \<and> bs = concat (map (\<lambda>v. le_bytes w (unat v)) vs) @ rest"
proof
  assume "bind_result (read_bytes (n * w) bs) (\<lambda>(cs, r). Inr (map of_nat (chunks w n cs) :: 'a word list, r)) = Inr (vs, rest)"
  then obtain cs where cs: "length cs = n * w" "bs = cs @ rest" "vs = map of_nat (chunks w n cs)"
    by (auto simp: bind_result_eq_Inr read_bytes_iff)
  have "map (\<lambda>v. le_bytes w (unat v)) vs = map (le_bytes w) (chunks w n cs)"
    unfolding cs(3) using chunks_bound [OF cs(1)] w by (auto simp: unat_of_nat)
  then have "concat (map (\<lambda>v. le_bytes w (unat v)) vs) = cs" using chunks_bytes [OF cs(1)] by simp
  then show "length vs = n \<and> bs = concat (map (\<lambda>v. le_bytes w (unat v)) vs) @ rest"
    using cs(2,3) by simp
next
  assume a: "length vs = n \<and> bs = concat (map (\<lambda>v. le_bytes w (unat v)) vs) @ rest"
  let ?cs = "concat (map (le_bytes w) (map unat vs))"
  have "length ?cs = n * w" using a by (simp add: length_concat comp_def sum_list_triv)
  moreover have "chunks w n ?cs = map unat vs"
    using chunks_concat [of "map unat vs" w] a unat_word_bound [where 'a = 'a] unfolding w by simp
  ultimately show "bind_result (read_bytes (n * w) bs) (\<lambda>(cs, r). Inr (map of_nat (chunks w n cs) :: 'a word list, r))
      = Inr (vs, rest)"
    using a by (simp add: read_bytes_def comp_def)
qed

lemma read_u32_array_iff: "read_u32_array n bs = Inr (vs, rest) \<longleftrightarrow> length vs = n \<and> bs = u32_array vs @ rest"
  unfolding read_u32_array_def u32_array_def by (rule array_iff) simp

lemma read_u64_array_iff: "read_u64_array n bs = Inr (vs, rest) \<longleftrightarrow> length vs = n \<and> bs = u64_array vs @ rest"
  unfolding read_u64_array_def u64_array_def by (rule array_iff) simp

lemma read_u32_array_enc: "length vs = n \<Longrightarrow> read_u32_array n (u32_array vs @ rest) = Inr (vs, rest)"
  by (simp add: read_u32_array_iff)

lemma u32_array_length [simp]: "length (u32_array vs) = 4 * length vs"
  by (simp add: u32_array_def length_concat comp_def sum_list_triv)

lemma u64_array_length [simp]: "length (u64_array vs) = 8 * length vs"
  by (simp add: u64_array_def length_concat comp_def sum_list_triv)

section \<open>The printed forms\<close>

definition enc_span :: "token_span \<Rightarrow> u8 list" where
  "enc_span sp = enc_u64 (ts_begin sp) @ enc_u64 (ts_count sp)"

definition enc_item :: "vision_item \<Rightarrow> u8 list" where
  "enc_item item =
     [vi_modality item] @ enc_u32 (vg_temporal (vi_grid item)) @ enc_u32 (vg_height (vi_grid item)) @
     enc_u32 (vg_width (vi_grid item)) @ enc_u64 (vi_patch_begin item) @ enc_u64 (vi_patch_count item) @
     vi_content_digest item @ enc_u32 (of_nat (length (vi_timestamps item))) @ u64_array (vi_timestamps item) @
     enc_u32 (of_nat (length (vi_token_spans item))) @ concat (map enc_span (vi_token_spans item))"

definition item_ok :: "vision_item \<Rightarrow> bool" where
  "item_ok item \<longleftrightarrow>
     length (vi_content_digest item) = 32 \<and> length (vi_timestamps item) < 2 ^ 32 \<and>
     length (vi_token_spans item) < 2 ^ 32"

definition enc_identity :: "resident_identity \<Rightarrow> u8 list" where
  "enc_identity ident =
     enc_u32 (of_nat (length (ri_token_types ident))) @ enc_u32 (of_nat (length (ri_vision_items ident))) @
     ri_token_types ident @ u32_array (ri_axis0 ident) @ u32_array (ri_axis1 ident) @ u32_array (ri_axis2 ident) @
     concat (map enc_item (ri_vision_items ident))"

definition identity_ok :: "resident_identity \<Rightarrow> bool" where
  "identity_ok ident \<longleftrightarrow>
     identity_wf ident \<and> identity_size ident < 2 ^ 32 \<and> length (ri_vision_items ident) < 2 ^ 32 \<and>
     (\<forall>item\<in>set (ri_vision_items ident). item_ok item)"

lemma enc_span_length [simp]: "length (enc_span sp) = 16" by (simp add: enc_span_def)

lemmas read_iffs = read_u8_iff read_u32_iff [folded enc_u32_def] read_u64_iff [folded enc_u64_def] read_bytes_iff
  read_u32_array_iff read_u64_array_iff

interpretation span_codec: codec enc_span read_span "\<lambda>_. True"
proof
  fix x :: token_span and rest
  show "read_span (enc_span x @ rest) = Inr (x, rest)"
    by (simp add: read_span_def enc_span_def read_iffs [THEN iffD2])
next
  fix bs rest and x :: token_span
  assume "read_span bs = Inr (x, rest)"
  then show "True \<and> bs = enc_span x @ rest"
    by (auto simp: read_span_def enc_span_def bind_result_eq_Inr read_iffs)
qed

lemma u32_count: "n < 2 ^ 32 \<Longrightarrow> unat (of_nat n :: u32) = n"
  by (simp add: unat_of_nat)

lemma count_u32: "unat (v :: u32) = n \<Longrightarrow> v = of_nat n \<and> n < 2 ^ 32"
  using unat_u32_bound [of v] by (auto simp: of_nat_unat)

interpretation item_codec: codec enc_item read_item item_ok
proof
  fix x :: vision_item and rest
  assume "item_ok x"
  then have ok: "length (vi_content_digest x) = 32" "unat (of_nat (length (vi_timestamps x)) :: u32) = length (vi_timestamps x)"
    "unat (of_nat (length (vi_token_spans x)) :: u32) = length (vi_token_spans x)"
    by (simp_all only: item_ok_def u32_count)
  have sp: "length (concat (map enc_span (vi_token_spans x))) = 16 * length (vi_token_spans x)"
    by (simp add: length_concat comp_def sum_list_triv)
  show "read_item (enc_item x @ rest) = Inr (x, rest)"
    using ok sp by (simp add: read_item_def enc_item_def read_iffs [THEN iffD2] span_codec.read_many_enc)
next
  fix bs rest and x :: vision_item
  assume "read_item bs = Inr (x, rest)"
  then show "item_ok x \<and> bs = enc_item x @ rest"
    by (auto simp: read_item_def enc_item_def item_ok_def bind_result_eq_Inr read_iffs span_codec.read_many_iff
        dest: count_u32 split: if_splits)
qed

section \<open>The writer fills its buffer\<close>

lemma write_bytes_append: "bind_result (write_bytes xs w) (write_bytes ys) = write_bytes (xs @ ys) w"
  by (auto simp: write_bytes_def)

lemma write_bytes_bind:
  "bind_result (write_bytes xs w) (\<lambda>v. bind_result (write_bytes ys v) f) = bind_result (write_bytes (xs @ ys) w) f"
  unfolding write_bytes_append [symmetric] by (cases "write_bytes xs w") simp_all

lemma write_nil: "Inr w = write_bytes [] w"
  by (simp add: write_bytes_def)

lemma write_spans_eq: "write_spans spans = write_bytes (concat (map enc_span spans))"
proof (induction spans)
  case Nil
  show ?case by (rule ext) (simp add: write_nil)
next
  case (Cons sp spans)
  show ?case by (rule ext)
    (simp add: Cons write_u64_def enc_span_def enc_u64_def write_bytes_bind write_bytes_append)
qed

lemma write_item_eq: "write_item item = write_bytes (enc_item item)"
  by (rule ext) (simp add: write_item_def enc_item_def write_u8_def write_u32_def write_u64_def enc_u32_def enc_u64_def
      write_spans_eq write_bytes_bind write_bytes_append)

lemma write_items_eq: "write_items items = write_bytes (concat (map enc_item items))"
proof (induction items)
  case Nil
  show ?case by (rule ext) (simp add: write_nil)
next
  case (Cons item items)
  show ?case by (rule ext) (simp add: Cons write_item_eq write_bytes_append)
qed

lemma enc_item_length: "item_ok item \<Longrightarrow> length (enc_item item) = packed_item_bytes item"
  by (simp add: item_ok_def enc_item_def packed_item_bytes_def length_concat comp_def sum_list_triv)

lemma enc_items_length: "\<forall>item\<in>set items. item_ok item \<Longrightarrow> 69 * length items \<le> length (concat (map enc_item items))"
  by (induction items) (simp_all add: enc_item_length packed_item_bytes_def)

lemma enc_identity_length: "identity_ok ident \<Longrightarrow> length (enc_identity ident) = packed_bytes ident"
proof -
  assume ok: "identity_ok ident"
  then have "sum_list (map (length \<circ> enc_item) (ri_vision_items ident))
      = sum_list (map packed_item_bytes (ri_vision_items ident))"
    by (intro arg_cong [of _ _ sum_list] map_cong) (simp_all add: identity_ok_def enc_item_length)
  then show ?thesis using ok
    by (simp add: enc_identity_def packed_bytes_def identity_ok_def identity_wf_def identity_size_def length_concat)
qed

lemma identity_pack_eq:
  assumes "identity_ok ident" "dst \<noteq> 0"
  shows "identity_pack ident dst = Inr (enc_identity ident)"
proof -
  have "identity_pack ident dst = bind_result (write_bytes (enc_identity ident) \<lparr> w_out = [], w_left = packed_bytes ident \<rparr>)
      (\<lambda>w. if w_left w \<noteq> 0 then Inl Logic_error else Inr (w_out w))"
    using assms(2) by (simp add: identity_pack_def enc_identity_def write_u32_def enc_u32_def write_items_eq write_bytes_bind)
  then show ?thesis by (simp add: write_bytes_def enc_identity_length [OF assms(1)])
qed

section \<open>Properties\<close>

lemma unat_token_need: "unat (token_need n) = 13 * unat n"
proof -
  have "token_need n = (13 :: u64) * ucast n" by (simp add: token_need_def)
  moreover have "unat (13 * ucast n :: u64) = 13 * unat n"
    using unat_mult_no_overflow [of "13 :: u64" "ucast n"] unat_u32_bound [of n] by simp
  ultimately show ?thesis by simp
qed

lemma token_need_test: "(n \<noteq> 0 \<and> token_need n div ucast n \<noteq> 13) = False"
proof -
  have "token_need n div ucast n = 13" if "n \<noteq> 0"
  proof (rule unat_eqD)
    have "0 < unat n" using that by (simp add: unat_gt_0)
    then show "unat (token_need n div ucast n) = unat (13 :: u64)" unfolding unat_div unat_token_need by simp
  qed
  then show ?thesis by blast
qed

text \<open>
  C16: Packing and unpacking a prefix identity are inverse to each other. For every identity whose
  tables agree and whose counts fit their 32-bit fields, packing writes exactly \<^verbatim>\<open>packed_bytes\<close> bytes and
  unpacking accepts a byte string and returns that identity precisely when it is the packed form:
  nothing is lost, and no other bytes are accepted.
\<close>

theorem identity_codec:
  assumes "dst \<noteq> 0" and "src \<noteq> 0"
  shows "(identity_ok ident \<longrightarrow> (\<exists>bs. identity_pack ident dst = Inr bs \<and> length bs = packed_bytes ident)) \<and>
    (identity_unpack src bs = Inr ident \<longleftrightarrow> identity_ok ident \<and> identity_pack ident dst = Inr bs)"
proof -
  have fwd: "identity_ok ident \<and> bs = enc_identity ident" if "identity_unpack src bs = Inr ident"
    using that assms(2)
    by (auto simp: identity_unpack_def enc_identity_def identity_ok_def identity_wf_def identity_size_def
        bind_result_eq_Inr read_iffs item_codec.read_many_iff dest: count_u32 split: if_splits)
  have bwd: "identity_unpack src (enc_identity ident) = Inr ident" if ok: "identity_ok ident"
  proof -
    have n: "unat (of_nat (length (ri_token_types ident)) :: u32) = length (ri_token_types ident)"
      "unat (of_nat (length (ri_vision_items ident)) :: u32) = length (ri_vision_items ident)"
      using ok by (simp_all only: identity_ok_def identity_size_def u32_count)
    have "69 * length (ri_vision_items ident) \<le> length (concat (map enc_item (ri_vision_items ident)))"
      by (rule enc_items_length) (use ok in \<open>simp add: identity_ok_def\<close>)
    then have "\<not> length (concat (map enc_item (ri_vision_items ident))) div 69 < length (ri_vision_items ident)"
      by (simp add: div_less_iff_less_mult mult.commute)
    then show ?thesis using ok n assms(2) item_codec.read_many_enc [of "ri_vision_items ident" "[]"]
      by (simp add: read_u32_array_enc token_need_test unat_token_need identity_unpack_def enc_identity_def identity_ok_def identity_wf_def identity_size_def
          read_u32_iff [folded enc_u32_def, THEN iffD2] read_bytes_iff [THEN iffD2])
  qed
  show ?thesis using fwd bwd identity_pack_eq [OF _ assms(1)] enc_identity_length by auto
qed

definition demo_packed :: resident_identity where
  "demo_packed = \<lparr> ri_token_types = [0, 1], ri_axis0 = [0, 1], ri_axis1 = [0, 1], ri_axis2 = [0, 2],
     ri_vision_items =
       [\<lparr> vi_modality = 2, vi_grid = \<lparr> vg_temporal = 1, vg_height = 2, vg_width = 2 \<rparr>,
          vi_patch_begin = 0, vi_patch_count = 4, vi_content_digest = replicate 32 9, vi_timestamps = [7],
          vi_token_spans = [\<lparr> ts_begin = 1, ts_count = 1 \<rparr>] \<rparr>] \<rparr>"

theorem identity_codec_witness:
  "\<exists>bs. identity_pack demo_packed 64 = Inr bs \<and> length bs = 127 \<and> identity_unpack 64 bs = Inr demo_packed"
proof -
  have ok: "identity_ok demo_packed"
    by (simp add: identity_ok_def identity_wf_def identity_size_def item_ok_def demo_packed_def)
  have "packed_bytes demo_packed = 127" by (simp add: packed_bytes_def packed_item_bytes_def demo_packed_def)
  then show ?thesis using identity_codec [of 64 64 demo_packed] ok by auto
qed

end
