(* ===== verification/Repetition.thy ===== *)
theory Repetition
  imports Prelude "HOL-Library.Sublist"
begin

text \<open>
  Detection of repetition in generated tokens: the near-square test of
  \<^verbatim>\<open>runtime/contract/typical_cycle.h\<close> and the repeated-passage detector of
  \<^verbatim>\<open>runtime/contract/reasoning_recovery.h\<close>. Both are optimised searches; the theory shows that they
  compute exactly what their comments define: the least near-period of the suffix, and three copies
  of one passage together with enough covered tokens, with no influence of the rolling hash.

  A token id is its 32 bits. Lengths and positions are naturals.
\<close>

section \<open>Near squares\<close>

definition kTypicalCyclePeriodMin :: nat where "kTypicalCyclePeriodMin = 32"
definition kTypicalCyclePeriodMax :: nat where "kTypicalCyclePeriodMax = 2048"
definition kTypicalCycleHammingScale :: nat where "kTypicalCycleHammingScale = 512"

definition typical_cycle_hamming_max :: "nat \<Rightarrow> nat" where
  "typical_cycle_hamming_max p = 2 * p div kTypicalCycleHammingScale"

text \<open>The loop of \<^verbatim>\<open>suffix_square_hamming\<close> over the two halves, with its early exit.\<close>

fun hamming_loop :: "nat \<Rightarrow> nat \<Rightarrow> u32 list \<Rightarrow> u32 list \<Rightarrow> nat" where
  "hamming_loop most mism (a # as) (b # bs) =
     (if a \<noteq> b then
        if Suc mism > most then Suc mism else hamming_loop most (Suc mism) as bs
      else hamming_loop most mism as bs)"
| "hamming_loop most mism as bs = mism"

definition suffix_square_hamming :: "u32 list \<Rightarrow> nat \<Rightarrow> nat" where
  "suffix_square_hamming generated p =
     (let n = length generated in
      hamming_loop (typical_cycle_hamming_max p) 0
        (take p (drop (n - 2 * p) generated)) (take p (drop (n - p) generated)))"

function period_loop :: "u32 list \<Rightarrow> nat \<Rightarrow> nat \<Rightarrow> (nat \<times> u32) option" where
  "period_loop generated p p_hi =
     (if p \<le> p_hi then
        if suffix_square_hamming generated p \<le> typical_cycle_hamming_max p
        then Some (p, generated ! (length generated - p))
        else period_loop generated (Suc p) p_hi
      else None)"
  by auto
termination by (relation "measure (\<lambda>(_, p, p_hi). Suc p_hi - p)") auto

definition least_square_period :: "u32 list \<Rightarrow> nat \<Rightarrow> nat \<Rightarrow> (nat \<times> u32) option" where
  "least_square_period generated p_min p_max =
     (let n = length generated in
      if p_min = 0 \<or> p_min > p_max \<or> n < 2 * p_min then None
      else period_loop generated p_min (min p_max (n div 2)))"

definition typical_exclude_token :: "u32 list \<Rightarrow> u32" where
  "typical_exclude_token generated =
     (case least_square_period generated kTypicalCyclePeriodMin kTypicalCyclePeriodMax of
        Some (p, continuation) \<Rightarrow> continuation | None \<Rightarrow> - 1)"

text \<open>\<open>positive\<close> is the outcome of \<^verbatim>\<open>temperature > 0.0f\<close>.\<close>

definition typical_exclude_for_sample :: "bool \<Rightarrow> bool \<Rightarrow> bool \<Rightarrow> u32 list \<Rightarrow> u32" where
  "typical_exclude_for_sample in_reasoning p_less positive generated =
     (if \<not> in_reasoning \<or> \<not> p_less \<or> \<not> positive then - 1 else typical_exclude_token generated)"

section \<open>Repeated passages\<close>

definition rr_window :: nat where "rr_window = 256"
definition minimum_repeated_tokens :: nat where "minimum_repeated_tokens = 4096"
definition rr_base :: u64 where "rr_base = 0x100000001b3"

primrec rr_power_loop :: "nat \<Rightarrow> u64" where
  "rr_power_loop 0 = 1"
| "rr_power_loop (Suc n) = rr_power_loop n * rr_base"

definition rr_power :: u64 where "rr_power = rr_power_loop (rr_window - 1)"

definition rr_atom :: "u32 \<Rightarrow> u64" where
  "rr_atom token = ucast token + 1"

record rr_occurrence =
  oc_first_begin :: nat
  oc_last_end :: nat
  oc_copies :: nat

text \<open>
  The multimap is the list of its entries in insertion order; at most one entry holds a given
  passage, so the order of the candidates under one hash does not matter.
\<close>

record repeated_span =
  rr_processed :: nat
  rr_repeated_tokens :: nat
  rr_covered_end :: nat
  rr_has_three :: bool
  rr_hash :: u64
  rr_occurrences :: "(u64 \<times> rr_occurrence) list"

definition rr_fresh :: repeated_span where
  "rr_fresh = \<lparr> rr_processed = 0, rr_repeated_tokens = 0, rr_covered_end = 0, rr_has_three = False,
     rr_hash = 0, rr_occurrences = [] \<rparr>"

definition rr_roll :: "u32 list \<Rightarrow> nat \<Rightarrow> u64 \<Rightarrow> u64" where
  "rr_roll generated i h =
     (let h = (if i \<ge> rr_window then h - rr_atom (generated ! (i - rr_window)) * rr_power else h)
      in h * rr_base + rr_atom (generated ! i))"

text \<open>The candidate loop: the first entry of the bucket whose tokens agree, updated in place.\<close>

definition rr_same :: "u32 list \<Rightarrow> u64 \<Rightarrow> nat \<Rightarrow> u64 \<times> rr_occurrence \<Rightarrow> bool" where
  "rr_same generated h bg e =
     (fst e = h \<and>
      take rr_window (drop bg generated) = take rr_window (drop (oc_first_begin (snd e)) generated))"

fun rr_update :: "(u64 \<times> rr_occurrence \<Rightarrow> bool) \<Rightarrow> (rr_occurrence \<Rightarrow> rr_occurrence) \<Rightarrow>
  (u64 \<times> rr_occurrence) list \<Rightarrow> (u64 \<times> rr_occurrence) list" where
  "rr_update P f [] = []"
| "rr_update P f (e # es) = (if P e then (fst e, f (snd e)) # es else e # rr_update P f es)"

definition rr_bump :: "nat \<Rightarrow> rr_occurrence \<Rightarrow> rr_occurrence" where
  "rr_bump processed oc =
     (if processed - oc_last_end oc \<ge> rr_window
      then oc\<lparr> oc_last_end := processed, oc_copies := Suc (oc_copies oc) \<rparr> else oc)"

definition rr_step :: "u32 list \<Rightarrow> repeated_span \<Rightarrow> repeated_span \<times> bool" where
  "rr_step generated st =
     (let i = rr_processed st; processed = Suc i; h = rr_roll generated i (rr_hash st);
          st = st\<lparr> rr_processed := processed, rr_hash := h \<rparr> in
      if processed < rr_window then (st, False)
      else
        let bg = processed - rr_window; P = rr_same generated h bg in
        case find P (rr_occurrences st) of
          Some e \<Rightarrow>
            let oc = snd e; oc' = rr_bump processed oc;
                again = (bg \<ge> oc_first_begin oc + rr_window);
                st = st\<lparr> rr_repeated_tokens := (if again
                           then rr_repeated_tokens st + (processed - max bg (rr_covered_end st))
                           else rr_repeated_tokens st),
                         rr_covered_end := (if again then processed else rr_covered_end st),
                         rr_has_three := (rr_has_three st \<or>
                           (processed - oc_last_end oc \<ge> rr_window \<and> oc_copies oc' \<ge> 3)),
                         rr_occurrences := rr_update P (rr_bump processed) (rr_occurrences st) \<rparr>
            in (st, rr_has_three st \<and> rr_repeated_tokens st \<ge> minimum_repeated_tokens)
        | None \<Rightarrow>
            (st\<lparr> rr_occurrences := rr_occurrences st @
                   [(h, \<lparr> oc_first_begin = bg, oc_last_end = processed, oc_copies = 1 \<rparr>)] \<rparr>, False))"

lemma rr_step_processed [simp]: "rr_processed (fst (rr_step generated st)) = Suc (rr_processed st)"
  by (simp add: rr_step_def Let_def split: option.split)

function rr_loop :: "u32 list \<Rightarrow> repeated_span \<Rightarrow> repeated_span \<times> bool" where
  "rr_loop generated st =
     (if rr_processed st < length generated then
        let (st', hit) = rr_step generated st in if hit then (st', True) else rr_loop generated st'
      else (st, False))"
  by auto
termination
proof (relation "measure (\<lambda>(g, st). length g - rr_processed st)")
  fix generated st x st' hit
  assume lt: "rr_processed st < length generated" and x: "x = rr_step generated st" "(st', hit) = x" and "\<not> hit"
  have "rr_processed st' = Suc (rr_processed st)" using x rr_step_processed [of generated st] by (metis fst_conv)
  then show "((generated, st'), generated, st) \<in> measure (\<lambda>(g, st). length g - rr_processed st)" using lt by simp
qed simp

definition rr_observe :: "repeated_span \<Rightarrow> u32 list \<Rightarrow> repeated_span \<times> bool" where
  "rr_observe st generated =
     rr_loop generated (if length generated < rr_processed st then rr_fresh else st)"

declare rr_loop.simps [simp del] period_loop.simps [simp del]

section \<open>The least near-period\<close>

definition mismatches :: "u32 list \<Rightarrow> nat \<Rightarrow> nat" where
  "mismatches g p = card {i. i < p \<and> g ! (length g - 2 * p + i) \<noteq> g ! (length g - p + i)}"

lemma hamming_loop_count:
  assumes "length as = length bs"
  shows "hamming_loop most mism as bs \<le> most \<longleftrightarrow> mism \<le> most \<and> mism + card {i. i < length as \<and> as ! i \<noteq> bs ! i} \<le> most"
  using assms
proof (induction most mism as bs rule: hamming_loop.induct)
  case (1 most mism a as b bs)
  let ?S = "{i. i < length as \<and> as ! i \<noteq> bs ! i}"
  have fin: "finite ?S" by simp
  have "{i. i < length (a # as) \<and> (a # as) ! i \<noteq> (b # bs) ! i} = (if a \<noteq> b then {0} else {}) \<union> Suc ` ?S" (is "?L = ?R")
  proof (intro set_eqI iffI)
    fix i assume "i \<in> ?L"
    then show "i \<in> ?R" by (cases i) auto
  next
    fix i assume "i \<in> ?R"
    then show "i \<in> ?L" by (auto split: if_splits)
  qed
  then have c: "card ?L = (if a \<noteq> b then 1 else 0) + card ?S"
    by (auto simp: card_image card_Un_disjoint)
  have len: "length as = length bs" using 1(3) by simp
  show ?case
  proof (cases "a \<noteq> b")
    case True
    show ?thesis
    proof (cases "Suc mism > most")
      case early: True
      then show ?thesis using True c by simp
    next
      case False
      then show ?thesis using 1(1) [OF True False len] True c by auto
    qed
  next
    case False
    then show ?thesis using 1(2) [OF _ len] c by simp
  qed
qed auto

lemma suffix_square_hamming_count:
  assumes "2 * p \<le> length g"
  shows "suffix_square_hamming g p \<le> typical_cycle_hamming_max p \<longleftrightarrow> mismatches g p \<le> typical_cycle_hamming_max p"
proof -
  let ?as = "take p (drop (length g - 2 * p) g)" and ?bs = "take p (drop (length g - p) g)"
  have len: "length ?as = p" "length ?bs = p" using assms by auto
  have "{i. i < length ?as \<and> ?as ! i \<noteq> ?bs ! i} = {i. i < p \<and> g ! (length g - 2 * p + i) \<noteq> g ! (length g - p + i)}"
    using assms len by auto
  then have "card {i. i < length ?as \<and> ?as ! i \<noteq> ?bs ! i} = mismatches g p" by (simp only: mismatches_def)
  then show ?thesis using hamming_loop_count [of ?as ?bs "typical_cycle_hamming_max p" 0] len
    unfolding suffix_square_hamming_def Let_def by (simp only: zero_le add_0 simp_thms)
qed

definition near_square :: "u32 list \<Rightarrow> nat \<Rightarrow> bool" where
  "near_square g p \<longleftrightarrow> 2 * p \<le> length g \<and> mismatches g p \<le> 2 * p div 512"

lemma period_loop_least:
  assumes "2 * hi \<le> length g"
  shows "period_loop g p hi = (if \<exists>q. p \<le> q \<and> q \<le> hi \<and> near_square g q
    then let q = LEAST q. p \<le> q \<and> near_square g q in Some (q, g ! (length g - q)) else None)"
  using assms
proof (induction g p hi rule: period_loop.induct)
  case (1 g p hi)
  show ?case
  proof (cases "p \<le> hi")
    case True
    then have test: "suffix_square_hamming g p \<le> typical_cycle_hamming_max p \<longleftrightarrow> near_square g p"
      using 1(2) suffix_square_hamming_count [of p g]
      by (simp add: near_square_def typical_cycle_hamming_max_def kTypicalCycleHammingScale_def)
    show ?thesis
    proof (cases "near_square g p")
      case near: True
      then have "(LEAST q. p \<le> q \<and> near_square g q) = p" by (intro Least_equality) auto
      then show ?thesis using True near test period_loop.simps [of g p hi] by auto
    next
      case False
      then have least: "(\<lambda>q. p \<le> q \<and> near_square g q) = (\<lambda>q. Suc p \<le> q \<and> near_square g q)"
        by (metis Suc_leD le_SucE le_antisym not_less_eq_eq)
      have ex: "(\<exists>q. p \<le> q \<and> q \<le> hi \<and> near_square g q) \<longleftrightarrow> (\<exists>q. Suc p \<le> q \<and> q \<le> hi \<and> near_square g q)"
        using False by (metis Suc_leD le_SucE le_antisym not_less_eq_eq)
      have no: "\<not> suffix_square_hamming g p \<le> typical_cycle_hamming_max p" using False test by simp
      then have "period_loop g p hi = period_loop g (Suc p) hi" using True period_loop.simps [of g p hi] by simp
      then show ?thesis using 1(1) [OF True no 1(2)] unfolding least ex by simp
    qed
  next
    case False
    then show ?thesis using period_loop.simps [of g p hi] by auto
  qed
qed

lemma near_square_exact:
  assumes "near_square g p" "p < 256" "i < p"
  shows "g ! (length g - 2 * p + i) = g ! (length g - p + i)"
proof -
  have "mismatches g p = 0" using assms(1,2) by (simp add: near_square_def)
  then have "{i. i < p \<and> g ! (length g - 2 * p + i) \<noteq> g ! (length g - p + i)} = {}" by (simp add: mismatches_def)
  then show ?thesis using assms(3) by blast
qed

section \<open>The rolling hash\<close>

definition passage :: "u32 list \<Rightarrow> nat \<Rightarrow> u32 list" where
  "passage g b = take rr_window (drop b g)"

definition passage_hash :: "u32 list \<Rightarrow> u64" where
  "passage_hash ts = foldl (\<lambda>h t. h * rr_base + rr_atom t) 0 ts"

lemma rr_power_loop_eq: "rr_power_loop n = rr_base ^ n"
  by (induction n) simp_all

lemma foldl_hash: "foldl (\<lambda>h t. h * rr_base + rr_atom t) h ts = h * rr_base ^ length ts + passage_hash ts"
proof (induction ts arbitrary: h)
  case (Cons t ts)
  show ?case using Cons [of "h * rr_base + rr_atom t"] Cons [of "rr_atom t"]
    by (simp add: passage_hash_def algebra_simps)
qed (simp add: passage_hash_def)

lemma passage_hash_Cons: "passage_hash (t # ts) = rr_atom t * rr_base ^ length ts + passage_hash ts"
  using foldl_hash [of "rr_atom t" ts] by (simp add: passage_hash_def)

lemma passage_hash_snoc: "passage_hash (ts @ [t]) = passage_hash ts * rr_base + rr_atom t"
  by (simp add: passage_hash_def)

lemma rr_window_pos: "0 < rr_window" "rr_window = Suc (rr_window - 1)"
  by (simp_all add: rr_window_def)

text \<open>The hash of the last \<open>rr_window\<close> tokens, or of all of them while there are fewer.\<close>

definition recent :: "u32 list \<Rightarrow> nat \<Rightarrow> u32 list" where
  "recent g n = drop (n - rr_window) (take n g)"

lemma rr_roll_recent:
  assumes "n < length g"
  shows "rr_roll g n (passage_hash (recent g n)) = passage_hash (recent g (Suc n))"
proof (cases "rr_window \<le> n")
  case True
  let ?o = "n - rr_window"
  have "recent g n = g ! ?o # drop (Suc ?o) (take n g)"
    using True assms rr_window_pos(1) by (simp add: recent_def Cons_nth_drop_Suc [symmetric] nth_take)
  moreover have "length (drop (Suc ?o) (take n g)) = rr_window - 1" using True assms by simp
  ultimately have "passage_hash (recent g n) - rr_atom (g ! ?o) * rr_power = passage_hash (drop (Suc ?o) (take n g))"
    by (simp add: passage_hash_Cons rr_power_def rr_power_loop_eq)
  moreover have "recent g (Suc n) = drop (Suc ?o) (take n g) @ [g ! n]"
    using True assms rr_window_pos(1) by (simp add: recent_def take_Suc_conv_app_nth Suc_diff_le)
  ultimately show ?thesis using True by (simp add: rr_roll_def Let_def passage_hash_snoc)
next
  case False
  then have "recent g n = take n g" "recent g (Suc n) = take n g @ [g ! n]"
    using assms by (simp_all add: recent_def take_Suc_conv_app_nth)
  then show ?thesis using False by (simp add: rr_roll_def Let_def passage_hash_snoc)
qed

lemma recent_passage:
  assumes "rr_window \<le> n" "n \<le> length g"
  shows "recent g n = passage g (n - rr_window)"
  using assms by (simp add: recent_def passage_def take_drop [symmetric] drop_take)

section \<open>What the detector has seen\<close>

text \<open>Three disjoint copies of one passage, and the tokens inside later copies, in the first \<open>n\<close>.\<close>

definition three_copies :: "u32 list \<Rightarrow> nat \<Rightarrow> bool" where
  "three_copies g n \<longleftrightarrow>
     (\<exists>a b c. a + rr_window \<le> b \<and> b + rr_window \<le> c \<and> c + rr_window \<le> n \<and>
        passage g a = passage g b \<and> passage g b = passage g c)"

definition covered :: "u32 list \<Rightarrow> nat \<Rightarrow> nat set" where
  "covered g n = {i. \<exists>a b. a + rr_window \<le> b \<and> b + rr_window \<le> n \<and> passage g a = passage g b \<and>
     b \<le> i \<and> i < b + rr_window}"

definition only_copy :: "u32 list \<Rightarrow> nat \<Rightarrow> nat \<Rightarrow> nat \<Rightarrow> bool" where
  "only_copy g f from n \<longleftrightarrow> (\<forall>b. from \<le> b \<longrightarrow> b + rr_window \<le> n \<longrightarrow> passage g b \<noteq> passage g f)"

definition entry_ok :: "u32 list \<Rightarrow> nat \<Rightarrow> u64 \<times> rr_occurrence \<Rightarrow> bool" where
  "entry_ok g n e \<longleftrightarrow>
     (let f = oc_first_begin (snd e); l = oc_last_end (snd e); w = rr_window in
      f + w \<le> n \<and> fst e = passage_hash (passage g f) \<and> (\<forall>a<f. passage g a \<noteq> passage g f) \<and> l \<le> n \<and>
      (oc_copies (snd e) = 1 \<and> l = f + w \<and> only_copy g f l n \<or>
       oc_copies (snd e) = 2 \<and>
         (\<exists>q. l = q + w \<and> f + w \<le> q \<and> passage g q = passage g f \<and>
            (\<forall>b. f + w \<le> b \<longrightarrow> b < q \<longrightarrow> passage g b \<noteq> passage g f) \<and> only_copy g f l n) \<or>
       oc_copies (snd e) \<ge> 3 \<and>
         (\<exists>b c. f + w \<le> b \<and> b + w \<le> c \<and> c + w \<le> n \<and> passage g b = passage g f \<and> passage g c = passage g f)))"

definition table_ok :: "u32 list \<Rightarrow> nat \<Rightarrow> (u64 \<times> rr_occurrence) list \<Rightarrow> bool" where
  "table_ok g n es \<longleftrightarrow>
     (\<forall>e\<in>set es. entry_ok g n e) \<and> distinct (map (oc_first_begin \<circ> snd) es) \<and>
     (\<forall>b. b + rr_window \<le> n \<longrightarrow> (\<exists>e\<in>set es. passage g (oc_first_begin (snd e)) = passage g b))"

definition cover_ok :: "u32 list \<Rightarrow> nat \<Rightarrow> nat \<Rightarrow> nat \<Rightarrow> bool" where
  "cover_ok g n tokens ce \<longleftrightarrow>
     tokens = card (covered g n) \<and> covered g n \<subseteq> {..<ce} \<and> ce \<le> n \<and>
     (ce = 0 \<or> {ce - rr_window..<ce} \<subseteq> covered g n)"

definition span_inv :: "u32 list \<Rightarrow> nat \<Rightarrow> repeated_span \<Rightarrow> bool" where
  "span_inv g n st \<longleftrightarrow>
     rr_processed st = n \<and> n \<le> length g \<and> rr_hash st = passage_hash (recent g n) \<and>
     table_ok g n (rr_occurrences st) \<and> cover_ok g n (rr_repeated_tokens st) (rr_covered_end st) \<and>
     (rr_has_three st \<longleftrightarrow> three_copies g n)"

lemma entry_cases:
  assumes "entry_ok g n e"
  obtains (one) "oc_copies (snd e) = 1" "oc_last_end (snd e) = oc_first_begin (snd e) + rr_window"
      "only_copy g (oc_first_begin (snd e)) (oc_last_end (snd e)) n"
    | (two) q where "oc_copies (snd e) = 2" "oc_last_end (snd e) = q + rr_window"
      "oc_first_begin (snd e) + rr_window \<le> q" "passage g q = passage g (oc_first_begin (snd e))"
      "\<forall>b. oc_first_begin (snd e) + rr_window \<le> b \<longrightarrow> b < q \<longrightarrow> passage g b \<noteq> passage g (oc_first_begin (snd e))"
      "only_copy g (oc_first_begin (snd e)) (oc_last_end (snd e)) n"
    | (three) b c where "oc_copies (snd e) \<ge> 3" "oc_first_begin (snd e) + rr_window \<le> b" "b + rr_window \<le> c"
      "c + rr_window \<le> n" "passage g b = passage g (oc_first_begin (snd e))"
      "passage g c = passage g (oc_first_begin (snd e))"
  using assms unfolding entry_ok_def Let_def by blast

lemma entry_ok_first:
  assumes "entry_ok g n e" "entry_ok g n e'"
    "passage g (oc_first_begin (snd e)) = passage g (oc_first_begin (snd e'))"
  shows "oc_first_begin (snd e) = oc_first_begin (snd e')"
proof (rule linorder_cases [of "oc_first_begin (snd e)" "oc_first_begin (snd e')"])
  assume lt: "oc_first_begin (snd e) < oc_first_begin (snd e')"
  have "\<forall>a<oc_first_begin (snd e'). passage g a \<noteq> passage g (oc_first_begin (snd e'))"
    using assms(2) unfolding entry_ok_def Let_def by (elim conjE)
  then show ?thesis using lt assms(3) by blast
next
  assume lt: "oc_first_begin (snd e') < oc_first_begin (snd e)"
  have "\<forall>a<oc_first_begin (snd e). passage g a \<noteq> passage g (oc_first_begin (snd e))"
    using assms(1) unfolding entry_ok_def Let_def by (elim conjE)
  then show ?thesis using lt assms(3) [symmetric] by blast
qed simp

lemma three_copies_entry:
  assumes e: "entry_ok g n e" and abc: "a + rr_window \<le> b" "b + rr_window \<le> c" "c + rr_window \<le> n"
    and same: "passage g a = passage g (oc_first_begin (snd e))" "passage g b = passage g (oc_first_begin (snd e))"
      "passage g c = passage g (oc_first_begin (snd e))"
  shows "oc_copies (snd e) \<ge> 3"
proof -
  let ?f = "oc_first_begin (snd e)" and ?l = "oc_last_end (snd e)"
  have "\<forall>a<?f. passage g a \<noteq> passage g ?f" using e by (simp add: entry_ok_def Let_def)
  then have "\<not> a < ?f" using same(1) by blast
  then have f: "?f + rr_window \<le> b" using abc(1) by simp
  from e show ?thesis
  proof (cases rule: entry_cases)
    case one
    then have "passage g b \<noteq> passage g ?f" using f abc unfolding only_copy_def by simp
    then show ?thesis using same(2) by simp
  next
    case (two q)
    have "\<not> b < q" using two(5) f same(2) by blast
    then have "?l \<le> c" using two(2) abc(2) by simp
    then have "passage g c \<noteq> passage g ?f" using two(6) abc(3) unfolding only_copy_def by simp
    then show ?thesis using same(3) by simp
  qed
qed

lemma entry_three:
  assumes e: "entry_ok g n e" and c: "oc_copies (snd e) \<ge> 3"
  shows "three_copies g n"
  using e
proof (cases rule: entry_cases)
  case (three b c)
  then show ?thesis unfolding three_copies_def
    by (intro exI [of _ "oc_first_begin (snd e)"] exI [of _ b] exI [of _ c]) simp
qed (use c in simp_all)

lemma three_copies_table:
  assumes t: "table_ok g n es"
  shows "three_copies g n \<longleftrightarrow> (\<exists>e\<in>set es. oc_copies (snd e) \<ge> 3)"
proof
  assume "three_copies g n"
  then obtain a b c where abc: "a + rr_window \<le> b" "b + rr_window \<le> c" "c + rr_window \<le> n"
    "passage g a = passage g b" "passage g b = passage g c" by (auto simp: three_copies_def)
  have "a + rr_window \<le> n" using abc by simp
  then obtain e where e: "e \<in> set es" "passage g (oc_first_begin (snd e)) = passage g a"
    using t by (auto simp: table_ok_def)
  have "entry_ok g n e" using e t by (simp add: table_ok_def)
  then have "oc_copies (snd e) \<ge> 3" by (rule three_copies_entry [OF _ abc(1-3)]) (use e(2) abc in simp_all)
  then show "\<exists>e\<in>set es. oc_copies (snd e) \<ge> 3" using e(1) by blast
next
  assume "\<exists>e\<in>set es. oc_copies (snd e) \<ge> 3"
  then obtain e where e: "e \<in> set es" "oc_copies (snd e) \<ge> 3" by blast
  then have "entry_ok g n e" using t by (simp add: table_ok_def)
  then show "three_copies g n" using e(2) by (rule entry_three)
qed

section \<open>One token more\<close>

lemma entry_ok_other:
  assumes e: "entry_ok g n e" and b: "bn + rr_window = Suc n"
    and ne: "passage g bn \<noteq> passage g (oc_first_begin (snd e))"
  shows "entry_ok g (Suc n) e"
proof -
  let ?f = "oc_first_begin (snd e)" and ?l = "oc_last_end (snd e)" and ?w = rr_window
  have base: "?f + ?w \<le> n" "fst e = passage_hash (passage g ?f)" "\<forall>a<?f. passage g a \<noteq> passage g ?f" "?l \<le> n"
    using e by (simp_all add: entry_ok_def Let_def)
  have "b + ?w \<le> Suc n \<longleftrightarrow> b + ?w \<le> n \<or> b = bn" for b using b by auto
  then have only: "only_copy g ?f l n \<Longrightarrow> only_copy g ?f l (Suc n)" for l
    using ne by (auto simp: only_copy_def)
  from e show ?thesis
  proof (cases rule: entry_cases)
    case one
    then show ?thesis using base only by (simp add: entry_ok_def Let_def)
  next
    case (two q)
    then show ?thesis using base only [OF two(6)] unfolding entry_ok_def Let_def by (simp add: exI [of _ q])
  next
    case (three b c)
    then have "\<exists>b c. ?f + ?w \<le> b \<and> b + ?w \<le> c \<and> c + ?w \<le> Suc n \<and> passage g b = passage g ?f \<and> passage g c = passage g ?f"
      by (intro exI [of _ b] exI [of _ c]) simp
    then show ?thesis using base three(1) by (simp add: entry_ok_def Let_def)
  qed
qed

lemma only_copy_late: "bn + rr_window = Suc n \<Longrightarrow> bn < l \<Longrightarrow> only_copy g f l n \<Longrightarrow> only_copy g f l (Suc n)"
  by (auto simp: only_copy_def le_Suc_eq)

lemma only_copy_end: "Suc n \<le> l \<Longrightarrow> only_copy g f l (Suc n)"
  using rr_window_pos(1) by (auto simp: only_copy_def)

lemma entry_ok_bump:
  assumes e: "entry_ok g n e" and b: "bn + rr_window = Suc n"
    and eq: "passage g bn = passage g (oc_first_begin (snd e))"
  shows "entry_ok g (Suc n) (fst e, rr_bump (Suc n) (snd e))"
proof -
  let ?f = "oc_first_begin (snd e)" and ?l = "oc_last_end (snd e)" and ?w = rr_window
  have base: "?f + ?w \<le> n" "fst e = passage_hash (passage g ?f)" "\<forall>a<?f. passage g a \<noteq> passage g ?f" "?l \<le> n"
    using e by (simp_all add: entry_ok_def Let_def)
  have bump: "?w \<le> Suc n - ?l \<longleftrightarrow> ?l \<le> bn" using b base(4) by auto
  from e show ?thesis
  proof (cases rule: entry_cases)
    case one
    show ?thesis
    proof (cases "?l \<le> bn")
      case True
      have "\<forall>c. ?f + ?w \<le> c \<longrightarrow> c < bn \<longrightarrow> passage g c \<noteq> passage g ?f"
        using one(2,3) b by (auto simp: only_copy_def)
      then show ?thesis using True one base bump eq b only_copy_end [of n "Suc n"]
        by (auto simp: entry_ok_def Let_def rr_bump_def intro!: exI [of _ bn])
    next
      case False
      then show ?thesis using one base bump only_copy_late [OF b, of ?l]
        by (auto simp: entry_ok_def Let_def rr_bump_def)
    qed
  next
    case (two q)
    show ?thesis
    proof (cases "?l \<le> bn")
      case True
      then have "\<exists>b c. ?f + ?w \<le> b \<and> b + ?w \<le> c \<and> c + ?w \<le> Suc n \<and> passage g b = passage g ?f \<and> passage g c = passage g ?f"
        using two b eq by (intro exI [of _ q] exI [of _ bn]) simp
      then show ?thesis using True two base bump by (simp add: entry_ok_def Let_def rr_bump_def)
    next
      case False
      then show ?thesis using two base bump only_copy_late [OF b, of ?l]
        by (auto simp: entry_ok_def Let_def rr_bump_def)
    qed
  next
    case (three b c)
    then have "\<exists>b c. ?f + ?w \<le> b \<and> b + ?w \<le> c \<and> c + ?w \<le> Suc n \<and> passage g b = passage g ?f \<and> passage g c = passage g ?f"
      by (intro exI [of _ b] exI [of _ c]) simp
    then show ?thesis using three(1) base by (auto simp: entry_ok_def Let_def rr_bump_def)
  qed
qed

definition copied :: "u32 list \<Rightarrow> nat \<Rightarrow> bool" where
  "copied g b \<longleftrightarrow> (\<exists>a. a + rr_window \<le> b \<and> passage g a = passage g b)"

lemma covered_copied: "covered g n = (\<Union>b\<in>{b. b + rr_window \<le> n \<and> copied g b}. {b..<b + rr_window})"
proof (rule set_eqI)
  fix i
  show "i \<in> covered g n \<longleftrightarrow> i \<in> (\<Union>b\<in>{b. b + rr_window \<le> n \<and> copied g b}. {b..<b + rr_window})"
    unfolding covered_def copied_def by (simp only: UN_iff mem_Collect_eq atLeastLessThan_iff bex_simps Bex_def) blast
qed

lemma covered_step:
  assumes b: "bn + rr_window = Suc n"
  shows "covered g (Suc n) = covered g n \<union> (if copied g bn then {bn..<Suc n} else {})"
proof -
  have "x + rr_window \<le> Suc n \<longleftrightarrow> x + rr_window \<le> n \<or> x = bn" for x using b by auto
  then have "{b. b + rr_window \<le> Suc n \<and> copied g b} =
      {b. b + rr_window \<le> n \<and> copied g b} \<union> (if copied g bn then {bn} else {})" by auto
  then show ?thesis using b unfolding covered_copied by (simp only: UN_Un) auto
qed

lemma covered_finite: "finite (covered g n)"
  by (rule finite_subset [of _ "{..<n}"]) (auto simp: covered_def)

lemma cover_ok_step:
  assumes c: "cover_ok g n t ce" and b: "bn + rr_window = Suc n"
  shows "cover_ok g (Suc n) (if copied g bn then t + (Suc n - max bn ce) else t) (if copied g bn then Suc n else ce)"
proof (cases "copied g bn")
  case True
  have cov: "covered g (Suc n) = covered g n \<union> {bn..<Suc n}" using covered_step [OF b, of g] True by simp
  have sub: "covered g n \<subseteq> {..<ce}" "ce \<le> n" using c by (simp_all add: cover_ok_def)
  have "{bn..<ce} \<subseteq> covered g n"
  proof (cases "ce = 0")
    case False
    then have "{ce - rr_window..<ce} \<subseteq> covered g n" using c by (simp add: cover_ok_def)
    moreover have "{bn..<ce} \<subseteq> {ce - rr_window..<ce}" using sub(2) b by auto
    ultimately show ?thesis by blast
  qed simp
  then have "covered g (Suc n) = covered g n \<union> {max bn ce..<Suc n}"
    unfolding cov using sub by (auto simp: subset_eq)
  moreover have "covered g n \<inter> {max bn ce..<Suc n} = {}" using sub(1) by auto
  ultimately have "card (covered g (Suc n)) = card (covered g n) + (Suc n - max bn ce)"
    using card_Un_disjoint [OF covered_finite, of "{max bn ce..<Suc n}" g n] by simp
  moreover have "Suc n - rr_window = bn" using b by simp
  ultimately show ?thesis using True c cov sub by (auto simp: cover_ok_def)
next
  case False
  then show ?thesis using c covered_step [OF b, of g] by (simp add: cover_ok_def)
qed

lemma rr_update_set:
  assumes "find P es = Some e" "distinct es" "\<And>x. x \<in> set es \<Longrightarrow> P x \<Longrightarrow> x = e"
  shows "set (rr_update P f es) = insert (fst e, f (snd e)) {x \<in> set es. \<not> P x}"
  using assms
proof (induction es)
  case (Cons x es)
  show ?case
  proof (cases "P x")
    case True
    have "x = e" using Cons.prems(3) [of x] True by simp
    have "\<not> P y" if "y \<in> set es" for y using Cons.prems(3) [of y] Cons.prems(2) that \<open>x = e\<close> by auto
    then have "{y \<in> set (x # es). \<not> P y} = set es" using True by auto
    then show ?thesis using True \<open>x = e\<close> by simp
  next
    case False
    then have "set (rr_update P f es) = insert (fst e, f (snd e)) {x \<in> set es. \<not> P x}"
      using Cons.prems by (intro Cons.IH) simp_all
    then show ?thesis using False by auto
  qed
qed simp

lemma rr_update_firsts:
  assumes "\<And>oc. oc_first_begin (f oc) = oc_first_begin oc"
  shows "map (oc_first_begin \<circ> snd) (rr_update P f es) = map (oc_first_begin \<circ> snd) es"
  by (induction es) (simp_all add: assms)

lemma rr_bump_first: "oc_first_begin (rr_bump n oc) = oc_first_begin oc"
  by (simp add: rr_bump_def)

lemma table_ok_bump:
  assumes t: "table_ok g n es" and b: "bn + rr_window = Suc n"
    and P: "\<And>x. x \<in> set es \<Longrightarrow> P x \<longleftrightarrow> passage g bn = passage g (oc_first_begin (snd x))"
    and f: "find P es = Some e"
  shows "table_ok g (Suc n) (rr_update P (rr_bump (Suc n)) es)"
    and "set (rr_update P (rr_bump (Suc n)) es) = insert (fst e, rr_bump (Suc n) (snd e)) {x \<in> set es. \<not> P x}"
proof -
  have e: "e \<in> set es" "P e" using f by (auto simp: find_Some_iff)
  have ok: "\<And>x. x \<in> set es \<Longrightarrow> entry_ok g n x" and dis: "distinct (map (oc_first_begin \<circ> snd) es)"
    using t by (simp_all add: table_ok_def)
  have uniq: "x = e" if "x \<in> set es" "P x" for x
  proof -
    have "oc_first_begin (snd x) = oc_first_begin (snd e)"
      by (rule entry_ok_first [OF ok ok]) (use that e P in simp_all)
    then show ?thesis using dis that(1) e(1) by (auto simp: distinct_map inj_on_def)
  qed
  let ?es = "rr_update P (rr_bump (Suc n)) es"
  show set: "set ?es = insert (fst e, rr_bump (Suc n) (snd e)) {x \<in> set es. \<not> P x}"
    using rr_update_set [OF f _ uniq] dis by (simp add: distinct_map)
  have firsts: "map (oc_first_begin \<circ> snd) ?es = map (oc_first_begin \<circ> snd) es"
    by (rule rr_update_firsts) (rule rr_bump_first)
  have all: "entry_ok g (Suc n) x" if "x \<in> set ?es" for x
    using that unfolding set
  proof (elim insertE)
    assume "x = (fst e, rr_bump (Suc n) (snd e))"
    then show ?thesis using entry_ok_bump [OF ok [OF e(1)] b] P [OF e(1)] e(2) by simp
  next
    assume "x \<in> {x \<in> set es. \<not> P x}"
    then have x: "x \<in> set es" "\<not> P x" by simp_all
    then show ?thesis using entry_ok_other [OF ok [OF x(1)] b] P [OF x(1)] by blast
  qed
  have has: "\<exists>x\<in>set ?es. passage g (oc_first_begin (snd x)) = passage g c" if c: "c + rr_window \<le> Suc n" for c
  proof -
    have "\<exists>x\<in>set es. passage g (oc_first_begin (snd x)) = passage g c"
    proof (cases "c + rr_window \<le> n")
      case False
      then have "c = bn" using c b by simp
      then show ?thesis using e P [OF e(1)] by (intro bexI [of _ e]) simp_all
    qed (use t in \<open>simp add: table_ok_def\<close>)
    then obtain x where x: "x \<in> set es" "passage g (oc_first_begin (snd x)) = passage g c" by blast
    then have "oc_first_begin (snd x) \<in> set (map (oc_first_begin \<circ> snd) es)" by simp
    then have "oc_first_begin (snd x) \<in> (oc_first_begin \<circ> snd) ` set ?es"
      unfolding firsts [symmetric] by (simp only: set_map)
    then obtain y where "y \<in> set ?es" "oc_first_begin (snd x) = oc_first_begin (snd y)" by auto
    then show ?thesis using x(2) by (intro bexI [of _ y]) simp_all
  qed
  show "table_ok g (Suc n) ?es" using all has dis firsts by (simp add: table_ok_def)
qed

lemma table_ok_new:
  assumes t: "table_ok g n es" and b: "bn + rr_window = Suc n"
    and no: "\<And>x. x \<in> set es \<Longrightarrow> passage g bn \<noteq> passage g (oc_first_begin (snd x))"
  shows "table_ok g (Suc n) (es @ [(passage_hash (passage g bn), \<lparr> oc_first_begin = bn, oc_last_end = Suc n, oc_copies = 1 \<rparr>)])"
    and "\<not> copied g bn"
proof -
  have seen: "\<exists>e\<in>set es. passage g (oc_first_begin (snd e)) = passage g c" if "c + rr_window \<le> n" for c
    using t that by (simp add: table_ok_def)
  have new: "passage g a \<noteq> passage g bn" if a: "a < bn" for a
  proof -
    obtain e where "e \<in> set es" "passage g (oc_first_begin (snd e)) = passage g a" using seen [of a] a b by auto
    then show ?thesis using no [of e] by simp
  qed
  have pos: "0 < rr_window" by (rule rr_window_pos(1))
  show "\<not> copied g bn" using new pos by (auto simp: copied_def)
  have ok: "\<And>x. x \<in> set es \<Longrightarrow> entry_ok g n x" and dis: "distinct (map (oc_first_begin \<circ> snd) es)"
    using t by (simp_all add: table_ok_def)
  have old: "\<And>x. x \<in> set es \<Longrightarrow> entry_ok g (Suc n) x" using entry_ok_other [OF ok b no] .
  have "oc_first_begin (snd x) \<noteq> bn" if "x \<in> set es" for x using no [OF that] by auto
  moreover have "\<exists>x\<in>set es. passage g (oc_first_begin (snd x)) = passage g c"
    if "c + rr_window \<le> Suc n" "c \<noteq> bn" for c using seen [of c] that b by simp
  moreover have "entry_ok g (Suc n) (passage_hash (passage g bn), \<lparr> oc_first_begin = bn, oc_last_end = Suc n, oc_copies = 1 \<rparr>)"
    using b new only_copy_end [of n "Suc n"] by (simp add: entry_ok_def Let_def)
  ultimately show "table_ok g (Suc n) (es @ [(passage_hash (passage g bn), \<lparr> oc_first_begin = bn, oc_last_end = Suc n, oc_copies = 1 \<rparr>)])"
    using old dis by (auto simp: table_ok_def)
qed

definition alarm :: "u32 list \<Rightarrow> nat \<Rightarrow> bool" where
  "alarm g n \<longleftrightarrow> three_copies g n \<and> minimum_repeated_tokens \<le> card (covered g n)"

lemma three_copies_mono:
  assumes "three_copies g m" "m \<le> n"
  shows "three_copies g n"
proof -
  obtain a b c where "a + rr_window \<le> b" "b + rr_window \<le> c" "c + rr_window \<le> m"
    "passage g a = passage g b" "passage g b = passage g c" using assms(1) unfolding three_copies_def by blast
  then show ?thesis unfolding three_copies_def
    by (intro exI [of _ a] exI [of _ b] exI [of _ c]) (use assms(2) in simp)
qed

lemma covered_mono: "m \<le> n \<Longrightarrow> covered g m \<subseteq> covered g n"
  unfolding covered_copied by (intro UN_mono) auto

lemma alarm_mono: "alarm g m \<Longrightarrow> m \<le> n \<Longrightarrow> alarm g n"
proof -
  assume a: "alarm g m" and mn: "m \<le> n"
  have "card (covered g m) \<le> card (covered g n)" by (rule card_mono [OF covered_finite covered_mono [OF mn]])
  moreover have "three_copies g n" using a mn three_copies_mono [of g m n] by (simp add: alarm_def)
  ultimately show "alarm g n" using a by (simp add: alarm_def)
qed

lemma passage_prefix: "b + rr_window \<le> k \<Longrightarrow> passage (take k g) b = passage g b"
  by (simp add: passage_def drop_take)

lemma span_inv_short:
  assumes inv: "span_inv g n st" and n: "Suc n < rr_window" and l: "Suc n \<le> length g"
  shows "span_inv g (Suc n) (st\<lparr> rr_processed := Suc n, rr_hash := passage_hash (recent g (Suc n)) \<rparr>)"
    and "\<not> alarm g (Suc n)"
proof -
  have none: "\<not> b + rr_window \<le> Suc n" "\<not> b + rr_window \<le> n" for b using n by simp_all
  then have three: "\<not> three_copies g (Suc n)" "\<not> three_copies g n" by (simp_all add: three_copies_def)
  then show "\<not> alarm g (Suc n)" by (simp add: alarm_def)
  have cov: "covered g (Suc n) = {}" "covered g n = {}" using none by (simp_all add: covered_def)
  have t: "table_ok g n (rr_occurrences st)" using inv by (simp add: span_inv_def)
  have "rr_occurrences st = []"
  proof (cases "rr_occurrences st")
    case (Cons e es)
    then have "entry_ok g n e" using t by (simp add: table_ok_def)
    then show ?thesis using none by (simp add: entry_ok_def Let_def)
  qed
  then show "span_inv g (Suc n) (st\<lparr> rr_processed := Suc n, rr_hash := passage_hash (recent g (Suc n)) \<rparr>)"
    using inv l three cov none by (auto simp: span_inv_def table_ok_def cover_ok_def)
qed

lemma rr_same_passage:
  assumes t: "table_ok g n es" and x: "x \<in> set es" and b: "bn + rr_window = Suc n" and n: "n < k"
  shows "rr_same (take k g) (passage_hash (passage g bn)) bn x \<longleftrightarrow> passage g bn = passage g (oc_first_begin (snd x))"
proof -
  have e: "entry_ok g n x" using t x by (simp add: table_ok_def)
  then have f: "oc_first_begin (snd x) + rr_window \<le> n" "fst x = passage_hash (passage g (oc_first_begin (snd x)))"
    by (simp_all add: entry_ok_def Let_def)
  have p: "passage (take k g) bn = passage g bn" "passage (take k g) (oc_first_begin (snd x)) = passage g (oc_first_begin (snd x))"
    using passage_prefix b n f(1) by simp_all
  show ?thesis unfolding rr_same_def passage_def [symmetric] p f(2) by auto
qed

lemma copied_first:
  assumes e: "entry_ok g n e" and eq: "passage g bn = passage g (oc_first_begin (snd e))"
  shows "copied g bn \<longleftrightarrow> oc_first_begin (snd e) + rr_window \<le> bn"
proof -
  let ?f = "oc_first_begin (snd e)"
  have first: "\<forall>a<?f. passage g a \<noteq> passage g ?f" using e unfolding entry_ok_def Let_def by (elim conjE)
  show ?thesis
  proof
    assume "copied g bn"
    then obtain a where a: "a + rr_window \<le> bn" "passage g a = passage g bn" by (auto simp: copied_def)
    have "\<not> a < ?f" using first a(2) eq by metis
    then show "?f + rr_window \<le> bn" using a(1) by simp
  next
    assume "?f + rr_window \<le> bn"
    then show "copied g bn" using eq by (auto simp: copied_def)
  qed
qed

lemma three_copies_bump:
  assumes t: "table_ok g n es" and b: "bn + rr_window = Suc n"
    and P: "\<And>x. x \<in> set es \<Longrightarrow> P x \<longleftrightarrow> passage g bn = passage g (oc_first_begin (snd x))"
    and f: "find P es = Some e"
  shows "three_copies g (Suc n) \<longleftrightarrow>
    three_copies g n \<or> Suc n - oc_last_end (snd e) \<ge> rr_window \<and> oc_copies (rr_bump (Suc n) (snd e)) \<ge> 3"
proof -
  have e: "e \<in> set es" using f by (auto simp: find_Some_iff)
  let ?es = "rr_update P (rr_bump (Suc n)) es"
  have new: "table_ok g (Suc n) ?es" "set ?es = insert (fst e, rr_bump (Suc n) (snd e)) {x \<in> set es. \<not> P x}"
    using table_ok_bump [OF t b _ f] P by simp_all
  have three: "three_copies g (Suc n) \<longleftrightarrow> oc_copies (rr_bump (Suc n) (snd e)) \<ge> 3 \<or> (\<exists>x\<in>set es. \<not> P x \<and> oc_copies (snd x) \<ge> 3)"
    unfolding three_copies_table [OF new(1)] new(2) by (simp only: bex_simps snd_conv) blast
  have more: "oc_copies (snd e) \<le> oc_copies (rr_bump (Suc n) (snd e))" by (simp add: rr_bump_def)
  have same: "\<not> Suc n - oc_last_end (snd e) \<ge> rr_window \<Longrightarrow> oc_copies (rr_bump (Suc n) (snd e)) = oc_copies (snd e)"
    by (simp add: rr_bump_def)
  show ?thesis
  proof
    assume "three_copies g (Suc n)"
    then consider "oc_copies (rr_bump (Suc n) (snd e)) \<ge> 3" | x where "x \<in> set es" "oc_copies (snd x) \<ge> 3"
      using three by blast
    then show "three_copies g n \<or> Suc n - oc_last_end (snd e) \<ge> rr_window \<and> oc_copies (rr_bump (Suc n) (snd e)) \<ge> 3"
    proof cases
      case 1
      show ?thesis
      proof (cases "Suc n - oc_last_end (snd e) \<ge> rr_window")
        case False
        then have "oc_copies (snd e) \<ge> 3" using 1 same by simp
        then show ?thesis using e three_copies_table [OF t] by blast
      qed (use 1 in simp)
    next
      case 2
      then show ?thesis using three_copies_table [OF t] by blast
    qed
  next
    assume "three_copies g n \<or> Suc n - oc_last_end (snd e) \<ge> rr_window \<and> oc_copies (rr_bump (Suc n) (snd e)) \<ge> 3"
    moreover have "three_copies g n \<Longrightarrow> three_copies g (Suc n)" by (rule three_copies_mono) (assumption, simp)
    ultimately show "three_copies g (Suc n)" using three by blast
  qed
qed

text \<open>What one step does to each field, over the first \<open>k\<close> tokens of \<open>g\<close>.\<close>

lemma rr_step_long:
  assumes "rr_processed st = n" "rr_roll g n (rr_hash st) = h" "\<not> Suc n < rr_window"
    and "P = rr_same g h (Suc n - rr_window)"
  shows "find P (rr_occurrences st) = None \<Longrightarrow> rr_step g st =
      (st\<lparr> rr_processed := Suc n, rr_hash := h, rr_occurrences := rr_occurrences st @
         [(h, \<lparr> oc_first_begin = Suc n - rr_window, oc_last_end = Suc n, oc_copies = 1 \<rparr>)] \<rparr>, False)"
    and "find P (rr_occurrences st) = Some e \<Longrightarrow> again = (Suc n - rr_window \<ge> oc_first_begin (snd e) + rr_window) \<Longrightarrow>
      t' = (if again then rr_repeated_tokens st + (Suc n - max (Suc n - rr_window) (rr_covered_end st)) else rr_repeated_tokens st) \<Longrightarrow>
      c' = (if again then Suc n else rr_covered_end st) \<Longrightarrow>
      three = (rr_has_three st \<or> (Suc n - oc_last_end (snd e) \<ge> rr_window \<and> oc_copies (rr_bump (Suc n) (snd e)) \<ge> 3)) \<Longrightarrow>
      rr_step g st = (st\<lparr> rr_processed := Suc n, rr_hash := h, rr_repeated_tokens := t', rr_covered_end := c',
         rr_has_three := three, rr_occurrences := rr_update P (rr_bump (Suc n)) (rr_occurrences st) \<rparr>,
         three \<and> t' \<ge> minimum_repeated_tokens)"
  using assms by (simp_all add: rr_step_def Let_def)

lemma span_inv_step:
  assumes inv: "span_inv g n st" and n: "n < k" "k \<le> length g" and step: "rr_step (take k g) st = (st', hit)"
  shows "span_inv g (Suc n) st' \<and> (hit \<longrightarrow> alarm g (Suc n)) \<and> (alarm g (Suc n) \<longrightarrow> hit \<or> alarm g n)"
proof -
  have proc: "rr_processed st = n" and t: "table_ok g n (rr_occurrences st)"
    and c: "cover_ok g n (rr_repeated_tokens st) (rr_covered_end st)" and three: "rr_has_three st \<longleftrightarrow> three_copies g n"
    using inv by (simp_all add: span_inv_def)
  define h where "h = passage_hash (recent g (Suc n))"
  have "rr_roll (take k g) n (rr_hash st) = rr_roll g n (rr_hash st)" using n by (simp add: rr_roll_def)
  then have h: "rr_roll (take k g) n (rr_hash st) = h"
    using rr_roll_recent [of n g] inv n by (simp add: h_def span_inv_def)
  show ?thesis
  proof (cases "Suc n < rr_window")
    case True
    then show ?thesis using step span_inv_short [OF inv] n by (auto simp: rr_step_def Let_def proc h h_def)
  next
    case False
    define bn where "bn = Suc n - rr_window"
    have b: "bn + rr_window = Suc n" using False by (simp add: bn_def)
    have hb: "h = passage_hash (passage g bn)"
      using recent_passage [of "Suc n" g] False n by (simp add: h_def bn_def)
    define P where "P = rr_same (take k g) h bn"
    have P: "\<And>x. x \<in> set (rr_occurrences st) \<Longrightarrow> P x \<longleftrightarrow> passage g bn = passage g (oc_first_begin (snd x))"
      unfolding P_def hb by (rule rr_same_passage [OF t _ b n(1)])
    note long = rr_step_long [OF proc h False P_def [unfolded bn_def], folded bn_def]
    show ?thesis
    proof (cases "find P (rr_occurrences st)")
      case None
      have no: "passage g bn \<noteq> passage g (oc_first_begin (snd x))" if "x \<in> set (rr_occurrences st)" for x
        using None P [OF that] that unfolding find_None_iff by blast
      have new: "table_ok g (Suc n) (rr_occurrences st @ [(h, \<lparr> oc_first_begin = bn, oc_last_end = Suc n, oc_copies = 1 \<rparr>)])"
          "\<not> copied g bn"
        using table_ok_new [OF t b] no unfolding hb by simp_all
      have "three_copies g (Suc n) \<longleftrightarrow> three_copies g n"
        unfolding three_copies_table [OF t] three_copies_table [OF new(1)] by auto
      moreover have "covered g (Suc n) = covered g n" using covered_step [OF b, of g] new(2) by simp
      moreover have "cover_ok g (Suc n) (rr_repeated_tokens st) (rr_covered_end st)"
        using cover_ok_step [OF c b] new(2) by simp
      ultimately show ?thesis using step n new(1) three unfolding long(1) [OF None]
        by (auto simp: span_inv_def alarm_def h_def)
    next
      case (Some e)
      have e: "e \<in> set (rr_occurrences st)" "P e" using Some by (auto simp: find_Some_iff)
      have ok: "entry_ok g n e" using t e by (simp add: table_ok_def)
      have again: "copied g bn \<longleftrightarrow> oc_first_begin (snd e) + rr_window \<le> bn"
        using copied_first [OF ok] P [OF e(1)] e(2) by simp
      define t' where "t' = (if copied g bn then rr_repeated_tokens st + (Suc n - max bn (rr_covered_end st)) else rr_repeated_tokens st)"
      define c' where "c' = (if copied g bn then Suc n else rr_covered_end st)"
      have res: "rr_step (take k g) st = (st\<lparr> rr_processed := Suc n, rr_hash := h, rr_repeated_tokens := t', rr_covered_end := c',
         rr_has_three := three_copies g (Suc n), rr_occurrences := rr_update P (rr_bump (Suc n)) (rr_occurrences st) \<rparr>,
         three_copies g (Suc n) \<and> t' \<ge> minimum_repeated_tokens)"
        using three_copies_bump [OF t b P Some] three by (intro long(2) [OF Some again t'_def c'_def]) simp
      have "cover_ok g (Suc n) t' c'" unfolding t'_def c'_def by (rule cover_ok_step [OF c b])
      then show ?thesis using step n table_ok_bump(1) [OF t b P Some] unfolding res
        by (auto simp: span_inv_def alarm_def h_def cover_ok_def)
    qed
  qed
qed

section \<open>A generation observed prefix by prefix\<close>

lemma span_inv_loop:
  assumes "span_inv g n st" "n \<le> k" "k \<le> length g" "\<not> alarm g n"
  shows "(snd (rr_loop (take k g) st) \<longleftrightarrow> alarm g k) \<and>
    (\<not> alarm g k \<longrightarrow> span_inv g k (fst (rr_loop (take k g) st)))"
  using assms
proof (induction "k - n" arbitrary: n st)
  case 0
  then have "rr_processed st = k" by (simp add: span_inv_def)
  then show ?case using 0 rr_loop.simps [of "take k g" st] by simp
next
  case (Suc d)
  obtain st' hit where step: "rr_step (take k g) st = (st', hit)" by fastforce
  have n: "n < k" using Suc.hyps(2) by simp
  have one: "span_inv g (Suc n) st'" "hit \<longleftrightarrow> alarm g (Suc n)"
    using span_inv_step [OF Suc.prems(1) n Suc.prems(3) step] Suc.prems(4) by blast+
  have loop: "rr_loop (take k g) st = (if hit then (st', True) else rr_loop (take k g) st')"
    using rr_loop.simps [of "take k g" st] step n Suc.prems by (simp add: span_inv_def)
  show ?case
  proof (cases hit)
    case True
    then have "alarm g k" using alarm_mono one(2) n by simp
    then show ?thesis using True loop by simp
  next
    case False
    have "d = k - Suc n" using Suc.hyps(2) by simp
    then show ?thesis using Suc.hyps(1) [OF _ one(1)] one(2) n Suc.prems(3) False loop by simp
  qed
qed

definition feed :: "u32 list \<Rightarrow> nat list \<Rightarrow> repeated_span" where
  "feed g ks = foldl (\<lambda>st k. fst (rr_observe st (take k g))) rr_fresh ks"

lemma not_alarm_0: "\<not> alarm g 0"
  using rr_window_pos(1) by (simp add: alarm_def three_copies_def)

lemma span_inv_fresh: "span_inv g 0 rr_fresh"
  using rr_window_pos(1) not_alarm_0
  by (simp add: span_inv_def rr_fresh_def table_ok_def cover_ok_def recent_def passage_hash_def covered_def three_copies_def)

lemma span_inv_observe:
  assumes "span_inv g n st" "n \<le> k" "k \<le> length g" "\<not> alarm g n"
  shows "(snd (rr_observe st (take k g)) \<longleftrightarrow> alarm g k) \<and>
    (\<not> alarm g k \<longrightarrow> span_inv g k (fst (rr_observe st (take k g))))"
proof -
  have "rr_observe st (take k g) = rr_loop (take k g) st" using assms by (simp add: rr_observe_def span_inv_def)
  then show ?thesis using span_inv_loop [OF assms] by simp
qed

lemma span_inv_feed:
  assumes "sorted ks" "\<forall>k\<in>set ks. k \<le> length g" "ks \<noteq> [] \<Longrightarrow> \<not> alarm g (last ks)"
  shows "span_inv g (if ks = [] then 0 else last ks) (feed g ks)"
  using assms
proof (induction ks rule: rev_induct)
  case Nil
  show ?case using span_inv_fresh by (simp add: feed_def)
next
  case (snoc k ks)
  let ?n = "if ks = [] then 0 else last ks"
  have sub: "sorted ks" "\<forall>k\<in>set ks. k \<le> length g" and nk: "?n \<le> k"
    using snoc.prems by (auto simp: sorted_append)
  have quiet: "\<not> alarm g k" using snoc.prems(3) by simp
  then have n: "\<not> alarm g ?n" using alarm_mono nk by blast
  then have "span_inv g ?n (feed g ks)" using sub not_alarm_0 by (intro snoc.IH) (auto split: if_splits)
  then have "span_inv g k (fst (rr_observe (feed g ks) (take k g)))"
    using span_inv_observe [OF _ nk _ n] snoc.prems(2) quiet by simp
  then show ?case by (simp add: feed_def)
qed

lemma alarm_replicate: "alarm (replicate 5000 t) 5000"
proof -
  have p: "passage (replicate 5000 t) b = replicate rr_window t" if "b + rr_window \<le> 5000" for b
    using that by (simp add: passage_def)
  have "three_copies (replicate 5000 t) 5000" unfolding three_copies_def
    by (intro exI [of _ 0] exI [of _ 256] exI [of _ 512]) (simp add: p rr_window_def passage_def)
  moreover have "{256..<5000} \<subseteq> covered (replicate 5000 t) 5000"
  proof
    fix i :: nat assume i: "i \<in> {256..<5000}"
    define b where "b = min i (5000 - rr_window)"
    have "b + rr_window \<le> 5000" "rr_window \<le> b" "b \<le> i" "i < b + rr_window"
      using i by (auto simp: b_def rr_window_def)
    then show "i \<in> covered (replicate 5000 t) 5000" unfolding covered_def using p [of 0] p [of b]
      by (intro CollectI exI [of _ 0] exI [of _ b]) simp
  qed
  then have "card {256..<5000::nat} \<le> card (covered (replicate 5000 t) 5000)" by (rule card_mono [OF covered_finite])
  ultimately show ?thesis by (simp add: alarm_def minimum_repeated_tokens_def)
qed

lemma alarm_long: "alarm g n \<Longrightarrow> 768 \<le> n"
  by (auto simp: alarm_def three_copies_def rr_window_def)

section \<open>Properties\<close>

text \<open>
  C5: the detector of repeated reasoning, fed the growing prefixes of a generation, fires exactly on
  the first prefix in which some passage of 256 tokens has three disjoint copies and at least 4096
  tokens lie in a passage that repeats an earlier disjoint one.
\<close>

theorem repeated_span_exact:
  assumes "sorted (ks @ [k])" "k \<le> length g" "ks \<noteq> [] \<Longrightarrow> \<not> alarm g (last ks)"
  shows "snd (rr_observe (feed g ks) (take k g)) \<longleftrightarrow>
    three_copies g k \<and> minimum_repeated_tokens \<le> card (covered g k)"
proof -
  let ?n = "if ks = [] then 0 else last ks"
  have ks: "sorted ks" "\<forall>j\<in>set ks. j \<le> length g" "?n \<le> k" using assms(1,2) by (auto simp: sorted_append)
  have "\<not> alarm g ?n" using assms(3) not_alarm_0 by simp
  then show ?thesis
    using span_inv_observe [OF span_inv_feed [OF ks(1,2) assms(3)] ks(3) assms(2)] by (simp add: alarm_def)
qed

theorem repeated_span_exact_witness:
  "snd (rr_observe (feed (replicate 5000 7) [40, 700]) (take 5000 (replicate 5000 7)))"
proof -
  have "\<not> alarm (replicate 5000 7) 700" using alarm_long [of _ 700] by fastforce
  then have "snd (rr_observe (feed (replicate 5000 7) [40, 700]) (take 5000 (replicate 5000 7))) \<longleftrightarrow> alarm (replicate 5000 7) 5000"
    using repeated_span_exact [of "[40, 700]" 5000 "replicate 5000 7"] unfolding alarm_def by simp
  then show ?thesis using alarm_replicate by simp
qed

text \<open>
  C31: the near-period search returns the least period between the bounds at which the suffix of the
  generation is a square up to one mismatch per 256 tokens, with the token that would continue the
  repetition, and returns nothing exactly when there is no such period.
\<close>

theorem least_square_period_least:
  "least_square_period g lo hi =
    (if 0 < lo \<and> (\<exists>p. lo \<le> p \<and> p \<le> hi \<and> near_square g p)
     then let p = LEAST p. lo \<le> p \<and> near_square g p in Some (p, g ! (length g - p))
     else None)"
proof -
  let ?hi = "min hi (length g div 2)"
  have ex: "(\<exists>p. lo \<le> p \<and> p \<le> ?hi \<and> near_square g p) \<longleftrightarrow> (\<exists>p. lo \<le> p \<and> p \<le> hi \<and> near_square g p)"
    by (auto simp: near_square_def)
  have guard: "lo \<le> hi \<and> 2 * lo \<le> length g" if "\<exists>p. lo \<le> p \<and> p \<le> hi \<and> near_square g p"
    using that by (auto simp: near_square_def)
  show ?thesis
  proof (cases "lo = 0 \<or> lo > hi \<or> length g < 2 * lo")
    case True
    have no: "\<not> (0 < lo \<and> (\<exists>p. lo \<le> p \<and> p \<le> hi \<and> near_square g p))"
    proof
      assume "0 < lo \<and> (\<exists>p. lo \<le> p \<and> p \<le> hi \<and> near_square g p)"
      then show False using guard True by simp
    qed
    have "least_square_period g lo hi = None" using True by (simp add: least_square_period_def)
    then show ?thesis by (simp only: if_not_P [OF no])
  next
    case False
    then have "least_square_period g lo hi = period_loop g lo ?hi" by (simp add: least_square_period_def Let_def)
    then show ?thesis using period_loop_least [of ?hi g lo] False unfolding ex by simp
  qed
qed

end
