(* ===== verification/Crc32c.thy ===== *)
theory Crc32c
  imports Byte_Codec
begin

text \<open>
  The record checksums of the disk tier (\<^verbatim>\<open>kv_disk_cache.cpp\<close>): the table-free software CRC-32C, the
  SSE4.2 path, the three-stream path for large inputs, and the combination of two finished
  checksums by matrix powers. The theory shows that all of them compute the one bit-serial checksum.

  The processor's CRC instructions are a parameter. What the code relies on is stated in \<open>cpu_ok\<close>:
  an instruction divides the accumulator, its operand fed least significant bit first, by the
  reflected Castagnoli polynomial.
\<close>

section \<open>Software\<close>

definition crc_bit :: "u32 \<Rightarrow> u32" where
  "crc_bit crc = drop_bit 1 crc XOR (0x82F63B78 AND (- (crc AND 1)))"

definition crc32c_update_software :: "u32 \<Rightarrow> u8 list \<Rightarrow> u32" where
  "crc32c_update_software crc bytes = foldl (\<lambda>crc b. (crc_bit ^^ 8) (crc XOR ucast b)) crc bytes"

section \<open>Hardware\<close>

record crc_cpu =
  mm_crc32_u64 :: "u64 \<Rightarrow> u64 \<Rightarrow> u64"
  mm_crc32_u32 :: "u32 \<Rightarrow> u32 \<Rightarrow> u32"
  mm_crc32_u16 :: "u32 \<Rightarrow> 16 word \<Rightarrow> u32"
  mm_crc32_u8 :: "u32 \<Rightarrow> u8 \<Rightarrow> u32"

text \<open>\<^verbatim>\<open>memcpy\<close> of the next bytes into an integer of a little-endian host.\<close>

definition load_le :: "u8 list \<Rightarrow> 'a :: len word" where
  "load_le bs = of_nat (le_value bs)"

function hw_words :: "crc_cpu \<Rightarrow> u32 \<Rightarrow> u8 list \<Rightarrow> u32 \<times> u8 list" where
  "hw_words cpu crc bytes =
     (if length bytes \<ge> 8
      then hw_words cpu (ucast (mm_crc32_u64 cpu (ucast crc) (load_le (take 8 bytes)))) (drop 8 bytes)
      else (crc, bytes))"
  by auto
termination by (relation "measure (\<lambda>(_, _, bytes). length bytes)") auto

definition crc32c_update_hardware :: "crc_cpu \<Rightarrow> u32 \<Rightarrow> u8 list \<Rightarrow> u32" where
  "crc32c_update_hardware cpu crc bytes =
     (let (crc, bytes) = hw_words cpu crc bytes;
          (crc, bytes) = (if length bytes \<ge> 4
            then (mm_crc32_u32 cpu crc (load_le (take 4 bytes)), drop 4 bytes) else (crc, bytes));
          (crc, bytes) = (if length bytes \<ge> 2
            then (mm_crc32_u16 cpu crc (load_le (take 2 bytes)), drop 2 bytes) else (crc, bytes))
      in if bytes \<noteq> [] then mm_crc32_u8 cpu crc (hd bytes) else crc)"

text \<open>The processor, or \<open>None\<close> when it has no SSE4.2.\<close>

definition crc32c_update :: "crc_cpu option \<Rightarrow> u32 \<Rightarrow> u8 list \<Rightarrow> u32" where
  "crc32c_update hardware crc bytes =
     (case hardware of Some cpu \<Rightarrow> crc32c_update_hardware cpu crc bytes
      | None \<Rightarrow> crc32c_update_software crc bytes)"

section \<open>Combination\<close>

text \<open>The matrix is the array of its 32 columns; a 32-bit vector never reads past them.\<close>

fun matrix_loop :: "u32 \<Rightarrow> u32 list \<Rightarrow> u32 \<Rightarrow> u32" where
  "matrix_loop result [] vector = result"
| "matrix_loop result (col # cols) vector =
     (if vector = 0 then result
      else matrix_loop (if vector AND 1 \<noteq> 0 then result XOR col else result) cols (drop_bit 1 vector))"

definition crc32c_matrix_times :: "u32 list \<Rightarrow> u32 \<Rightarrow> u32" where
  "crc32c_matrix_times matrix vector = matrix_loop 0 matrix vector"

definition crc32c_matrix_square :: "u32 list \<Rightarrow> u32 list" where
  "crc32c_matrix_square matrix = map (\<lambda>i. crc32c_matrix_times matrix (matrix ! i)) [0..<32]"

function combine_loop :: "u32 list \<Rightarrow> u32 \<Rightarrow> u64 \<Rightarrow> u32" where
  "combine_loop odd_m left right_bytes =
     (let even_m = crc32c_matrix_square odd_m;
          left = (if right_bytes AND 1 \<noteq> 0 then crc32c_matrix_times even_m left else left);
          right_bytes = drop_bit 1 right_bytes
      in if right_bytes = 0 then left
         else
           let odd_m = crc32c_matrix_square even_m;
               left = (if right_bytes AND 1 \<noteq> 0 then crc32c_matrix_times odd_m left else left);
               right_bytes = drop_bit 1 right_bytes
           in if right_bytes \<noteq> 0 then combine_loop odd_m left right_bytes else left)"
  by auto
termination
proof (relation "measure (\<lambda>(_, _, n). unat n)")
  fix odd_m :: "u32 list" and left :: u32 and right_bytes :: u64
  fix even_m left' n odd_m' left'' n'
  assume n: "n = drop_bit 1 right_bytes" "n \<noteq> 0" "n' = drop_bit (1 :: nat) n" "n' \<noteq> 0"
  have "unat n' = unat n div 2" "unat n = unat right_bytes div 2"
    unfolding n(1,3) by (simp_all add: drop_bit_Suc unat_div)
  moreover have "unat n \<noteq> 0" using n(2) by (simp add: unat_eq_0)
  ultimately have "unat n' < unat right_bytes" by linarith
  then show "((odd_m', left'', n'), odd_m, left, right_bytes) \<in> measure (\<lambda>(_, _, n). unat n)" by simp
qed simp

definition crc32c_combine :: "u32 \<Rightarrow> u32 \<Rightarrow> u64 \<Rightarrow> u32" where
  "crc32c_combine left right right_bytes =
     (if right_bytes = 0 then left
      else
        let odd_m = 0x82F63B78 # map (\<lambda>b. push_bit b 1) [0..<31];
            even_m = crc32c_matrix_square odd_m;
            odd_m = crc32c_matrix_square even_m
        in combine_loop odd_m left right_bytes XOR right)"

section \<open>Whole inputs\<close>

function three_loop :: "crc_cpu \<Rightarrow> u8 list \<Rightarrow> u8 list \<Rightarrow> u8 list \<Rightarrow> nat \<Rightarrow> nat \<Rightarrow> u32 \<times> u32 \<times> u32 \<Rightarrow> u32 \<times> u32 \<times> u32" where
  "three_loop cpu first second third off block (crc_first, crc_second, crc_third) =
     (if off < block then
        let step = (\<lambda>crc bytes. ucast (mm_crc32_u64 cpu (ucast crc) (load_le (take 8 (drop off bytes)))))
        in three_loop cpu first second third (off + 8) block
             (step crc_first first, step crc_second second, step crc_third third)
      else (crc_first, crc_second, crc_third))"
  by pat_completeness auto
termination by (relation "measure (\<lambda>(_, _, _, _, off, block, _). block - off)") auto

definition crc32c_three_way_hardware :: "crc_cpu \<Rightarrow> u8 list \<Rightarrow> u32" where
  "crc32c_three_way_hardware cpu bytes =
     (let block = length bytes div 3 div 8 * 8;
          first = bytes; second = drop block first; third = drop block second;
          (crc_first, crc_second, crc_third) = three_loop cpu first second third 0 block (-1, -1, -1);
          crc_third = crc32c_update_hardware cpu crc_third (drop (3 * block) bytes);
          first_second = crc32c_combine (NOT crc_first) (NOT crc_second) (of_nat block)
      in crc32c_combine first_second (NOT crc_third) (of_nat (length bytes - 2 * block)))"

definition kParallelCrcMinBytes :: nat where "kParallelCrcMinBytes = 512 * 2 ^ 10"

definition crc32c :: "crc_cpu option \<Rightarrow> u8 list \<Rightarrow> u32" where
  "crc32c hardware bytes =
     (case hardware of
        Some cpu \<Rightarrow> if length bytes \<ge> kParallelCrcMinBytes then crc32c_three_way_hardware cpu bytes
                    else NOT (crc32c_update hardware (-1) bytes)
      | None \<Rightarrow> NOT (crc32c_update hardware (-1) bytes))"

text \<open>A part is a buffer, or \<open>None\<close> for a null pointer.\<close>

definition crc32c_parts :: "crc_cpu option \<Rightarrow> u8 list option list \<Rightarrow> u32" where
  "crc32c_parts hardware parts =
     NOT (foldl (\<lambda>crc part. case part of None \<Rightarrow> crc
            | Some bytes \<Rightarrow> if bytes = [] then crc else crc32c_update hardware crc bytes) (-1) parts)"

declare hw_words.simps [simp del] combine_loop.simps [simp del] three_loop.simps [simp del]

section \<open>The bit-serial register\<close>

definition crc_serial :: "u32 \<Rightarrow> bool list \<Rightarrow> u32" where
  "crc_serial crc bs = foldl (\<lambda>c b. crc_bit (c XOR of_bool b)) crc bs"

definition word_bits :: "'a :: len word \<Rightarrow> bool list" where
  "word_bits w = map (bit w) [0..<LENGTH('a)]"

definition message_bits :: "u8 list \<Rightarrow> bool list" where
  "message_bits bytes = concat (map word_bits bytes)"

definition cpu_ok :: "crc_cpu \<Rightarrow> bool" where
  "cpu_ok cpu \<longleftrightarrow>
     (\<forall>c v. mm_crc32_u64 cpu (ucast c) v = ucast (crc_serial c (word_bits v))) \<and>
     (\<forall>c v. mm_crc32_u32 cpu c v = crc_serial c (word_bits v)) \<and>
     (\<forall>c v. mm_crc32_u16 cpu c v = crc_serial c (word_bits v)) \<and>
     (\<forall>c v. mm_crc32_u8 cpu c v = crc_serial c (word_bits v))"

definition hardware_ok :: "crc_cpu option \<Rightarrow> bool" where
  "hardware_ok hardware \<longleftrightarrow> (case hardware of None \<Rightarrow> True | Some cpu \<Rightarrow> cpu_ok cpu)"

lemma crc_bit_if: "crc_bit c = drop_bit 1 c XOR (if bit c 0 then 0x82F63B78 else 0)"
proof (cases "bit c 0")
  case True
  then have "c AND 1 = 1" by (simp add: bit_0 and_one_eq odd_iff_mod_2_eq_one)
  then show ?thesis unfolding crc_bit_def using True by simp
next
  case False
  then have "c AND 1 = 0" by (simp add: bit_0 and_one_eq even_iff_mod_2_eq_zero)
  then show ?thesis unfolding crc_bit_def using False by simp
qed

lemma crc_bit_xor: "crc_bit (x XOR y) = crc_bit x XOR crc_bit y"
proof -
  have "crc_bit (x XOR y) = drop_bit 1 x XOR drop_bit 1 y XOR (if bit x 0 \<noteq> bit y 0 then 0x82F63B78 else 0)"
    unfolding crc_bit_if drop_bit_xor bit_xor_iff by (simp only: xor.assoc)
  also have "\<dots> = (drop_bit 1 x XOR (if bit x 0 then 0x82F63B78 else 0)) XOR (drop_bit 1 y XOR (if bit y 0 then 0x82F63B78 else 0))"
    by (cases "bit x 0"; cases "bit y 0") (simp_all add: ac_simps)
  finally show ?thesis by (simp only: crc_bit_if)
qed

lemma crc_bit_0 [simp]: "crc_bit 0 = 0"
  by (simp add: crc_bit_if)

lemma crc_bits_xor: "(crc_bit ^^ n) (x XOR y) = (crc_bit ^^ n) x XOR (crc_bit ^^ n) y"
  by (induction n) (simp_all add: crc_bit_xor)

lemma crc_bits_0 [simp]: "(crc_bit ^^ n) 0 = 0"
  by (induction n) simp_all

lemma bit_double: "bit (push_bit 1 (w :: u32)) i \<longleftrightarrow> 0 < i \<and> i < 32 \<and> bit w (i - 1)"
  unfolding bit_push_bit_iff by auto

lemma crc_bit_shift: "\<not> bit w 31 \<Longrightarrow> crc_bit (push_bit 1 w) = w"
proof -
  assume w: "\<not> bit w 31"
  define d where "d = push_bit 1 w"
  have d: "bit d i \<longleftrightarrow> 0 < i \<and> i < 32 \<and> bit w (i - 1)" for i unfolding d_def by (rule bit_double)
  have "bit (drop_bit 1 d) i \<longleftrightarrow> bit w i" for i
  proof (cases "i < 31")
    case False
    have "\<not> bit w i"
    proof (cases "i = 31")
      case False
      then show ?thesis using bit_imp_le_length [of w i] \<open>\<not> i < 31\<close> by auto
    qed (use w in simp)
    moreover have "\<not> 1 + i < 32" using False by simp
    ultimately show ?thesis unfolding bit_drop_bit_eq comp_apply d by blast
  qed (simp add: bit_drop_bit_eq d)
  then have "drop_bit 1 d = w" by (rule bit_word_eqI)
  moreover have "\<not> bit d 0" by (simp only: d) simp
  ultimately show "crc_bit (push_bit 1 w) = w" unfolding d_def [symmetric] crc_bit_if by simp
qed

lemma word_low_bit: "w = of_bool (bit w 0) XOR push_bit 1 (drop_bit 1 (w :: u32))"
proof (rule bit_word_eqI)
  fix i assume "i < LENGTH(32)"
  then show "bit w i \<longleftrightarrow> bit (of_bool (bit w 0) XOR push_bit 1 (drop_bit 1 w)) i"
    unfolding bit_xor_iff bit_double by (cases "i = 0") (simp_all add: bit_drop_bit_eq bit_of_bool_iff)
qed

lemma crc_block:
  assumes "\<And>i. i \<ge> n \<Longrightarrow> \<not> bit w i"
  shows "(crc_bit ^^ n) (crc XOR w) = crc_serial crc (map (bit w) [0..<n])"
  using assms
proof (induction n arbitrary: crc w)
  case 0
  then have "w = 0" by (auto intro: bit_word_eqI)
  then show ?case by (simp add: crc_serial_def)
next
  case (Suc n)
  let ?w = "drop_bit 1 w" and ?c = "crc_bit (crc XOR of_bool (bit w 0))"
  have "\<not> bit ?w 31" using bit_imp_le_length [of w 32] by (auto simp: bit_drop_bit_eq)
  then have sh: "crc_bit (push_bit 1 ?w) = ?w" by (rule crc_bit_shift)
  have "crc XOR w = (crc XOR of_bool (bit w 0)) XOR push_bit 1 ?w"
    using arg_cong [OF word_low_bit [of w], of "\<lambda>x. crc XOR x"] unfolding xor.assoc .
  then have "crc_bit (crc XOR w) = ?c XOR ?w" using crc_bit_xor [of "crc XOR of_bool (bit w 0)" "push_bit 1 ?w"] sh
    by (simp only:)
  moreover have "(crc_bit ^^ n) (?c XOR ?w) = crc_serial ?c (map (bit ?w) [0..<n])"
    by (rule Suc.IH) (use Suc.prems in \<open>simp add: bit_drop_bit_eq\<close>)
  moreover have "map (bit w) [0..<Suc n] = bit w 0 # map (bit ?w) [0..<n]"
    by (simp add: map_upt_Suc bit_drop_bit_eq comp_def del: upt_Suc)
  ultimately show ?case by (simp add: funpow_swap1 crc_serial_def del: upt_Suc)
qed

lemma crc_serial_append: "crc_serial crc (bs @ cs) = crc_serial (crc_serial crc bs) cs"
  by (simp add: crc_serial_def)

lemma crc_byte: "(crc_bit ^^ 8) (crc XOR ucast b) = crc_serial crc (word_bits (b :: u8))"
proof -
  have "map (bit (ucast b :: u32)) [0..<8] = word_bits b" by (simp add: word_bits_def bit_unsigned_iff)
  moreover have "\<not> bit (ucast b :: u32) i" if "i \<ge> 8" for i using that bit_imp_le_length [of b i] by (auto simp: bit_unsigned_iff)
  ultimately show ?thesis using crc_block [of 8 "ucast b" crc] by simp
qed

lemma software_serial: "crc32c_update_software crc bytes = crc_serial crc (message_bits bytes)"
  by (induction bytes arbitrary: crc)
    (simp_all add: crc32c_update_software_def message_bits_def crc_byte crc_serial_append, simp add: crc_serial_def)

section \<open>The hardware paths\<close>

lemma bit_le_Cons:
  "bit (unat b + 256 * x) i \<longleftrightarrow> (if i < 8 then bit (b :: u8) i else bit x (i - 8))"
proof (cases "i < 8")
  case True
  have "take_bit 8 (unat b + 256 * x) = unat b" using unat_word_bound [of b] by (simp add: take_bit_eq_mod)
  then have "bit (unat b + 256 * x) i \<longleftrightarrow> bit (unat b) i" using True bit_take_bit_iff [of 8 "unat b + 256 * x" i] by simp
  then show ?thesis using True by (simp add: bit_unsigned_iff)
next
  case False
  have "drop_bit 8 (unat b + 256 * x) = x" using unat_word_bound [of b] by (simp add: drop_bit_eq_div)
  then have "bit x (i - 8) \<longleftrightarrow> bit (unat b + 256 * x) (8 + (i - 8))" by (metis bit_drop_bit_eq comp_apply)
  then show ?thesis using False by simp
qed

lemma le_value_bits: "map (bit (le_value bs)) [0..<8 * length bs] = message_bits bs"
proof (induction bs)
  case (Cons b bs)
  let ?v = "unat b + 256 * le_value bs"
  have "[0..<8 * length (b # bs)] = [0..<8] @ map (\<lambda>i. i + 8) [0..<8 * length bs]"
    using upt_add_eq_append [of 0 8 "8 * length bs"] map_add_upt [of 8 "8 * length bs"] by (simp add: add.commute)
  moreover have "map (bit ?v) [0..<8] = word_bits b" by (simp add: word_bits_def bit_le_Cons)
  moreover have "map (bit ?v \<circ> (\<lambda>i. i + 8)) [0..<8 * length bs] = map (bit (le_value bs)) [0..<8 * length bs]"
    by (simp add: bit_le_Cons)
  ultimately show ?case using Cons by (simp add: message_bits_def)
qed (simp add: message_bits_def)

lemma load_le_bits:
  assumes "LENGTH('a :: len) = 8 * length bs"
  shows "word_bits (load_le bs :: 'a word) = message_bits bs"
proof -
  have "map (bit (load_le bs :: 'a word)) [0..<LENGTH('a)] = map (bit (le_value bs)) [0..<LENGTH('a)]"
    by (rule map_cong) (simp_all add: load_le_def bit_of_nat_iff)
  then show ?thesis using le_value_bits [of bs] by (simp only: word_bits_def assms)
qed

lemma message_bits_append: "message_bits (xs @ ys) = message_bits xs @ message_bits ys"
  by (simp add: message_bits_def)

lemma ucast_back: "ucast (ucast (w :: u32) :: u64) = w"
  by (rule bit_word_eqI) (simp add: bit_unsigned_iff)

lemma word_step:
  assumes "cpu_ok cpu" "length bs = 8"
  shows "ucast (mm_crc32_u64 cpu (ucast crc) (load_le bs)) = crc_serial crc (message_bits bs)"
proof -
  have "mm_crc32_u64 cpu (ucast crc) (load_le bs) = ucast (crc_serial crc (message_bits bs))"
    using assms load_le_bits [where 'a = 64, of bs] by (simp add: cpu_ok_def)
  then show ?thesis by (simp only: ucast_back)
qed

lemma hw_words_serial:
  assumes "cpu_ok cpu" "hw_words cpu crc bytes = (c, rest)"
  shows "crc_serial c (message_bits rest) = crc_serial crc (message_bits bytes)" and "length rest < 8"
proof -
  have "crc_serial c (message_bits rest) = crc_serial crc (message_bits bytes) \<and> length rest < 8"
    using assms
  proof (induction "length bytes" arbitrary: crc bytes rule: less_induct)
    case less
    show ?case
    proof (cases "length bytes \<ge> 8")
      case True
      let ?c = "ucast (mm_crc32_u64 cpu (ucast crc) (load_le (take 8 bytes))) :: u32"
      have "hw_words cpu ?c (drop 8 bytes) = (c, rest)"
        using True hw_words.simps [of cpu crc bytes] less.prems(2) by simp
      then have "crc_serial c (message_bits rest) = crc_serial ?c (message_bits (drop 8 bytes)) \<and> length rest < 8"
        using True less.prems(1) by (intro less.hyps) simp_all
      moreover have "crc_serial ?c (message_bits (drop 8 bytes)) = crc_serial crc (message_bits bytes)"
        using word_step [OF less.prems(1), of "take 8 bytes" crc] True
          message_bits_append [of "take 8 bytes" "drop 8 bytes"] by (simp add: crc_serial_append)
      ultimately show ?thesis by simp
    next
      case False
      then show ?thesis using hw_words.simps [of cpu crc bytes] less.prems(2) by auto
    qed
  qed
  then show "crc_serial c (message_bits rest) = crc_serial crc (message_bits bytes)" "length rest < 8" by simp_all
qed

lemma part_step:
  assumes "crc_serial c (message_bits bytes) = x" "n \<le> length bytes"
  shows "crc_serial (crc_serial c (message_bits (take n bytes))) (message_bits (drop n bytes)) = x"
  using assms message_bits_append [of "take n bytes" "drop n bytes"] by (simp add: crc_serial_append)

lemma hardware_serial:
  assumes cpu: "cpu_ok cpu"
  shows "crc32c_update_hardware cpu crc bytes = crc_serial crc (message_bits bytes)"
proof -
  obtain c1 r1 where w: "hw_words cpu crc bytes = (c1, r1)" by fastforce
  define c2 r2 where "c2 = (if length r1 \<ge> 4 then mm_crc32_u32 cpu c1 (load_le (take 4 r1)) else c1)"
    and "r2 = (if length r1 \<ge> 4 then drop 4 r1 else r1)"
  define c3 r3 where "c3 = (if length r2 \<ge> 2 then mm_crc32_u16 cpu c2 (load_le (take 2 r2)) else c2)"
    and "r3 = (if length r2 \<ge> 2 then drop 2 r2 else r2)"
  have t2: "(if length r1 \<ge> 4 then (mm_crc32_u32 cpu c1 (load_le (take 4 r1)), drop 4 r1) else (c1, r1)) = (c2, r2)"
    by (simp add: c2_def r2_def)
  have t3: "(if length r2 \<ge> 2 then (mm_crc32_u16 cpu c2 (load_le (take 2 r2)), drop 2 r2) else (c2, r2)) = (c3, r3)"
    by (simp add: c3_def r3_def)
  let ?x = "crc_serial crc (message_bits bytes)"
  have 1: "crc_serial c1 (message_bits r1) = ?x" "length r1 < 8" using hw_words_serial [OF cpu w] by simp_all
  have "mm_crc32_u32 cpu c1 (load_le (take 4 r1)) = crc_serial c1 (message_bits (take 4 r1))" if "length r1 \<ge> 4"
    using cpu load_le_bits [where 'a = 32, of "take 4 r1"] that by (simp add: cpu_ok_def)
  then have 2: "crc_serial c2 (message_bits r2) = ?x" "length r2 < 4"
    using 1 part_step [OF 1(1), of 4] by (auto simp: c2_def r2_def)
  have "mm_crc32_u16 cpu c2 (load_le (take 2 r2)) = crc_serial c2 (message_bits (take 2 r2))" if "length r2 \<ge> 2"
    using cpu load_le_bits [where 'a = 16, of "take 2 r2"] that by (simp add: cpu_ok_def)
  then have 3: "crc_serial c3 (message_bits r3) = ?x" "length r3 < 2"
    using 2 part_step [OF 2(1), of 2] by (auto simp: c3_def r3_def)
  have "crc32c_update_hardware cpu crc bytes = (if r3 \<noteq> [] then mm_crc32_u8 cpu c3 (hd r3) else c3)"
    unfolding crc32c_update_hardware_def w Let_def split_conv t2 t3 ..
  moreover have "message_bits r3 = (if r3 \<noteq> [] then word_bits (hd r3) else [])"
    using 3(2) by (cases r3) (auto simp: message_bits_def)
  moreover have "crc_serial c3 [] = c3" by (simp add: crc_serial_def)
  ultimately show ?thesis using 3(1) cpu by (auto simp: cpu_ok_def)
qed

lemma update_serial: "hardware_ok hw \<Longrightarrow> crc32c_update hw crc bytes = crc_serial crc (message_bits bytes)"
  by (cases hw) (simp_all add: hardware_ok_def crc32c_update_def software_serial hardware_serial)

section \<open>Matrices of linear maps\<close>

definition linear :: "(u32 \<Rightarrow> u32) \<Rightarrow> bool" where
  "linear f \<longleftrightarrow> f 0 = 0 \<and> (\<forall>x y. f (x XOR y) = f x XOR f y)"

definition matrix_of :: "(u32 \<Rightarrow> u32) \<Rightarrow> u32 list" where
  "matrix_of f = map (\<lambda>i. f (push_bit i 1)) [0..<32]"

lemma high_bits_split:
  fixes v :: u32
  shows "push_bit k (drop_bit k v) = (if bit v k then push_bit k 1 else 0) XOR push_bit (Suc k) (drop_bit (Suc k) v)"
proof (rule bit_word_eqI)
  fix i assume i: "i < LENGTH(32)"
  have d: "bit (push_bit k (drop_bit k v)) i \<longleftrightarrow> k \<le> i \<and> bit v i"
    "bit (push_bit (Suc k) (drop_bit (Suc k) v)) i \<longleftrightarrow> Suc k \<le> i \<and> bit v i"
    "bit (push_bit k (1 :: u32)) i \<longleftrightarrow> i = k"
    unfolding bit_push_bit_iff bit_drop_bit_eq using i by (auto simp: bit_1_iff)
  show "bit (push_bit k (drop_bit k v)) i \<longleftrightarrow>
    bit ((if bit v k then push_bit k 1 else 0) XOR push_bit (Suc k) (drop_bit (Suc k) v)) i"
  proof (cases "bit v k")
    case True
    have "k \<le> i \<and> bit v i \<longleftrightarrow> (i = k) \<noteq> (Suc k \<le> i \<and> bit v i)" using True by auto
    then show ?thesis unfolding if_P [OF True] bit_xor_iff d .
  next
    case False
    have "k \<le> i \<and> bit v i \<longleftrightarrow> Suc k \<le> i \<and> bit v i" using False le_eq_less_or_eq by auto
    then show ?thesis unfolding if_not_P [OF False] bit_xor_iff d by simp
  qed
qed

lemma low_bit_test: "w AND 1 \<noteq> 0 \<longleftrightarrow> bit w (0 :: nat)" for w :: "'a :: len word"
  by (simp add: and_one_eq bit_0 odd_iff_mod_2_eq_one even_iff_mod_2_eq_zero)

lemma matrix_loop_linear:
  assumes f: "linear f" and k: "k \<le> 32"
  shows "matrix_loop r (map (\<lambda>i. f (push_bit i 1)) [k..<32]) (drop_bit k v) = r XOR f (push_bit k (drop_bit k v))"
  using k
proof (induction "32 - k" arbitrary: k r)
  case 0
  have "drop_bit 32 v = 0" by (rule bit_word_eqI) (simp add: bit_drop_bit_eq)
  then show ?case using 0 f by (simp add: linear_def)
next
  case (Suc d)
  have k: "k < 32" using Suc.hyps(2) by simp
  let ?r = "if drop_bit k v AND 1 \<noteq> 0 then r XOR f (push_bit k 1) else r"
  have t: "drop_bit k v AND 1 \<noteq> 0 \<longleftrightarrow> bit v k" unfolding low_bit_test by (simp add: bit_drop_bit_eq)
  have ih: "matrix_loop ?r (map (\<lambda>i. f (push_bit i 1)) [Suc k..<32]) (drop_bit (Suc k) v) =
      ?r XOR f (push_bit (Suc k) (drop_bit (Suc k) v))"
    using Suc.hyps k by (intro Suc.hyps(1)) simp_all
  have fs: "f (push_bit k (drop_bit k v)) = (if bit v k then f (push_bit k 1) else 0) XOR f (push_bit (Suc k) (drop_bit (Suc k) v))"
    using f high_bits_split [of k v] by (auto simp: linear_def)
  show ?case
  proof (cases "drop_bit k v = 0")
    case True
    have "matrix_loop r (map (\<lambda>i. f (push_bit i 1)) [k..<32]) 0 = r" by (simp add: upt_rec [of k] k)
    then show ?thesis using True f by (simp add: linear_def)
  next
    case False
    have "drop_bit 1 (drop_bit k v) = drop_bit (Suc k) v" by (simp add: drop_bit_drop_bit del: drop_bit_Suc)
    then have "matrix_loop r (map (\<lambda>i. f (push_bit i 1)) [k..<32]) (drop_bit k v) =
        matrix_loop ?r (map (\<lambda>i. f (push_bit i 1)) [Suc k..<32]) (drop_bit (Suc k) v)"
      using False k by (simp only: upt_conv_Cons list.map matrix_loop.simps if_False)
    also have "\<dots> = ?r XOR f (push_bit (Suc k) (drop_bit (Suc k) v))" by (rule ih)
    also have "\<dots> = r XOR f (push_bit k (drop_bit k v))"
      unfolding fs t by (cases "bit v k") (simp_all only: if_True if_False xor.assoc xor.left_neutral)
    finally show ?thesis .
  qed
qed

lemma matrix_times: "linear f \<Longrightarrow> crc32c_matrix_times (matrix_of f) v = f v"
  using matrix_loop_linear [of f 0 0 v] by (simp add: crc32c_matrix_times_def matrix_of_def)

lemma matrix_square: "linear f \<Longrightarrow> crc32c_matrix_square (matrix_of f) = matrix_of (f \<circ> f)"
  by (simp add: crc32c_matrix_square_def matrix_times) (simp add: matrix_of_def)

lemma linear_crc_bits: "linear (crc_bit ^^ n)"
  by (simp add: linear_def crc_bits_xor)

lemma square_crc_bits: "crc32c_matrix_square (matrix_of (crc_bit ^^ n)) = matrix_of (crc_bit ^^ (2 * n))"
  using matrix_square [OF linear_crc_bits] by (simp add: funpow_add [symmetric] mult_2)

lemma times_crc_bits: "crc32c_matrix_times (matrix_of (crc_bit ^^ n)) v = (crc_bit ^^ n) v"
  by (rule matrix_times [OF linear_crc_bits])

lemma first_matrix: "0x82F63B78 # map (\<lambda>b. push_bit b 1) [0..<31] = matrix_of (crc_bit ^^ 1)"
proof -
  have "crc_bit (push_bit (Suc i) 1) = push_bit i 1" if "i < 31" for i
  proof -
    have "crc_bit (push_bit 1 (push_bit i 1)) = push_bit i 1"
      by (rule crc_bit_shift) (use that in \<open>unfold bit_push_bit_iff bit_1_iff, simp\<close>)
    then show ?thesis by (simp only: push_bit_push_bit) (simp only: add.commute plus_1_eq_Suc)
  qed
  moreover have "crc_bit 1 = 0x82F63B78" by (simp add: crc_bit_def)
  moreover have "[0..<32] = 0 # map Suc [0..<31]" by (simp add: upt_conv_Cons map_Suc_upt)
  ultimately show ?thesis by (simp add: matrix_of_def del: upt_rec_numeral)
qed

section \<open>Combination\<close>

lemma unat_half: "unat (drop_bit 1 (n :: u64)) = unat n div 2"
  by (simp add: drop_bit_Suc unat_div)

lemma unat_low_bit: "n AND 1 \<noteq> 0 \<longleftrightarrow> unat (n :: u64) mod 2 = 1"
proof -
  have "n AND 1 = n mod 2" by (rule and_one_eq)
  moreover have "unat (n mod 2) = unat n mod 2" by (simp add: unat_mod)
  moreover have "n mod 2 \<noteq> 0 \<longleftrightarrow> unat (n mod 2) \<noteq> 0" by (simp add: unat_eq_0)
  ultimately show ?thesis by simp
qed

lemma times_if:
  "(if (n :: u64) AND 1 \<noteq> 0 then crc32c_matrix_times (matrix_of (crc_bit ^^ m)) x else x) =
   (crc_bit ^^ (m * (unat n mod 2))) x"
proof (cases "n AND 1 \<noteq> 0")
  case True
  then have "unat n mod 2 = 1" unfolding unat_low_bit .
  then show ?thesis using True by (simp add: times_crc_bits)
next
  case False
  then have "unat n mod 2 = 0" unfolding unat_low_bit by simp
  then show ?thesis using False by simp
qed

lemma combine_loop_power:
  "combine_loop (matrix_of (crc_bit ^^ m)) left n = (crc_bit ^^ (2 * m * unat n)) left"
proof (induction "unat n" arbitrary: m left n rule: less_induct)
  case less
  define n1 where "n1 = drop_bit 1 n"
  define n2 where "n2 = drop_bit 1 n1"
  define l1 where "l1 = (crc_bit ^^ (2 * m * (unat n mod 2))) left"
  define l2 where "l2 = (crc_bit ^^ (4 * m * (unat n1 mod 2))) l1"
  have n1: "unat n1 = unat n div 2" and n2: "unat n2 = unat n1 div 2" unfolding n1_def n2_def by (rule unat_half)+
  have step: "combine_loop (matrix_of (crc_bit ^^ m)) left n = (if n1 = 0 then l1
      else if n2 \<noteq> 0 then combine_loop (matrix_of (crc_bit ^^ (4 * m))) l2 n2 else l2)"
    unfolding combine_loop.simps [of "matrix_of (crc_bit ^^ m)"] square_crc_bits Let_def times_if n1_def [symmetric]
      n2_def [symmetric] l1_def [symmetric] by (simp add: l2_def mult.assoc)
  have split: "2 * m * unat n = 8 * m * unat n2 + (4 * m * (unat n1 mod 2) + 2 * m * (unat n mod 2))"
  proof -
    define r0 where "r0 = unat n mod 2"
    define r1 where "r1 = unat n1 mod 2"
    have "unat n = 4 * unat n2 + 2 * r1 + r0" unfolding r0_def r1_def using n1 n2 by presburger
    then have "2 * m * unat n = 2 * m * (4 * unat n2 + 2 * r1 + r0)" by simp
    then show ?thesis unfolding r0_def [symmetric] r1_def [symmetric] by (simp add: algebra_simps)
  qed
  have all: "(crc_bit ^^ (8 * m * unat n2)) l2 = (crc_bit ^^ (2 * m * unat n)) left"
    unfolding split l2_def l1_def by (simp add: funpow_add)
  show ?case
  proof (cases "n2 = 0")
    case True
    then show ?thesis unfolding step using all n2 by (auto simp: l2_def unat_eq_0)
  next
    case False
    then have "n1 \<noteq> 0" by (auto simp: n2_def)
    have "unat n2 \<noteq> 0" using False by (simp add: unat_eq_0)
    then have "unat n2 < unat n" using n1 n2 by linarith
    then show ?thesis unfolding step using less [of n2 "4 * m" l2] all False \<open>n1 \<noteq> 0\<close> by (simp add: mult.assoc)
  qed
qed

lemma combine_power:
  "crc32c_combine left right n = (crc_bit ^^ (8 * unat n)) left XOR (if n = 0 then 0 else right)"
proof (cases "n = 0")
  case False
  have "crc32c_combine left right n = combine_loop (matrix_of (crc_bit ^^ 4)) left n XOR right"
    using False square_crc_bits [of 1] square_crc_bits [of 2]
    unfolding crc32c_combine_def first_matrix Let_def by (simp del: funpow.simps)
  then show ?thesis using False combine_loop_power [of 4 left n] by simp
qed (simp add: crc32c_combine_def)

lemma crc_serial_xor: "crc_serial (x XOR y) bs = crc_serial x bs XOR (crc_bit ^^ length bs) y"
proof (induction bs arbitrary: x y)
  case (Cons b bs)
  have "crc_bit ((x XOR y) XOR of_bool b) = crc_bit (x XOR of_bool b) XOR crc_bit y"
    using crc_bit_xor [of "x XOR of_bool b" y] by (simp only: ac_simps)
  then show ?case using Cons [of "crc_bit (x XOR of_bool b)" "crc_bit y"] by (simp add: crc_serial_def funpow_swap1)
qed (simp add: crc_serial_def)

lemma message_bits_length: "length (message_bits bs) = 8 * length bs"
  by (induction bs) (simp_all add: message_bits_def word_bits_def)

text \<open>The reference checksum.\<close>

definition crc_reference :: "u8 list \<Rightarrow> u32" where
  "crc_reference bytes = NOT (crc_serial (-1) (message_bits bytes))"

lemma combine_reference:
  assumes "length ys = unat n"
  shows "crc32c_combine (crc_reference xs) (crc_reference ys) n = crc_reference (xs @ ys)"
proof -
  let ?c = "crc_serial (-1) (message_bits xs)"
  have "crc_serial ?c (message_bits ys) = crc_serial ((-1) XOR NOT ?c) (message_bits ys)" by simp
  also have "\<dots> = crc_serial (-1) (message_bits ys) XOR (crc_bit ^^ (8 * unat n)) (NOT ?c)"
    by (simp only: crc_serial_xor message_bits_length assms)
  finally have "crc_reference (xs @ ys) = (crc_bit ^^ (8 * unat n)) (crc_reference xs) XOR crc_reference ys"
    by (simp add: crc_reference_def message_bits_append crc_serial_append xor.commute)
  moreover have "crc_reference [] = 0" by (simp add: crc_reference_def message_bits_def crc_serial_def)
  ultimately show ?thesis unfolding combine_power using assms by auto
qed

section \<open>Whole inputs\<close>

lemma three_loop_serial:
  assumes cpu: "cpu_ok cpu" and "8 dvd off" "8 dvd block" "off \<le> block"
    and "block \<le> length xs" "block \<le> length ys" "block \<le> length zs"
  shows "three_loop cpu xs ys zs off block (a, b, c) =
    (crc_serial a (message_bits (drop off (take block xs))), crc_serial b (message_bits (drop off (take block ys))),
     crc_serial c (message_bits (drop off (take block zs))))"
  using assms(2-)
proof (induction "block - off" arbitrary: off a b c rule: less_induct)
  case less
  show ?case
  proof (cases "off < block")
    case True
    have "8 dvd block - off" using less.prems(1,2) by (rule dvd_diff_nat [rotated])
    then have next_off: "off + 8 \<le> block" using True dvd_imp_le [of 8 "block - off"] by simp
    have one: "crc_serial (ucast (mm_crc32_u64 cpu (ucast s) (load_le (take 8 (drop off bs))))) (message_bits (drop (off + 8) (take block bs)))
        = crc_serial s (message_bits (drop off (take block bs)))" if "block \<le> length bs" for s bs
    proof -
      have "drop off (take block bs) = take 8 (drop off bs) @ drop (off + 8) (take block bs)"
        using next_off append_take_drop_id [of 8 "drop off (take block bs)"]
        by (simp add: take_drop min_absorb1 add.commute)
      moreover have "length (take 8 (drop off bs)) = 8" using that next_off by simp
      ultimately show ?thesis using word_step [OF cpu, of "take 8 (drop off bs)" s]
        by (simp add: message_bits_append crc_serial_append)
    qed
    have "8 dvd off + 8" using less.prems(1) by simp
    then show ?thesis
      using three_loop.simps [of cpu xs ys zs off block a b c] True next_off less.prems
      by (simp add: less.hyps one Let_def)
  next
    case False
    then show ?thesis using three_loop.simps [of cpu xs ys zs off block a b c] less.prems by (simp add: crc_serial_def message_bits_def)
  qed
qed

lemma three_way_reference:
  assumes cpu: "cpu_ok cpu" and len: "length bytes < 2 ^ 64"
  shows "crc32c_three_way_hardware cpu bytes = crc_reference bytes"
proof -
  define block where "block = length bytes div 3 div 8 * 8"
  define xs where "xs = take block bytes"
  define ys where "ys = take block (drop block bytes)"
  define zs where "zs = drop (2 * block) bytes"
  have b: "3 * block \<le> length bytes" "8 dvd block" unfolding block_def by linarith simp
  have parts: "bytes = xs @ ys @ zs" unfolding xs_def ys_def zs_def by (simp add: mult_2 drop_drop [symmetric] del: drop_drop)
  have small: "unat (of_nat k :: u64) = k" if "k \<le> length bytes" for k using that len by (simp add: unat_of_nat)
  have "length ys = block" "length zs = length bytes - 2 * block" using b(1) by (simp_all add: ys_def zs_def)
  then have lens: "length ys = unat (of_nat block :: u64)" "length zs = unat (of_nat (length bytes - 2 * block) :: u64)"
    using small [of block] small [of "length bytes - 2 * block"] b(1) by (simp_all del: of_nat_diff)
  have loop: "three_loop cpu bytes (drop block bytes) (drop block (drop block bytes)) 0 block (-1, -1, -1) =
      (crc_serial (-1) (message_bits xs), crc_serial (-1) (message_bits ys), crc_serial (-1) (message_bits (take block zs)))"
    using b by (subst three_loop_serial [OF cpu]) (simp_all add: xs_def ys_def zs_def mult_2)
  have "drop (3 * block) bytes = drop block zs" by (simp add: zs_def)
  then have tail: "crc32c_update_hardware cpu (crc_serial (-1) (message_bits (take block zs))) (drop (3 * block) bytes)
      = crc_serial (-1) (message_bits zs)"
    using message_bits_append [of "take block zs" "drop block zs"] by (simp add: hardware_serial [OF cpu] crc_serial_append)
  have "crc32c_three_way_hardware cpu bytes = crc32c_combine
      (crc32c_combine (crc_reference xs) (crc_reference ys) (of_nat block)) (crc_reference zs) (of_nat (length bytes - 2 * block))"
    unfolding crc32c_three_way_hardware_def block_def [symmetric] Let_def loop split_conv tail crc_reference_def ..
  also have "\<dots> = crc_reference ((xs @ ys) @ zs)" by (simp only: combine_reference [OF lens(1)] combine_reference [OF lens(2)])
  finally show ?thesis using parts by simp
qed

lemma crc32c_any:
  assumes "hardware_ok hw" "length bytes < 2 ^ 64"
  shows "crc32c hw bytes = crc_reference bytes"
proof -
  have "NOT (crc32c_update hw (-1) bytes) = crc_reference bytes"
    using update_serial [OF assms(1)] by (simp add: crc_reference_def)
  then show ?thesis using assms three_way_reference by (cases hw) (auto simp: crc32c_def hardware_ok_def)
qed

definition demo_cpu :: crc_cpu where
  "demo_cpu = \<lparr> mm_crc32_u64 = (\<lambda>c v. ucast (crc_serial (ucast c) (word_bits v))),
     mm_crc32_u32 = (\<lambda>c v. crc_serial c (word_bits v)), mm_crc32_u16 = (\<lambda>c v. crc_serial c (word_bits v)),
     mm_crc32_u8 = (\<lambda>c v. crc_serial c (word_bits v)) \<rparr>"

lemma demo_cpu_ok: "hardware_ok (Some demo_cpu)"
  by (simp add: hardware_ok_def cpu_ok_def demo_cpu_def ucast_back)

section \<open>Properties\<close>

text \<open>
  C7: every implementation of the record checksum agrees. On any processor whose CRC instructions
  divide by the Castagnoli polynomial, and on one without them, the checksum of a buffer, whichever
  of the serial, word-wise and three-stream paths its length selects, and the checksum of the same
  bytes given in parts, is the bit-serial CRC-32C of the bytes.
\<close>

theorem crc32c_paths_agree:
  assumes "hardware_ok hw" "length bytes < 2 ^ 64" "concat (map (\<lambda>p. case p of None \<Rightarrow> [] | Some bs \<Rightarrow> bs) parts) = bytes"
  shows "crc32c hw bytes = crc_reference bytes \<and> crc32c_parts hw parts = crc_reference bytes"
proof -
  have "foldl (\<lambda>crc part. case part of None \<Rightarrow> crc
        | Some bytes \<Rightarrow> if bytes = [] then crc else crc32c_update hw crc bytes) c parts =
      crc_serial c (message_bits (concat (map (\<lambda>p. case p of None \<Rightarrow> [] | Some bs \<Rightarrow> bs) parts)))" for c
    by (induction parts arbitrary: c)
      (auto simp: update_serial [OF assms(1)] message_bits_append crc_serial_append message_bits_def crc_serial_def split: option.split)
  then show ?thesis using crc32c_any [OF assms(1,2)] assms(3) by (simp add: crc32c_parts_def crc_reference_def)
qed

theorem crc32c_paths_agree_witness:
  "crc32c (Some demo_cpu) [49, 50, 51] = crc_reference [49, 50, 51] \<and>
   crc32c_parts (Some demo_cpu) [Some [49], None, Some [50, 51]] = crc_reference [49, 50, 51]"
  using crc32c_paths_agree [OF demo_cpu_ok, of "[49, 50, 51]" "[Some [49], None, Some [50, 51]]"] by simp

text \<open>
  C21: combining the checksums of two buffers by matrix powers, without reading the second one again,
  gives the checksum of their concatenation, whatever processors computed the three.
\<close>

theorem crc32c_combine_append:
  assumes "hardware_ok h1" "hardware_ok h2" "hardware_ok h3" "length xs + length ys < 2 ^ 64"
  shows "crc32c_combine (crc32c h1 xs) (crc32c h2 ys) (of_nat (length ys)) = crc32c h3 (xs @ ys)"
proof -
  have "length ys = unat (of_nat (length ys) :: u64)" using assms(4) by (simp add: unat_of_nat)
  then have "crc32c_combine (crc_reference xs) (crc_reference ys) (of_nat (length ys)) = crc_reference (xs @ ys)"
    by (rule combine_reference)
  then show ?thesis using assms crc32c_any by simp
qed

theorem crc32c_combine_append_witness:
  "crc32c_combine (crc32c None [1, 2]) (crc32c (Some demo_cpu) [3, 4, 5]) 3 = crc32c None [1, 2, 3, 4, 5]"
  using crc32c_combine_append [of None "Some demo_cpu" None "[1, 2]" "[3, 4, 5]"] demo_cpu_ok
  by (simp add: hardware_ok_def)

end
