(* ===== verification/Disk_Buffer.thy ===== *)
theory Disk_Buffer
  imports Crc32c
begin

text \<open>
  The byte buffers of the disk tier (\<^verbatim>\<open>OutBuf\<close> and \<^verbatim>\<open>InBuf\<close> of \<^verbatim>\<open>kv_disk_cache.cpp\<close>). A writer is the
  list of bytes it appends; a reader takes the unread bytes and returns a value with the rest. Every
  scalar reader is shown to be the inverse of its writer, and every reader to be stable under more
  input, from which the formats derive their round trips and the rejection of torn files.
\<close>

section \<open>Writers\<close>

definition out_u8 :: "u8 \<Rightarrow> u8 list" where "out_u8 v = [v]"

definition out_u16 :: "16 word \<Rightarrow> u8 list" where
  "out_u16 v = out_u8 (ucast v) @ out_u8 (ucast (drop_bit 8 v))"

definition out_u32 :: "u32 \<Rightarrow> u8 list" where
  "out_u32 v = out_u8 (ucast v) @ out_u8 (ucast (drop_bit 8 v)) @ out_u8 (ucast (drop_bit 16 v)) @
     out_u8 (ucast (drop_bit 24 v))"

definition out_u64 :: "u64 \<Rightarrow> u8 list" where
  "out_u64 v = concat (map (\<lambda>s. out_u8 (ucast (drop_bit s v))) [0, 8, 16, 24, 32, 40, 48, 56])"

definition out_str :: "u8 list \<Rightarrow> u8 list" where
  "out_str s = out_u32 (of_nat (length s)) @ s"

section \<open>Readers\<close>

fun in_u8 :: "u8 list \<Rightarrow> (u8 \<times> u8 list) result" where
  "in_u8 [] = Inl Runtime_error"
| "in_u8 (b # r) = Inr (b, r)"

text \<open>
  The two calls of \<^verbatim>\<open>u16\<close> are operands of one expression, whose order the language leaves open; they
  are taken left to right. The only caller compares the result with 0, where the order cannot show.
\<close>

definition in_u16 :: "u8 list \<Rightarrow> (16 word \<times> u8 list) result" where
  "in_u16 r = bind_result (in_u8 r) (\<lambda>(a, r). bind_result (in_u8 r) (\<lambda>(b, r).
     Inr (ucast a OR push_bit 8 (ucast b), r)))"

definition in_u32 :: "u8 list \<Rightarrow> (u32 \<times> u8 list) result" where
  "in_u32 r = bind_result (in_u8 r) (\<lambda>(a, r). bind_result (in_u8 r) (\<lambda>(b, r).
     bind_result (in_u8 r) (\<lambda>(c, r). bind_result (in_u8 r) (\<lambda>(d, r).
     Inr (ucast a OR push_bit 8 (ucast b) OR push_bit 16 (ucast c) OR push_bit 24 (ucast d), r)))))"

fun in_u64_loop :: "nat list \<Rightarrow> u64 \<Rightarrow> u8 list \<Rightarrow> (u64 \<times> u8 list) result" where
  "in_u64_loop [] v r = Inr (v, r)"
| "in_u64_loop (s # ss) v r = bind_result (in_u8 r) (\<lambda>(b, r). in_u64_loop ss (v OR push_bit s (ucast b)) r)"

definition in_u64 :: "u8 list \<Rightarrow> (u64 \<times> u8 list) result" where
  "in_u64 r = in_u64_loop [0, 8, 16, 24, 32, 40, 48, 56] 0 r"

definition in_skip :: "nat \<Rightarrow> u8 list \<Rightarrow> (unit \<times> u8 list) result" where
  "in_skip n r = (if length r < n then Inl Runtime_error else Inr ((), drop n r))"

definition in_str :: "u8 list \<Rightarrow> (u8 list \<times> u8 list) result" where
  "in_str r = bind_result (in_u32 r) (\<lambda>(n, r).
     if length r < unat n then Inl Runtime_error else Inr (take (unat n) r, drop (unat n) r))"

section \<open>Scalars are codecs\<close>

lemma bit_byte_bound: "bit (b :: u8) i \<Longrightarrow> i < 8"
  using bit_imp_le_length [of b i] by simp

lemma load_le_Cons: "(load_le (b # bs) :: 'a :: len word) = ucast b OR push_bit 8 (load_le bs)"
proof (rule bit_word_eqI)
  fix i assume i: "i < LENGTH('a)"
  have "bit (load_le (b # bs) :: 'a word) i \<longleftrightarrow> (if i < 8 then bit b i else bit (le_value bs) (i - 8))"
    using i by (simp add: load_le_def bit_of_nat_iff bit_le_Cons del: of_nat_add of_nat_mult)
  moreover have "bit (push_bit 8 (load_le bs) :: 'a word) i \<longleftrightarrow> 8 \<le> i \<and> bit (le_value bs) (i - 8)"
    unfolding bit_push_bit_iff using i by (auto simp: load_le_def bit_of_nat_iff)
  ultimately show "bit (load_le (b # bs) :: 'a word) i \<longleftrightarrow> bit (ucast b OR push_bit 8 (load_le bs) :: 'a word) i"
    unfolding bit_or_iff using i by (auto simp: bit_unsigned_iff dest: bit_byte_bound)
qed

lemma load_le_Nil: "load_le [] = 0"
  by (simp add: load_le_def)

lemma load_le_parts:
  "(ucast a OR push_bit 8 (ucast b) :: 16 word) = load_le [a, b]"
  "(ucast a OR push_bit 8 (ucast b) OR push_bit 16 (ucast c) OR push_bit 24 (ucast d) :: u32) = load_le [a, b, c, d]"
  unfolding load_le_Cons load_le_Nil push_bit_or push_bit_push_bit by simp_all

lemma in_u64_loop_load:
  "in_u64_loop (map (\<lambda>k. 8 * k) [k..<k + n]) v bs =
    (if length bs < n then Inl Runtime_error else Inr (v OR push_bit (8 * k) (load_le (take n bs)), drop n bs))"
proof (induction n arbitrary: k v bs)
  case 0
  show ?case by (simp add: load_le_Nil)
next
  case (Suc n)
  have upt: "[k..<k + Suc n] = k # [Suc k..<Suc k + n]" by (simp add: upt_conv_Cons)
  show ?case
  proof (cases bs)
    case Nil
    then show ?thesis unfolding upt by simp
  next
    case (Cons b r)
    have "push_bit (8 * k) (load_le (b # take n r) :: u64) = push_bit (8 * k) (ucast b) OR push_bit (8 * Suc k) (load_le (take n r))"
      unfolding load_le_Cons push_bit_or push_bit_push_bit by (simp add: add.commute)
    then show ?thesis unfolding upt Cons using Suc [of "Suc k" "v OR push_bit (8 * k) (ucast b)" r]
      by (simp add: or.assoc del: mult_Suc_right)
  qed
qed

lemma in_u64_load:
  "in_u64 bs = (if length bs < 8 then Inl Runtime_error else Inr (load_le (take 8 bs), drop 8 bs))"
  using in_u64_loop_load [of 0 8 0 bs] by (simp add: in_u64_def upt_rec)

lemma in_u32_load:
  "in_u32 bs = (if length bs < 4 then Inl Runtime_error else Inr (load_le (take 4 bs), drop 4 bs))"
  by (cases bs rule: in_u8.cases; cases "tl bs" rule: in_u8.cases; cases "tl (tl bs)" rule: in_u8.cases;
      cases "tl (tl (tl bs))" rule: in_u8.cases)
    (auto simp: in_u32_def load_le_parts(2))

lemma in_u16_load:
  "in_u16 bs = (if length bs < 2 then Inl Runtime_error else Inr (load_le (take 2 bs), drop 2 bs))"
  by (cases bs rule: in_u8.cases; cases "tl bs" rule: in_u8.cases) (auto simp: in_u16_def load_le_parts(1))

lemma byte_of: "of_nat (unat v div 2 ^ s mod 256) = (ucast (drop_bit s v) :: u8)"
proof (rule bit_word_eqI)
  fix i assume i: "i < LENGTH(8)"
  have "unat v div 2 ^ s mod 256 = take_bit 8 (drop_bit s (unat v))" by (simp add: take_bit_eq_mod drop_bit_eq_div)
  then show "bit (of_nat (unat v div 2 ^ s mod 256) :: u8) i \<longleftrightarrow> bit (ucast (drop_bit s v) :: u8) i"
    using i by (simp add: bit_of_nat_iff bit_take_bit_iff bit_drop_bit_eq bit_unsigned_iff)
qed

lemma le_bytes_shifts: "le_bytes n (unat v) = map (\<lambda>k. ucast (drop_bit (8 * k) v)) [0..<n]"
proof -
  have "le_bytes n x = map (\<lambda>k. of_nat (x div 256 ^ k mod 256)) [0..<n]" for x
    by (induction n arbitrary: x) (simp_all add: map_upt_Suc div_mult2_eq [symmetric] del: upt_Suc)
  moreover have "(256 :: nat) ^ k = 2 ^ (8 * k)" for k by (simp add: power_mult)
  ultimately show ?thesis by (simp only: byte_of)
qed

lemma upt_scalar: "[0..<2] = [0, 1 :: nat]" "[0..<4] = [0, 1, 2, 3 :: nat]" "[0..<8] = [0, 1, 2, 3, 4, 5, 6, 7 :: nat]"
  by (simp_all add: upt_rec)

lemma out_u16_le: "out_u16 v = le_bytes 2 (unat v)"
  unfolding le_bytes_shifts upt_scalar by (simp add: out_u16_def out_u8_def)

lemma out_u32_le: "out_u32 v = enc_u32 v"
  unfolding enc_u32_def le_bytes_shifts upt_scalar by (simp add: out_u32_def out_u8_def)

lemma out_u64_le: "out_u64 v = enc_u64 v"
  unfolding enc_u64_def le_bytes_shifts upt_scalar by (simp add: out_u64_def out_u8_def)

lemma load_iff:
  assumes w: "2 ^ LENGTH('a :: len) = (256 :: nat) ^ n"
  shows "(if length bs < n then Inl e else Inr (load_le (take n bs) :: 'a word, drop n bs)) = Inr (v, rest)
    \<longleftrightarrow> bs = le_bytes n (unat v) @ rest"
proof
  assume a: "(if length bs < n then Inl e else Inr (load_le (take n bs) :: 'a word, drop n bs)) = Inr (v, rest)"
  then have n: "n \<le> length bs" "v = load_le (take n bs)" "rest = drop n bs" by (auto split: if_splits)
  have "le_value (take n bs) < 2 ^ LENGTH('a)" using le_value_bound [of "take n bs"] n(1) w by simp
  then have "unat v = le_value (take n bs)" unfolding n(2) load_le_def by (simp add: unat_of_nat)
  then have "le_bytes n (unat v) = take n bs" using le_bytes_value [of "take n bs"] n(1) by simp
  then show "bs = le_bytes n (unat v) @ rest" using n(3) by simp
next
  assume a: "bs = le_bytes n (unat v) @ rest"
  have "le_value (le_bytes n (unat v)) = unat v" by (rule le_value_bytes) (use w unat_word_bound [of v] in simp)
  then show "(if length bs < n then Inl e else Inr (load_le (take n bs) :: 'a word, drop n bs)) = Inr (v, rest)"
    using a by (simp add: load_le_def)
qed

lemma in_u8_iff: "in_u8 bs = Inr (v, rest) \<longleftrightarrow> bs = out_u8 v @ rest"
  by (cases bs) (auto simp: out_u8_def)

lemma in_u16_iff: "in_u16 bs = Inr (v, rest) \<longleftrightarrow> bs = out_u16 v @ rest"
  unfolding in_u16_load out_u16_le by (rule load_iff) simp

lemma in_u32_iff: "in_u32 bs = Inr (v, rest) \<longleftrightarrow> bs = out_u32 v @ rest"
  unfolding in_u32_load out_u32_le enc_u32_def by (rule load_iff) simp

lemma in_u64_iff: "in_u64 bs = Inr (v, rest) \<longleftrightarrow> bs = out_u64 v @ rest"
  unfolding in_u64_load out_u64_le enc_u64_def by (rule load_iff) simp

interpretation u8_codec: codec out_u8 in_u8 "\<lambda>_. True"
  by unfold_locales (simp_all add: in_u8_iff)

interpretation u16_codec: codec out_u16 in_u16 "\<lambda>_. True"
  by unfold_locales (simp_all add: in_u16_iff)

interpretation u32_codec: codec out_u32 in_u32 "\<lambda>_. True"
  by unfold_locales (simp_all add: in_u32_iff)

interpretation u64_codec: codec out_u64 in_u64 "\<lambda>_. True"
  by unfold_locales (simp_all add: in_u64_iff)

interpretation str_codec: codec out_str in_str "\<lambda>s. length s < 2 ^ 32"
proof
  fix x rest :: "u8 list"
  assume "length x < 2 ^ 32"
  then have "unat (of_nat (length x) :: u32) = length x" by (simp add: unat_of_nat)
  then show "in_str (out_str x @ rest) = Inr (x, rest)"
    using u32_codec.dec_enc [of "of_nat (length x)" "x @ rest"] by (simp add: in_str_def out_str_def)
next
  fix bs x rest :: "u8 list"
  assume "in_str bs = Inr (x, rest)"
  then obtain n r where n: "in_u32 bs = Inr (n, r)" "unat n \<le> length r" "x = take (unat n) r" "rest = drop (unat n) r"
    by (auto simp: in_str_def bind_result_eq_Inr split: if_splits)
  have len: "length x = unat n" using n(2,3) by simp
  then have "of_nat (length x) = n" by simp
  moreover have "length x < 2 ^ 32" by (simp add: len)
  ultimately show "length x < 2 ^ 32 \<and> bs = out_str x @ rest"
    using u32_codec.enc_dec [OF n(1)] n(3,4) by (simp add: out_str_def)
qed

lemma in_skip_extends: "extends (in_skip n)"
  unfolding extends_def in_skip_def by (auto split: if_splits)

lemmas scalar_extends [reader_extends] = u8_codec.extends_dec u32_codec.extends_dec u64_codec.extends_dec
  str_codec.extends_dec u16_codec.extends_dec in_skip_extends

lemmas scalar_iff_out = in_u8_iff in_u16_iff in_u32_iff in_u64_iff

lemmas scalar_read = u8_codec.dec_enc u16_codec.dec_enc u32_codec.dec_enc u64_codec.dec_enc str_codec.dec_enc

lemma out_lengths [simp]: "length (out_u8 a) = 1" "length (out_u32 b) = 4" "length (out_u64 c) = 8"
  "length (out_u16 d) = 2" "length (out_str s) = 4 + length s"
  by (simp_all add: out_u8_def out_u32_le out_u64_le out_u16_def out_str_def)

lemma load_le_out: "length bs = 4 \<Longrightarrow> load_le bs = v \<longleftrightarrow> bs = out_u32 v"
  using in_u32_iff [of bs v "[]"] by (simp add: in_u32_load)

end
