(* ===== verification/Disk_Format.thy ===== *)
theory Disk_Format
  imports Disk_Buffer Paged_KV
begin

text \<open>
  The small files of the disk tier (\<^verbatim>\<open>kv_disk_format.h\<close> and the codecs of \<^verbatim>\<open>kv_disk_cache.cpp\<close>): the
  generation file PACKSET, the FINGERPRINT a directory is opened against, the META of a cached entry
  and the tombstone of a deleted one. Signed fields and floats are their 32 bits; an enumeration that
  the decoder casts without a check is its raw value.
\<close>

section \<open>Constants and object kinds\<close>

definition kDiskFormatVersion :: u32 where "kDiskFormatVersion = 8"
definition kDiskPageHeaderBytes :: u32 where "kDiskPageHeaderBytes = 16"
definition kDiskPageIoAlignment :: u32 where "kDiskPageIoAlignment = 4096"
definition kDiskStatePayloadOffset :: u32 where "kDiskStatePayloadOffset = 4096"
definition kDiskFingerprintPlaneBytes :: u32 where "kDiskFingerprintPlaneBytes = 20"
definition kDiskMetaMaxPageIds :: u32 where "kDiskMetaMaxPageIds = push_bit 16 1"
definition kDiskHostFileMaxBytes :: u64 where "kDiskHostFileMaxBytes = push_bit 20 64"

definition kDiskFingerprintMagic :: "u8 list" where "kDiskFingerprintMagic = [78, 73, 68, 75, 70, 80, 48, 49]"
definition kDiskMetaMagic :: "u8 list" where "kDiskMetaMagic = [78, 73, 68, 75, 77, 84, 48, 49]"
definition kDiskTombstoneMagic :: "u8 list" where "kDiskTombstoneMagic = [78, 73, 68, 75, 84, 66, 48, 49]"
definition kDiskPackSetMagic :: "u8 list" where "kDiskPackSetMagic = [78, 73, 68, 75, 80, 83, 48, 49]"
definition kDiskObjectMapMagic :: "u8 list" where "kDiskObjectMapMagic = [78, 73, 68, 75, 79, 77, 48, 49]"

datatype object_kind = Main_Object | Backend_Object | State_Object | Ledger_Object | Identity_Object

fun kind_index :: "object_kind \<Rightarrow> nat" where
  "kind_index Main_Object = 0"
| "kind_index Backend_Object = 1"
| "kind_index State_Object = 2"
| "kind_index Ledger_Object = 3"
| "kind_index Identity_Object = 4"

definition object_kinds :: "object_kind list" where
  "object_kinds = [Main_Object, Backend_Object, State_Object, Ledger_Object, Identity_Object]"

section \<open>Generation file\<close>

definition encode_packset :: "crc_cpu option \<Rightarrow> u64 \<Rightarrow> u64 \<Rightarrow> u8 list" where
  "encode_packset hw generation next_object_id =
     (let w = kDiskPackSetMagic @ out_u32 kDiskFormatVersion @ out_u64 generation @ out_u64 next_object_id
      in w @ out_u32 (crc32c hw w))"

text \<open>The checksum of the last four bytes, as the shifts and ors at the call sites assemble it.\<close>

definition trailing_crc :: "u8 list \<Rightarrow> nat \<Rightarrow> u32" where
  "trailing_crc bytes i =
     ucast (bytes ! i) OR push_bit 8 (ucast (bytes ! (i + 1))) OR push_bit 16 (ucast (bytes ! (i + 2))) OR
     push_bit 24 (ucast (bytes ! (i + 3)))"

definition packset_fields :: "u8 list \<Rightarrow> ((u32 \<times> u64 \<times> u64) \<times> u8 list) result" where
  "packset_fields r =
     bind_result (in_u32 r) (\<lambda>(version, r). bind_result (in_u64 r) (\<lambda>(generation, r).
     bind_result (in_u64 r) (\<lambda>(next_object_id, r). Inr ((version, generation, next_object_id), r))))"

definition decode_packset :: "crc_cpu option \<Rightarrow> u8 list \<Rightarrow> (u64 \<times> u64) option" where
  "decode_packset hw bytes =
     (if length bytes \<noteq> 32 \<or> take 8 bytes \<noteq> kDiskPackSetMagic then None
      else if crc32c hw (take 28 bytes) \<noteq> trailing_crc bytes 28 then None
      else case packset_fields (take 20 (drop 8 bytes)) of
          Inl _ \<Rightarrow> None
        | Inr ((version, generation, next_object_id), _) \<Rightarrow>
            if version \<noteq> kDiskFormatVersion then None
            else if generation \<noteq> 0 \<and> next_object_id \<noteq> 0 then Some (generation, next_object_id) else None)"

section \<open>Sizes\<close>

definition payload_fits :: "u64 \<Rightarrow> u64 \<Rightarrow> u64 \<Rightarrow> bool" where
  "payload_fits file_bytes header payload = (file_bytes \<ge> header \<and> payload \<le> file_bytes - header)"

definition aligned_page_file_bytes :: "u64 \<Rightarrow> u64" where
  "aligned_page_file_bytes payload =
     (let bytes = ucast kDiskPageHeaderBytes + payload
      in (bytes + ucast kDiskPageIoAlignment - 1) AND NOT (ucast kDiskPageIoAlignment - 1))"

definition aligned_state_file_bytes :: "u64 \<Rightarrow> u64" where
  "aligned_state_file_bytes payload =
     (let bytes = ucast kDiskStatePayloadOffset + payload
      in (bytes + ucast kDiskPageIoAlignment - 1) AND NOT (ucast kDiskPageIoAlignment - 1))"

text \<open>\<open>bound\<close> is \<^verbatim>\<open>ZSTD_compressBound\<close>; the codec byte is raw. On a 64-bit host no size exceeds \<^verbatim>\<open>size_t\<close>.\<close>

definition codec_payload_ok :: "(u64 \<Rightarrow> u64) \<Rightarrow> u8 \<Rightarrow> u64 \<Rightarrow> u64 \<Rightarrow> u64 \<Rightarrow> bool" where
  "codec_payload_ok bound codec_id unc cmp max_unc =
     (if unc = 0 \<or> cmp = 0 then False
      else if unc > max_unc then False
      else if codec_id = 0 then unc = cmp
      else if codec_id \<noteq> 1 then False
      else cmp \<le> bound unc)"

section \<open>Planes\<close>

record plane_schema =
  ds_dtype :: dtype
  ds_order :: plane_order
  ds_leading_extent :: u32
  ds_head_extent :: u32
  ds_page_bytes :: u64

definition dtypes :: "dtype list" where
  "dtypes = [BF16, FP32, I32, U8, I64, I8, FP16, FP8_E4M3FN]"

fun dtype_code :: "dtype \<Rightarrow> u8" where
  "dtype_code BF16 = 0" | "dtype_code FP32 = 1" | "dtype_code I32 = 2" | "dtype_code U8 = 3"
| "dtype_code I64 = 4" | "dtype_code I8 = 5" | "dtype_code FP16 = 6" | "dtype_code FP8_E4M3FN = 7"

fun order_code :: "plane_order \<Rightarrow> u8" where
  "order_code PageMajor = 0" | "order_code HeadMajor = 1"

fun schema_bytes_loop :: "u64 \<Rightarrow> u64 list \<Rightarrow> u64 result" where
  "schema_bytes_loop bytes [] = Inr bytes"
| "schema_bytes_loop bytes (extent # extents) =
     (if bytes > - 1 div extent then Inl Runtime_error else schema_bytes_loop (bytes * extent) extents)"

definition plane_schema_bytes :: "dtype \<Rightarrow> u32 \<Rightarrow> u32 \<Rightarrow> u32 \<Rightarrow> u64 result" where
  "plane_schema_bytes dt page_size leading_extent head_extent =
     (if page_size = 0 \<or> sint leading_extent \<le> 0 \<or> sint head_extent \<le> 0 then Inl Runtime_error
      else schema_bytes_loop (dtype_size dt) [ucast page_size, ucast leading_extent, ucast head_extent])"

definition make_plane_schema :: "tensor \<Rightarrow> plane_order \<Rightarrow> plane_schema result" where
  "make_plane_schema plane order =
     (if t_ne plane ! 1 \<noteq> int kPagedKVPageSize \<or> \<not> is_contiguous plane then Inl Logic_error
      else
        let leading = word_of_int (t_ne plane ! 0);
            heads = word_of_int (if order = PageMajor then t_ne plane ! 2 else t_ne plane ! 3)
        in bind_result (plane_schema_bytes (t_dtype plane) (of_nat kPagedKVPageSize) leading heads) (\<lambda>bytes.
             Inr \<lparr> ds_dtype = t_dtype plane, ds_order = order, ds_leading_extent = leading,
                   ds_head_extent = heads, ds_page_bytes = bytes \<rparr>))"

definition encode_plane_schema :: "plane_schema \<Rightarrow> u8 list" where
  "encode_plane_schema plane =
     out_u8 (dtype_code (ds_dtype plane)) @ out_u8 (order_code (ds_order plane)) @ out_u16 0 @
     out_u32 (ds_leading_extent plane) @ out_u32 (ds_head_extent plane) @ out_u64 (ds_page_bytes plane)"

definition decode_plane_schema :: "u32 \<Rightarrow> u8 list \<Rightarrow> (plane_schema \<times> u8 list) result" where
  "decode_plane_schema page_size r =
     bind_result (in_u8 r) (\<lambda>(dtype_raw, r). bind_result (in_u8 r) (\<lambda>(order_raw, r).
     bind_result (in_u16 r) (\<lambda>(zero, r).
     if zero \<noteq> 0 \<or> dtype_raw > 7 \<or> order_raw > 1 then Inl Runtime_error
     else
     bind_result (in_u32 r) (\<lambda>(leading, r). bind_result (in_u32 r) (\<lambda>(heads, r).
     bind_result (in_u64 r) (\<lambda>(page_bytes, r).
     case plane_schema_bytes (dtypes ! unat dtype_raw) page_size leading heads of
       Inl e \<Rightarrow> Inl e
     | Inr bytes \<Rightarrow>
         if page_bytes \<noteq> bytes then Inl Runtime_error
         else Inr (\<lparr> ds_dtype = dtypes ! unat dtype_raw, ds_order = [PageMajor, HeadMajor] ! unat order_raw,
                     ds_leading_extent = leading, ds_head_extent = heads, ds_page_bytes = page_bytes \<rparr>, r)))))))"

section \<open>Fingerprint\<close>

record attention_profile =
  at_sage_attn :: bool
  at_keep_frac :: u32
  at_xattn_tau :: u32
  at_xattn_min_len :: u32

record fingerprint =
  fp_artifact_tensor_identity :: "u8 list"
  fp_model_id :: "u8 list"
  fp_weights_id :: "u8 list"
  fp_kv_cache :: u8
  fp_speculative :: u8
  fp_attention :: attention_profile
  fp_page_size :: u32
  fp_gdn_conv_bytes :: u64
  fp_gdn_recurrent_bytes :: u64
  fp_cyclic_lane_bytes :: u64
  fp_cyclic_layers :: u32
  fp_cyclic_capacity :: u32
  fp_cyclic_padded :: u32
  fp_cyclic_kv_heads :: u32
  fp_cyclic_head_dim :: u32
  fp_snapshot_version :: u32
  fp_text_planes :: "plane_schema list"
  fp_backend_planes :: "plane_schema list"

definition bool_code :: "bool \<Rightarrow> u8" where "bool_code b = (if b then 1 else 0)"

definition encode_fingerprint :: "fingerprint \<Rightarrow> u8 list result" where
  "encode_fingerprint fp =
     (if length (fp_text_planes fp) > 2 ^ 32 - 1 \<or> length (fp_backend_planes fp) > 2 ^ 32 - 1 then Inl Logic_error
      else Inr (
        kDiskFingerprintMagic @ out_u32 kDiskFormatVersion @ out_str (fp_model_id fp) @ out_str (fp_weights_id fp) @
        out_str (fp_artifact_tensor_identity fp) @ out_u8 (fp_kv_cache fp) @ out_u8 (fp_speculative fp) @
        out_u8 (bool_code (at_sage_attn (fp_attention fp))) @ out_u32 (at_keep_frac (fp_attention fp)) @
        out_u32 (at_xattn_tau (fp_attention fp)) @ out_u32 (at_xattn_min_len (fp_attention fp)) @
        out_u32 (fp_page_size fp) @ out_u32 (of_nat (length (fp_text_planes fp))) @
        out_u32 (of_nat (length (fp_backend_planes fp))) @ out_u64 (fp_gdn_conv_bytes fp) @
        out_u64 (fp_gdn_recurrent_bytes fp) @ out_u64 (fp_cyclic_lane_bytes fp) @ out_u32 (fp_cyclic_layers fp) @
        out_u32 (fp_cyclic_capacity fp) @ out_u32 (fp_cyclic_padded fp) @ out_u32 (fp_cyclic_kv_heads fp) @
        out_u32 (fp_cyclic_head_dim fp) @ out_u32 (fp_snapshot_version fp) @
        concat (map encode_plane_schema (fp_text_planes fp)) @
        concat (map encode_plane_schema (fp_backend_planes fp))))"

definition fingerprint_fields :: "u8 list \<Rightarrow> (fingerprint \<times> u8 list) result" where
  "fingerprint_fields r =
     bind_result (in_u32 r) (\<lambda>(version, r).
     if version \<noteq> kDiskFormatVersion then Inl Runtime_error
     else
     bind_result (in_str r) (\<lambda>(model_id, r).
     bind_result (in_str r) (\<lambda>(weights_id, r).
     bind_result (in_str r) (\<lambda>(artifact, r).
     bind_result (in_u8 r) (\<lambda>(kv_cache, r).
     bind_result (in_u8 r) (\<lambda>(speculative, r).
     bind_result (in_u8 r) (\<lambda>(sage, r).
     bind_result (in_u32 r) (\<lambda>(keep_frac, r).
     bind_result (in_u32 r) (\<lambda>(tau, r).
     bind_result (in_u32 r) (\<lambda>(min_len, r).
     bind_result (in_u32 r) (\<lambda>(page_size, r).
     bind_result (in_u32 r) (\<lambda>(text_plane_count, r).
     bind_result (in_u32 r) (\<lambda>(backend_plane_count, r).
     bind_result (in_u64 r) (\<lambda>(conv, r).
     bind_result (in_u64 r) (\<lambda>(recurrent, r).
     bind_result (in_u64 r) (\<lambda>(lane, r).
     bind_result (in_u32 r) (\<lambda>(layers, r).
     bind_result (in_u32 r) (\<lambda>(capacity, r).
     bind_result (in_u32 r) (\<lambda>(padded, r).
     bind_result (in_u32 r) (\<lambda>(kv_heads, r).
     bind_result (in_u32 r) (\<lambda>(head_dim, r).
     bind_result (in_u32 r) (\<lambda>(snapshot, r).
     if (ucast text_plane_count + ucast backend_plane_count :: u64) > push_bit 20 1 \<or>
        length r div unat kDiskFingerprintPlaneBytes < unat (ucast text_plane_count + ucast backend_plane_count :: u64)
     then Inl Runtime_error
     else
     bind_result (read_many (decode_plane_schema page_size) (unat text_plane_count) r) (\<lambda>(text_planes, r).
     bind_result (read_many (decode_plane_schema page_size) (unat backend_plane_count) r) (\<lambda>(backend_planes, r).
       Inr (\<lparr> fp_artifact_tensor_identity = artifact, fp_model_id = model_id, fp_weights_id = weights_id,
              fp_kv_cache = kv_cache, fp_speculative = speculative,
              fp_attention = \<lparr> at_sage_attn = (sage \<noteq> 0), at_keep_frac = keep_frac, at_xattn_tau = tau,
                at_xattn_min_len = min_len \<rparr>,
              fp_page_size = page_size, fp_gdn_conv_bytes = conv, fp_gdn_recurrent_bytes = recurrent,
              fp_cyclic_lane_bytes = lane, fp_cyclic_layers = layers, fp_cyclic_capacity = capacity,
              fp_cyclic_padded = padded, fp_cyclic_kv_heads = kv_heads, fp_cyclic_head_dim = head_dim,
              fp_snapshot_version = snapshot, fp_text_planes = text_planes,
              fp_backend_planes = backend_planes \<rparr>, r)))))))))))))))))))))))))"

definition decode_fingerprint :: "u8 list \<Rightarrow> fingerprint result" where
  "decode_fingerprint bytes =
     (if length bytes < 8 \<or> take 8 bytes \<noteq> kDiskFingerprintMagic then Inl Runtime_error
      else bind_result (fingerprint_fields (drop 8 bytes)) (\<lambda>(fp, r).
        if r \<noteq> [] then Inl Runtime_error else Inr fp))"

text \<open>IEEE single-precision comparison on the bits: \<^verbatim>\<open>a == b\<close> and \<^verbatim>\<open>a < 1.0f\<close>.\<close>

definition f32_nan :: "u32 \<Rightarrow> bool" where
  "f32_nan a = (a AND 0x7fffffff > 0x7f800000)"

definition f32_eq :: "u32 \<Rightarrow> u32 \<Rightarrow> bool" where
  "f32_eq a b = (\<not> f32_nan a \<and> \<not> f32_nan b \<and> (a = b \<or> a AND 0x7fffffff = 0 \<and> b AND 0x7fffffff = 0))"

definition f32_less_one :: "u32 \<Rightarrow> bool" where
  "f32_less_one a = (\<not> f32_nan a \<and> (bit a 31 \<or> a < 0x3f800000))"

fun compare_fields :: "bool list \<Rightarrow> unit result" where
  "compare_fields [] = Inr ()"
| "compare_fields (ok # oks) = (if ok then compare_fields oks else Inl Runtime_error)"

definition check_fingerprint :: "fingerprint \<Rightarrow> fingerprint \<Rightarrow> unit result" where
  "check_fingerprint have_fp want =
     compare_fields [
       fp_model_id have_fp = fp_model_id want, fp_weights_id have_fp = fp_weights_id want,
       fp_artifact_tensor_identity have_fp = fp_artifact_tensor_identity want,
       fp_kv_cache have_fp = fp_kv_cache want, fp_speculative have_fp = fp_speculative want,
       at_sage_attn (fp_attention have_fp) = at_sage_attn (fp_attention want),
       f32_eq (at_keep_frac (fp_attention have_fp)) (at_keep_frac (fp_attention want)),
       f32_eq (at_xattn_tau (fp_attention have_fp)) (at_xattn_tau (fp_attention want)),
       (if f32_less_one (at_xattn_tau (fp_attention want))
        then at_xattn_min_len (fp_attention have_fp) = at_xattn_min_len (fp_attention want) else True),
       fp_page_size have_fp = fp_page_size want,
       length (fp_text_planes have_fp) = length (fp_text_planes want),
       length (fp_backend_planes have_fp) = length (fp_backend_planes want),
       fp_gdn_conv_bytes have_fp = fp_gdn_conv_bytes want,
       fp_gdn_recurrent_bytes have_fp = fp_gdn_recurrent_bytes want,
       fp_cyclic_lane_bytes have_fp = fp_cyclic_lane_bytes want, fp_cyclic_layers have_fp = fp_cyclic_layers want,
       fp_cyclic_capacity have_fp = fp_cyclic_capacity want, fp_cyclic_padded have_fp = fp_cyclic_padded want,
       fp_cyclic_kv_heads have_fp = fp_cyclic_kv_heads want, fp_cyclic_head_dim have_fp = fp_cyclic_head_dim want,
       fp_snapshot_version have_fp = fp_snapshot_version want,
       fp_text_planes have_fp = fp_text_planes want, fp_backend_planes have_fp = fp_backend_planes want]"

section \<open>Entry metadata\<close>

record checkpoint_slot =
  sl_frontier :: u32
  sl_hash_lo :: u64
  sl_hash_hi :: u64
  sl_kind :: u32
  sl_gdn_id :: u64
  sl_hidden_id :: u64
  sl_dflash_id :: u64

record disk_meta =
  me_entry_id :: u64
  me_execution_frontier :: u32
  me_ledger_frontier :: u32
  me_rope_delta :: u32
  me_text_kv_valid :: u32
  me_mtp_kv_valid :: u32
  me_dflash_context_frontier :: u32
  me_tail_hidden_valid :: bool
  me_rewrite_valid :: bool
  me_rewrite_kind :: u8
  me_hash_c_valid :: bool
  me_rewrite_frontier :: u32
  me_hash_f :: "u64 \<times> u64"
  me_hash_c :: "u64 \<times> u64"
  me_ledger_id :: u64
  me_identity_id :: u64
  me_current_gdn_id :: u64
  me_current_hidden_id :: u64
  me_current_cyclic_id :: u64
  me_rewrite_gdn_id :: u64
  me_rewrite_hidden_id :: u64
  me_rewrite_cyclic_id :: u64
  me_rollback :: checkpoint_slot
  me_ladder0 :: checkpoint_slot
  me_ladder1 :: checkpoint_slot
  me_main_page_ids :: "u64 list"
  me_backend_page_ids :: "u64 list"

definition valid_checkpoint_kind :: "u32 \<Rightarrow> bool" where "valid_checkpoint_kind kind = (kind \<le> 2)"
definition valid_rewrite_kind :: "u8 \<Rightarrow> bool" where "valid_rewrite_kind kind = (kind \<le> 1)"
definition valid_state_kind :: "u8 \<Rightarrow> bool" where "valid_state_kind kind = (kind \<ge> 1 \<and> kind \<le> 12)"

definition encode_slot :: "checkpoint_slot \<Rightarrow> u8 list" where
  "encode_slot slot =
     out_u32 (sl_frontier slot) @ out_u32 (sl_kind slot) @ out_u64 (sl_hash_lo slot) @ out_u64 (sl_hash_hi slot) @
     out_u64 (sl_gdn_id slot) @ out_u64 (sl_hidden_id slot) @ out_u64 (sl_dflash_id slot)"

definition decode_slot :: "u8 list \<Rightarrow> (checkpoint_slot \<times> u8 list) result" where
  "decode_slot r =
     bind_result (in_u32 r) (\<lambda>(frontier, r). bind_result (in_u32 r) (\<lambda>(kind, r).
     bind_result (in_u64 r) (\<lambda>(lo, r). bind_result (in_u64 r) (\<lambda>(hi, r).
     bind_result (in_u64 r) (\<lambda>(gdn, r). bind_result (in_u64 r) (\<lambda>(hidden, r).
     bind_result (in_u64 r) (\<lambda>(dflash, r).
       Inr (\<lparr> sl_frontier = frontier, sl_hash_lo = lo, sl_hash_hi = hi, sl_kind = kind, sl_gdn_id = gdn,
              sl_hidden_id = hidden, sl_dflash_id = dflash \<rparr>, r))))))))"

definition encode_meta :: "disk_meta \<Rightarrow> u8 list" where
  "encode_meta m =
     kDiskMetaMagic @ out_u32 kDiskFormatVersion @ out_u64 (me_entry_id m) @ out_u32 (me_execution_frontier m) @
     out_u32 (me_ledger_frontier m) @ out_u32 (me_rope_delta m) @ out_u32 (me_text_kv_valid m) @
     out_u32 (me_mtp_kv_valid m) @ out_u32 (me_dflash_context_frontier m) @
     out_u8 (bool_code (me_tail_hidden_valid m)) @ out_u8 (bool_code (me_rewrite_valid m)) @
     out_u8 (me_rewrite_kind m) @ out_u8 (bool_code (me_hash_c_valid m)) @ out_u32 (me_rewrite_frontier m) @
     out_u64 (fst (me_hash_f m)) @ out_u64 (snd (me_hash_f m)) @ out_u64 (fst (me_hash_c m)) @
     out_u64 (snd (me_hash_c m)) @ out_u64 (me_ledger_id m) @ out_u64 (me_identity_id m) @
     out_u64 (me_current_gdn_id m) @ out_u64 (me_current_hidden_id m) @ out_u64 (me_current_cyclic_id m) @
     out_u64 (me_rewrite_gdn_id m) @ out_u64 (me_rewrite_hidden_id m) @ out_u64 (me_rewrite_cyclic_id m) @
     encode_slot (me_rollback m) @ encode_slot (me_ladder0 m) @ encode_slot (me_ladder1 m) @
     out_u32 (of_nat (length (me_main_page_ids m))) @ out_u32 (of_nat (length (me_backend_page_ids m))) @
     concat (map out_u64 (me_main_page_ids m)) @ concat (map out_u64 (me_backend_page_ids m))"

text \<open>The slot kinds: ladder is 0, turn rollback 1.\<close>

definition slot_misfiled :: "checkpoint_slot \<Rightarrow> u32 \<Rightarrow> bool" where
  "slot_misfiled slot kind =
     (sl_frontier slot \<noteq> 0 \<and> (sl_kind slot \<noteq> kind \<or> \<not> valid_checkpoint_kind (sl_kind slot)))"

definition meta_fields :: "u8 list \<Rightarrow> (disk_meta \<times> u8 list) result" where
  "meta_fields r =
     bind_result (in_u32 r) (\<lambda>(version, r).
     if version \<noteq> kDiskFormatVersion then Inl Runtime_error
     else
     bind_result (in_u64 r) (\<lambda>(entry_id, r).
     bind_result (in_u32 r) (\<lambda>(execution, r).
     bind_result (in_u32 r) (\<lambda>(ledger, r).
     bind_result (in_u32 r) (\<lambda>(rope, r).
     bind_result (in_u32 r) (\<lambda>(text_kv, r).
     bind_result (in_u32 r) (\<lambda>(mtp_kv, r).
     bind_result (in_u32 r) (\<lambda>(dflash, r).
     bind_result (in_u8 r) (\<lambda>(tail, r).
     bind_result (in_u8 r) (\<lambda>(rewrite, r).
     bind_result (in_u8 r) (\<lambda>(rewrite_kind, r).
     bind_result (in_u8 r) (\<lambda>(c_valid, r).
     bind_result (in_u32 r) (\<lambda>(rewrite_frontier, r).
     bind_result (in_u64 r) (\<lambda>(f_lo, r).
     bind_result (in_u64 r) (\<lambda>(f_hi, r).
     bind_result (in_u64 r) (\<lambda>(c_lo, r).
     bind_result (in_u64 r) (\<lambda>(c_hi, r).
     bind_result (in_u64 r) (\<lambda>(ledger_id, r).
     bind_result (in_u64 r) (\<lambda>(identity_id, r).
     bind_result (in_u64 r) (\<lambda>(current_gdn, r).
     bind_result (in_u64 r) (\<lambda>(current_hidden, r).
     bind_result (in_u64 r) (\<lambda>(current_cyclic, r).
     bind_result (in_u64 r) (\<lambda>(rewrite_gdn, r).
     bind_result (in_u64 r) (\<lambda>(rewrite_hidden, r).
     bind_result (in_u64 r) (\<lambda>(rewrite_cyclic, r).
     bind_result (decode_slot r) (\<lambda>(rollback, r).
     bind_result (decode_slot r) (\<lambda>(ladder0, r).
     bind_result (decode_slot r) (\<lambda>(ladder1, r).
     if (rewrite \<noteq> 0 \<and> \<not> valid_rewrite_kind rewrite_kind) \<or> slot_misfiled rollback 1 \<or>
        slot_misfiled ladder0 0 \<or> slot_misfiled ladder1 0
     then Inl Runtime_error
     else
     bind_result (in_u32 r) (\<lambda>(main_n, r).
     bind_result (in_u32 r) (\<lambda>(backend_n, r).
     if main_n > kDiskMetaMaxPageIds \<or> backend_n > kDiskMetaMaxPageIds then Inl Runtime_error
     else
     let need = (ucast main_n * 8 + ucast backend_n * 8 :: u64) in
     if need div 8 \<noteq> ucast main_n + ucast backend_n \<or> length r < unat need then Inl Runtime_error
     else
     bind_result (read_many in_u64 (unat main_n) r) (\<lambda>(main_ids, r).
     bind_result (read_many in_u64 (unat backend_n) r) (\<lambda>(backend_ids, r).
       Inr (\<lparr> me_entry_id = entry_id, me_execution_frontier = execution, me_ledger_frontier = ledger,
              me_rope_delta = rope, me_text_kv_valid = text_kv, me_mtp_kv_valid = mtp_kv,
              me_dflash_context_frontier = dflash, me_tail_hidden_valid = (tail \<noteq> 0),
              me_rewrite_valid = (rewrite \<noteq> 0), me_rewrite_kind = rewrite_kind, me_hash_c_valid = (c_valid \<noteq> 0),
              me_rewrite_frontier = rewrite_frontier, me_hash_f = (f_lo, f_hi), me_hash_c = (c_lo, c_hi),
              me_ledger_id = ledger_id, me_identity_id = identity_id, me_current_gdn_id = current_gdn,
              me_current_hidden_id = current_hidden, me_current_cyclic_id = current_cyclic,
              me_rewrite_gdn_id = rewrite_gdn, me_rewrite_hidden_id = rewrite_hidden,
              me_rewrite_cyclic_id = rewrite_cyclic, me_rollback = rollback, me_ladder0 = ladder0,
              me_ladder1 = ladder1, me_main_page_ids = main_ids, me_backend_page_ids = backend_ids \<rparr>, r)))))))))))))))))))))))))))))))))"

text \<open>Any exception, like any failed test, is \<^verbatim>\<open>nullopt\<close>.\<close>

definition try_decode_meta :: "u8 list \<Rightarrow> disk_meta option" where
  "try_decode_meta bytes =
     (if length bytes < 16 \<or> take 8 bytes \<noteq> kDiskMetaMagic then None
      else case meta_fields (drop 8 bytes) of Inl _ \<Rightarrow> None | Inr (m, _) \<Rightarrow> Some m)"

section \<open>Tombstones\<close>

definition add_object :: "object_kind \<Rightarrow> u64 \<Rightarrow> (object_kind \<times> u64) list" where
  "add_object kind oid = (if oid \<noteq> 0 then [(kind, oid)] else [])"

definition slot_objects :: "checkpoint_slot \<Rightarrow> (object_kind \<times> u64) list" where
  "slot_objects slot =
     add_object State_Object (sl_gdn_id slot) @ add_object State_Object (sl_hidden_id slot) @
     add_object State_Object (sl_dflash_id slot)"

definition meta_objects :: "disk_meta \<Rightarrow> (object_kind \<times> u64) list" where
  "meta_objects m =
     add_object Ledger_Object (me_ledger_id m) @ add_object Identity_Object (me_identity_id m) @
     add_object State_Object (me_current_gdn_id m) @ add_object State_Object (me_current_hidden_id m) @
     add_object State_Object (me_current_cyclic_id m) @ add_object State_Object (me_rewrite_gdn_id m) @
     add_object State_Object (me_rewrite_hidden_id m) @ add_object State_Object (me_rewrite_cyclic_id m) @
     slot_objects (me_rollback m) @ slot_objects (me_ladder0 m) @ slot_objects (me_ladder1 m) @
     concat (map (add_object Main_Object) (me_main_page_ids m)) @
     concat (map (add_object Backend_Object) (me_backend_page_ids m))"

definition append_meta_objects :: "(object_kind \<times> u64) list \<Rightarrow> disk_meta \<Rightarrow> (object_kind \<times> u64) list" where
  "append_meta_objects out m = out @ meta_objects m"

definition encode_tombstone :: "(object_kind \<times> u64) list \<Rightarrow> u8 list" where
  "encode_tombstone objects =
     kDiskTombstoneMagic @ out_u32 kDiskFormatVersion @ out_u32 (of_nat (length objects)) @
     concat (map (\<lambda>(kind, oid). out_u8 (of_nat (kind_index kind)) @ out_u64 oid) objects)"

fun tombstone_loop :: "nat \<Rightarrow> u8 list \<Rightarrow> (object_kind \<times> u64) list result" where
  "tombstone_loop 0 r = Inr []"
| "tombstone_loop (Suc n) r =
     bind_result (in_u8 r) (\<lambda>(kind, r). bind_result (in_u64 r) (\<lambda>(oid, r).
     if kind > 4 then Inl Runtime_error
     else bind_result (tombstone_loop n r) (\<lambda>objects.
       Inr (if oid \<noteq> 0 then (object_kinds ! unat kind, oid) # objects else objects))))"

definition tombstone_fields :: "u8 list \<Rightarrow> (object_kind \<times> u64) list result" where
  "tombstone_fields r =
     bind_result (in_u32 r) (\<lambda>(version, r).
     if version \<noteq> kDiskFormatVersion then Inl Runtime_error
     else bind_result (in_u32 r) (\<lambda>(n, r).
     if n > push_bit 20 1 then Inl Runtime_error
     else
     let need = (ucast n * 9 :: u64) in
     if need div 9 \<noteq> ucast n \<or> length r < unat need then Inl Runtime_error
     else tombstone_loop (unat n) r))"

definition try_decode_tombstone :: "u8 list \<Rightarrow> (object_kind \<times> u64) list option" where
  "try_decode_tombstone bytes =
     (if bytes = [] then None
      else if length bytes < 16 \<or> take 8 bytes \<noteq> kDiskTombstoneMagic then None
      else case tombstone_fields (drop 8 bytes) of Inl _ \<Rightarrow> None | Inr objects \<Rightarrow> Some objects)"

section \<open>Entry bookkeeping\<close>

fun kind_conflict_with :: "object_kind \<times> u64 \<Rightarrow> (object_kind \<times> u64) list \<Rightarrow> bool" where
  "kind_conflict_with o1 [] = False"
| "kind_conflict_with o1 (o2 # os) = ((snd o2 = snd o1 \<and> fst o1 \<noteq> fst o2) \<or> kind_conflict_with o1 os)"

fun owned_id_kind_conflict :: "(object_kind \<times> u64) list \<Rightarrow> bool" where
  "owned_id_kind_conflict [] = False"
| "owned_id_kind_conflict (o1 # os) =
     (if snd o1 = 0 then owned_id_kind_conflict os
      else kind_conflict_with o1 os \<or> owned_id_kind_conflict os)"

text \<open>The bounded set of the smallest ids; the priority queue is the ascending list of its elements.\<close>

record bounded_id_set =
  bs_limit :: u32
  bs_seen :: u32
  bs_heap :: "u64 list"

definition bounded_id_set_init :: "u32 \<Rightarrow> bounded_id_set" where
  "bounded_id_set_init n = \<lparr> bs_limit = n, bs_seen = 0, bs_heap = [] \<rparr>"

definition bounded_consider :: "u64 \<Rightarrow> bounded_id_set \<Rightarrow> bounded_id_set" where
  "bounded_consider oid st =
     (let st = st\<lparr> bs_seen := bs_seen st + 1 \<rparr> in
      if bs_limit st = 0 then st
      else if length (bs_heap st) < unat (bs_limit st) then st\<lparr> bs_heap := insort oid (bs_heap st) \<rparr>
      else if oid < last (bs_heap st) then st\<lparr> bs_heap := insort oid (butlast (bs_heap st)) \<rparr>
      else st)"

definition bounded_take_sorted :: "bounded_id_set \<Rightarrow> u64 list" where
  "bounded_take_sorted st = sort (rev (bs_heap st))"

end
