(* ===== verification/Disk_Roundtrip.thy ===== *)
theory Disk_Roundtrip
  imports Disk_Format
begin

text \<open>
  What the disk tier reads back: the generation file decodes exactly the files that were written, on
  any processor; entry metadata and fingerprints survive the round trip and no torn copy of them
  is accepted; a tombstone restores the objects it was written for.
\<close>

section \<open>Generation file\<close>

lemma trailing_crc_iff:
  assumes "i + 4 \<le> length bytes"
  shows "trailing_crc bytes i = c \<longleftrightarrow> take 4 (drop i bytes) = out_u32 c"
proof -
  have "take 4 (drop i bytes) = [bytes ! i, bytes ! (i + 1), bytes ! (i + 2), bytes ! (i + 3)]"
    using assms by (intro nth_equalityI) (auto simp: less_Suc_eq numeral_eq_Suc)
  then show ?thesis
    using load_le_out [of "take 4 (drop i bytes)" c] assms unfolding trailing_crc_def load_le_parts(2) by simp
qed

lemma packset_fields_iff:
  "packset_fields bs = Inr ((v, g, n), rest) \<longleftrightarrow> bs = out_u32 v @ out_u64 g @ out_u64 n @ rest"
  by (auto simp: packset_fields_def bind_result_eq_Inr scalar_iff_out)

lemma magic_lengths [simp]:
  "length kDiskPackSetMagic = 8" "length kDiskFingerprintMagic = 8" "length kDiskMetaMagic = 8"
  "length kDiskTombstoneMagic = 8" "length kDiskObjectMapMagic = 8"
  by (simp_all add: kDiskPackSetMagic_def kDiskFingerprintMagic_def kDiskMetaMagic_def kDiskTombstoneMagic_def
      kDiskObjectMapMagic_def)

definition packset_body :: "u64 \<Rightarrow> u64 \<Rightarrow> u8 list" where
  "packset_body g n = kDiskPackSetMagic @ out_u32 kDiskFormatVersion @ out_u64 g @ out_u64 n"

lemma packset_body_length [simp]: "length (packset_body g n) = 28"
  by (simp add: packset_body_def)

lemma decode_packset_iff:
  "decode_packset hw bytes = Some (g, n) \<longleftrightarrow>
    bytes = packset_body g n @ out_u32 (crc32c hw (packset_body g n)) \<and> g \<noteq> 0 \<and> n \<noteq> 0"
proof
  assume d: "decode_packset hw bytes = Some (g, n)"
  then have len: "length bytes = 32" and magic: "take 8 bytes = kDiskPackSetMagic"
    and crc: "crc32c hw (take 28 bytes) = trailing_crc bytes 28"
    by (auto simp: decode_packset_def split: if_splits)
  obtain v r where f: "packset_fields (take 20 (drop 8 bytes)) = Inr ((v, g, n), r)" and v: "v = kDiskFormatVersion"
    and nz: "g \<noteq> 0" "n \<noteq> 0"
    using d by (auto simp: decode_packset_def split: if_splits sum.splits)
  have body: "take 20 (drop 8 bytes) = out_u32 v @ out_u64 g @ out_u64 n @ r" using f unfolding packset_fields_iff .
  have "length (take 20 (drop 8 bytes)) = 20" using len by simp
  then have "r = []" unfolding body by simp
  have "take 28 bytes = take 8 bytes @ take 20 (drop 8 bytes)" by (simp add: take_add [of 8 20, simplified])
  then have first: "take 28 bytes = packset_body g n" using body magic v \<open>r = []\<close> by (simp add: packset_body_def)
  have "take 4 (drop 28 bytes) = out_u32 (crc32c hw (take 28 bytes))"
    using trailing_crc_iff [of 28 bytes "crc32c hw (take 28 bytes)"] len crc [symmetric] by simp
  moreover have "take 4 (drop 28 bytes) = drop 28 bytes" using len by simp
  ultimately have "drop 28 bytes = out_u32 (crc32c hw (packset_body g n))" by (simp only: first)
  then have "bytes = packset_body g n @ out_u32 (crc32c hw (packset_body g n))"
    using append_take_drop_id [of 28 bytes] by (simp only: first)
  then show "bytes = packset_body g n @ out_u32 (crc32c hw (packset_body g n)) \<and> g \<noteq> 0 \<and> n \<noteq> 0" using nz by blast
next
  assume a: "bytes = packset_body g n @ out_u32 (crc32c hw (packset_body g n)) \<and> g \<noteq> 0 \<and> n \<noteq> 0"
  then have "trailing_crc bytes 28 = crc32c hw (packset_body g n)" by (subst trailing_crc_iff) simp_all
  moreover have "take 20 (drop 8 bytes) = out_u32 kDiskFormatVersion @ out_u64 g @ out_u64 n @ []" "take 8 bytes = kDiskPackSetMagic"
    using a by (simp_all add: packset_body_def)
  then have "packset_fields (take 20 (drop 8 bytes)) = Inr ((kDiskFormatVersion, g, n), [])" by (simp only: packset_fields_iff)
  ultimately show "decode_packset hw bytes = Some (g, n)" using a \<open>take 8 bytes = kDiskPackSetMagic\<close> by (simp add: decode_packset_def)
qed

section \<open>Entry metadata\<close>

lemma bool_code_iff [simp]: "bool_code b \<noteq> 0 \<longleftrightarrow> b"
  by (simp add: bool_code_def)

interpretation slot_codec: codec encode_slot decode_slot "\<lambda>_. True"
proof
  fix x :: checkpoint_slot and rest
  show "decode_slot (encode_slot x @ rest) = Inr (x, rest)" by (simp add: decode_slot_def encode_slot_def scalar_read)
next
  fix bs rest and x :: checkpoint_slot
  assume "decode_slot bs = Inr (x, rest)"
  then show "True \<and> bs = encode_slot x @ rest"
    by (auto simp: decode_slot_def encode_slot_def bind_result_eq_Inr scalar_iff_out)
qed

definition meta_ok :: "disk_meta \<Rightarrow> bool" where
  "meta_ok m \<longleftrightarrow>
     (me_rewrite_valid m \<longrightarrow> valid_rewrite_kind (me_rewrite_kind m)) \<and> \<not> slot_misfiled (me_rollback m) 1 \<and>
     \<not> slot_misfiled (me_ladder0 m) 0 \<and> \<not> slot_misfiled (me_ladder1 m) 0 \<and>
     length (me_main_page_ids m) \<le> 2 ^ 16 \<and> length (me_backend_page_ids m) \<le> 2 ^ 16"

lemma u32_length: "n \<le> 2 ^ 20 \<Longrightarrow> unat (of_nat n :: u32) = n"
  by (simp add: unat_of_nat)

lemma page_need:
  assumes "n \<le> 2 ^ 16" "k \<le> 2 ^ 16"
  shows "unat (ucast (of_nat n :: u32) * 8 + ucast (of_nat k :: u32) * 8 :: u64) = 8 * n + 8 * k"
    and "(ucast (of_nat n :: u32) * 8 + ucast (of_nat k :: u32) * 8 :: u64) div 8 = ucast (of_nat n :: u32) + ucast (of_nat k :: u32)"
proof -
  have c: "ucast (of_nat i :: u32) = (of_nat i :: u64)" if "i \<le> 2 ^ 16" for i :: nat
    using that by (intro unat_eqD) (simp add: unat_of_nat unat_ucast_u64)
  have e: "(ucast (of_nat n :: u32) * 8 + ucast (of_nat k :: u32) * 8 :: u64) = of_nat (8 * n + 8 * k)"
    by (simp add: c [OF assms(1)] c [OF assms(2)] algebra_simps)
  show u: "unat (ucast (of_nat n :: u32) * 8 + ucast (of_nat k :: u32) * 8 :: u64) = 8 * n + 8 * k"
    unfolding e using assms by (simp add: unat_of_nat del: of_nat_add of_nat_mult)
  show "(ucast (of_nat n :: u32) * 8 + ucast (of_nat k :: u32) * 8 :: u64) div 8 = ucast (of_nat n :: u32) + ucast (of_nat k :: u32)"
    by (rule unat_eqD) (use u assms in \<open>simp add: unat_div c unat_of_nat del: of_nat_add add: of_nat_add [symmetric]\<close>)
qed

lemma slot_length [simp]: "length (encode_slot s) = 48"
  by (simp add: encode_slot_def)

lemma ids_length [simp]: "length (concat (map out_u64 ids)) = 8 * length ids"
  by (induction ids) simp_all

definition meta_body :: "disk_meta \<Rightarrow> u8 list" where
  "meta_body m = drop 8 (encode_meta m)"

lemma encode_meta_body: "encode_meta m = kDiskMetaMagic @ meta_body m"
  by (simp add: meta_body_def encode_meta_def)

lemma meta_fields_encode:
  assumes "meta_ok m"
  shows "meta_fields (meta_body m) = Inr (m, [])"
proof -
  have n: "unat (of_nat (length (me_main_page_ids m)) :: u32) = length (me_main_page_ids m)"
    "unat (of_nat (length (me_backend_page_ids m)) :: u32) = length (me_backend_page_ids m)"
    using assms by (simp_all add: meta_ok_def unat_of_nat)
  have le: "\<not> of_nat (length (me_main_page_ids m)) > kDiskMetaMaxPageIds" "\<not> of_nat (length (me_backend_page_ids m)) > kDiskMetaMaxPageIds"
    using assms n by (simp_all add: word_less_nat_alt kDiskMetaMaxPageIds_def meta_ok_def)
  have need: "length (concat (map out_u64 (me_main_page_ids m)) @ concat (map out_u64 (me_backend_page_ids m))) =
      unat (ucast (of_nat (length (me_main_page_ids m)) :: u32) * 8 + ucast (of_nat (length (me_backend_page_ids m)) :: u32) * 8 :: u64)"
    using page_need(1) assms by (simp add: meta_ok_def)
  have div8: "(ucast (of_nat (length (me_main_page_ids m)) :: u32) * 8 + ucast (of_nat (length (me_backend_page_ids m)) :: u32) * 8 :: u64) div 8 =
      ucast (of_nat (length (me_main_page_ids m)) :: u32) + ucast (of_nat (length (me_backend_page_ids m)) :: u32)"
    using page_need(2) assms by (simp add: meta_ok_def)
  note many = u64_codec.read_many_enc [of "me_main_page_ids m"] u64_codec.read_many_enc [of "me_backend_page_ids m" "[]"]
  show ?thesis
    using assms le need div8 many n
    by (simp add: meta_fields_def meta_body_def encode_meta_def scalar_read slot_codec.dec_enc meta_ok_def Let_def)
qed

lemma meta_fields_extends: "extends meta_fields"
  unfolding meta_fields_def [abs_def] Let_def by (intro reader_extends slot_codec.extends_dec)

section \<open>Fingerprint\<close>

definition schema_ok :: "u32 \<Rightarrow> plane_schema \<Rightarrow> bool" where
  "schema_ok page_size plane \<longleftrightarrow>
     plane_schema_bytes (ds_dtype plane) page_size (ds_leading_extent plane) (ds_head_extent plane) = Inr (ds_page_bytes plane)"

lemma dtype_code_nth: "dtypes ! unat (dtype_code d) = d" "\<not> dtype_code d > 7"
  by (cases d; simp add: dtypes_def)+

lemma order_code_nth: "[PageMajor, HeadMajor] ! unat (order_code ord) = ord" "\<not> order_code ord > 1"
  by (cases ord; simp)+

lemma u8_small: "\<not> v > (n :: u8) \<Longrightarrow> unat v \<le> unat n"
  by (simp add: word_less_nat_alt)

lemma dtype_nth_code: "\<not> v > 7 \<Longrightarrow> dtype_code (dtypes ! unat v) = v"
proof -
  assume v: "\<not> v > 7"
  have "unat v \<le> 7" using u8_small [OF v] by simp
  then have "unat v \<in> {0, 1, 2, 3, 4, 5, 6, 7}" by auto
  then have "unat (dtype_code (dtypes ! unat v)) = unat v" by (auto simp: dtypes_def)
  then show ?thesis by (rule unat_eqD)
qed

lemma order_nth_code: "\<not> v > 1 \<Longrightarrow> order_code ([PageMajor, HeadMajor] ! unat v) = v"
proof -
  assume v: "\<not> v > 1"
  have "unat v \<le> 1" using u8_small [OF v] by simp
  then have "unat v \<in> {0, 1}" by auto
  then have "unat (order_code ([PageMajor, HeadMajor] ! unat v)) = unat v" by auto
  then show ?thesis by (rule unat_eqD)
qed

interpretation plane_codec: codec encode_plane_schema "decode_plane_schema page_size" "schema_ok page_size" for page_size
proof
  fix x :: plane_schema and rest
  assume "schema_ok page_size x"
  then show "decode_plane_schema page_size (encode_plane_schema x @ rest) = Inr (x, rest)"
    by (simp add: decode_plane_schema_def encode_plane_schema_def scalar_read dtype_code_nth order_code_nth schema_ok_def
        del: not_less)
next
  fix bs rest and x :: plane_schema
  assume "decode_plane_schema page_size bs = Inr (x, rest)"
  then obtain d w l h b r where bs: "bs = out_u8 d @ out_u8 w @ out_u16 0 @ out_u32 l @ out_u32 h @ out_u64 b @ r"
    and g: "\<not> d > 7" "\<not> w > 1"
    and c: "(case plane_schema_bytes (dtypes ! unat d) page_size l h of Inl e \<Rightarrow> Inl e
      | Inr bytes \<Rightarrow> if b \<noteq> bytes then Inl Runtime_error
         else Inr (\<lparr> ds_dtype = dtypes ! unat d, ds_order = [PageMajor, HeadMajor] ! unat w,
                     ds_leading_extent = l, ds_head_extent = h, ds_page_bytes = b \<rparr>, r)) = Inr (x, rest)"
    by (auto simp: decode_plane_schema_def bind_result_eq_Inr scalar_iff_out split: if_splits)
  from c have "plane_schema_bytes (dtypes ! unat d) page_size l h = Inr b" "r = rest"
    "x = \<lparr> ds_dtype = dtypes ! unat d, ds_order = [PageMajor, HeadMajor] ! unat w,
       ds_leading_extent = l, ds_head_extent = h, ds_page_bytes = b \<rparr>"
    by (auto split: sum.splits if_splits)
  then show "schema_ok page_size x \<and> bs = encode_plane_schema x @ rest"
    unfolding bs using g by (simp add: schema_ok_def encode_plane_schema_def dtype_nth_code order_nth_code)
qed

definition fingerprint_ok :: "fingerprint \<Rightarrow> bool" where
  "fingerprint_ok fp \<longleftrightarrow>
     length (fp_model_id fp) < 2 ^ 32 \<and> length (fp_weights_id fp) < 2 ^ 32 \<and>
     length (fp_artifact_tensor_identity fp) < 2 ^ 32 \<and>
     length (fp_text_planes fp) + length (fp_backend_planes fp) \<le> 2 ^ 20 \<and>
     (\<forall>plane\<in>set (fp_text_planes fp) \<union> set (fp_backend_planes fp). schema_ok (fp_page_size fp) plane)"

lemma plane_length [simp]: "length (encode_plane_schema plane) = 20"
  by (simp add: encode_plane_schema_def)

lemma planes_length [simp]: "length (concat (map encode_plane_schema planes)) = 20 * length planes"
  by (induction planes) simp_all

lemma plane_counts:
  assumes "n + k \<le> 2 ^ 20"
  shows "unat (ucast (of_nat n :: u32) + ucast (of_nat k :: u32) :: u64) = n + k"
    and "\<not> (ucast (of_nat n :: u32) + ucast (of_nat k :: u32) :: u64) > push_bit 20 1"
proof -
  have c: "ucast (of_nat i :: u32) = (of_nat i :: u64)" if "i \<le> 2 ^ 20" for i :: nat
    using that by (intro unat_eqD) (simp add: unat_of_nat unat_ucast_u64)
  have "n \<le> 2 ^ 20" "k \<le> 2 ^ 20" using assms by simp_all
  then have e: "(ucast (of_nat n :: u32) + ucast (of_nat k :: u32) :: u64) = of_nat (n + k)" using c by simp
  show u: "unat (ucast (of_nat n :: u32) + ucast (of_nat k :: u32) :: u64) = n + k"
    unfolding e using assms by (simp add: unat_of_nat del: of_nat_add)
  show "\<not> (ucast (of_nat n :: u32) + ucast (of_nat k :: u32) :: u64) > push_bit 20 1"
    unfolding word_less_nat_alt u using assms by simp
qed

lemma fingerprint_fields_encode:
  assumes "fingerprint_ok fp"
  shows "\<exists>body. encode_fingerprint fp = Inr (kDiskFingerprintMagic @ body) \<and> fingerprint_fields body = Inr (fp, [])"
proof -
  let ?t = "fp_text_planes fp" and ?b = "fp_backend_planes fp"
  have le: "length ?t + length ?b \<le> 2 ^ 20" using assms by (simp add: fingerprint_ok_def)
  have n: "unat (of_nat (length ?t) :: u32) = length ?t" "unat (of_nat (length ?b) :: u32) = length ?b"
    using le by (simp_all add: unat_of_nat)
  have ok: "\<forall>p\<in>set ?t. schema_ok (fp_page_size fp) p" "\<forall>p\<in>set ?b. schema_ok (fp_page_size fp) p"
    using assms by (simp_all add: fingerprint_ok_def)
  note many = plane_codec.read_many_enc [OF ok(1)] plane_codec.read_many_enc [OF ok(2), of "[]"]
  show ?thesis
    using assms le plane_counts [OF le] many n
    by (simp add: encode_fingerprint_def fingerprint_fields_def scalar_read fingerprint_ok_def kDiskFingerprintPlaneBytes_def)
qed

lemma fingerprint_fields_extends: "extends fingerprint_fields"
  unfolding fingerprint_fields_def [abs_def] by (intro reader_extends plane_codec.extends_dec)

section \<open>Tombstones\<close>

lemma kind_index_nth: "object_kinds ! unat (of_nat (kind_index k) :: u8) = k" "\<not> (of_nat (kind_index k) :: u8) > 4"
  by (cases k; simp add: object_kinds_def)+

lemma tombstone_loop_encode:
  "tombstone_loop (length objects) (concat (map (\<lambda>(kind, oid). out_u8 (of_nat (kind_index kind)) @ out_u64 oid) objects)) =
    Inr (filter (\<lambda>(kind, oid). oid \<noteq> 0) objects)"
  by (induction objects) (auto simp: scalar_read kind_index_nth)

lemma tombstone_records_length:
  "length (concat (map (\<lambda>(kind, oid). out_u8 (of_nat (kind_index kind)) @ out_u64 oid) objects)) = 9 * length objects"
  by (induction objects) auto

lemma tombstone_encode:
  assumes "length objects \<le> 2 ^ 20"
  shows "try_decode_tombstone (encode_tombstone objects) = Some (filter (\<lambda>(kind, oid). oid \<noteq> 0) objects)"
proof -
  let ?n = "of_nat (length objects) :: u32"
  have n: "unat ?n = length objects" using assms by (simp add: unat_of_nat)
  have c: "ucast ?n = (of_nat (length objects) :: u64)" using assms by (intro unat_eqD) (simp add: unat_of_nat unat_ucast_u64)
  have need: "(ucast ?n * 9 :: u64) = of_nat (9 * length objects)" by (simp add: c)
  have u: "unat (ucast ?n * 9 :: u64) = 9 * length objects" unfolding need using assms by (simp add: unat_of_nat del: of_nat_mult)
  have d: "(ucast ?n * 9 :: u64) div 9 = ucast ?n"
    by (rule unat_eqD) (use u n in \<open>simp add: unat_div unat_ucast_u64\<close>)
  have small: "\<not> ?n > push_bit 20 1" unfolding word_less_nat_alt n using assms by simp
  have "tombstone_fields (drop 8 (encode_tombstone objects)) = Inr (filter (\<lambda>(kind, oid). oid \<noteq> 0) objects)"
    using small d u n by (simp add: tombstone_fields_def encode_tombstone_def scalar_read Let_def tombstone_records_length tombstone_loop_encode)
  moreover have "take 8 (encode_tombstone objects) = kDiskTombstoneMagic" "length (encode_tombstone objects) \<ge> 16"
    by (simp_all add: encode_tombstone_def)
  ultimately show ?thesis by (auto simp: try_decode_tombstone_def)
qed

lemma add_object_nonzero: "\<forall>(k, i)\<in>set (add_object kind oid). i \<noteq> 0" "length (add_object kind oid) \<le> 1"
  by (simp_all add: add_object_def)

lemma page_objects: "\<forall>(k, i)\<in>set (concat (map (add_object kind) ids)). i \<noteq> 0"
  "length (concat (map (add_object kind) ids)) \<le> length ids"
  by (induction ids) (auto simp: add_object_def)

lemma meta_objects_nonzero: "\<forall>(k, i)\<in>set (meta_objects m). i \<noteq> 0"
  unfolding meta_objects_def slot_objects_def set_append ball_Un using add_object_nonzero(1) page_objects(1) by blast

lemma meta_objects_length: "length (meta_objects m) \<le> 17 + length (me_main_page_ids m) + length (me_backend_page_ids m)"
proof -
  have "length (slot_objects sl) \<le> 3" for sl by (simp add: slot_objects_def add_object_def)
  then have "length (slot_objects (me_rollback m)) \<le> 3" "length (slot_objects (me_ladder0 m)) \<le> 3" "length (slot_objects (me_ladder1 m)) \<le> 3"
    by simp_all
  moreover have one: "length (add_object k i) \<le> 1" for k i by (rule add_object_nonzero(2))
  moreover note page_objects(2) [of Main_Object "me_main_page_ids m"] page_objects(2) [of Backend_Object "me_backend_page_ids m"]
  ultimately show ?thesis
    using one [of Ledger_Object "me_ledger_id m"] one [of Identity_Object "me_identity_id m"] one [of State_Object "me_current_gdn_id m"]
      one [of State_Object "me_current_hidden_id m"] one [of State_Object "me_current_cyclic_id m"]
      one [of State_Object "me_rewrite_gdn_id m"] one [of State_Object "me_rewrite_hidden_id m"]
      one [of State_Object "me_rewrite_cyclic_id m"]
    unfolding meta_objects_def length_append by linarith
qed

section \<open>Bounded id sets\<close>

lemma insort_before: "x \<le> y \<Longrightarrow> insort x (xs @ y # ys) = insort x xs @ y # ys"
  by (induction xs) auto

lemma insort_after:
  fixes x :: "'a :: linorder"
  assumes "sorted (xs @ ys)" "\<forall>y\<in>set xs. y \<le> x"
  shows "insort x (xs @ ys) = xs @ insort x ys"
proof -
  have "sorted (xs @ insort x ys)" using assms by (auto simp: sorted_append sorted_insort set_insort_key)
  then have "sort (x # xs @ ys) = xs @ insort x ys" by (intro properties_for_sort) simp_all
  then show ?thesis using sort_key_id_if_sorted assms(1) by (simp add: sorted_sort_id)
qed

lemma take_insort:
  fixes xs :: "'a :: linorder list"
  assumes srt: "sorted xs" and n: "0 < n"
  shows "take n (insort x xs) =
    (if length (take n xs) < n then insort x (take n xs)
     else if x < last (take n xs) then insort x (butlast (take n xs)) else take n xs)"
proof (cases "length xs < n")
  case True
  then show ?thesis by simp
next
  case False
  define a where "a = take (n - 1) xs"
  define v where "v = xs ! (n - 1)"
  define b where "b = drop n xs"
  have len: "n - 1 < length xs" using False n by simp
  have tk: "take n xs = a @ [v]" using take_Suc_conv_app_nth [OF len] n by (simp add: a_def v_def)
  have xs: "xs = a @ v # b" using append_take_drop_id [of n xs] unfolding tk b_def [symmetric] by simp
  have la: "length a = n - 1" using len by (simp add: a_def)
  show ?thesis
  proof (cases "x < v")
    case True
    then have "insort x xs = insort x a @ v # b" unfolding xs by (intro insort_before) simp
    then show ?thesis using True False tk la n by simp
  next
    case big: False
    have "\<forall>y\<in>set (a @ [v]). y \<le> x" using srt big unfolding xs by (auto simp: sorted_append)
    then have "insort x ((a @ [v]) @ b) = (a @ [v]) @ insort x b" by (rule insort_after [rotated]) (use srt xs in simp)
    then have "take n (insort x xs) = a @ [v]" unfolding xs using la n by simp
    then show ?thesis using big False tk la n by simp
  qed
qed

lemma bounded_consider_heap:
  assumes "bs_heap st = take (unat (bs_limit st)) (sort ys)"
  shows "bs_heap (bounded_consider x st) = take (unat (bs_limit st)) (sort (x # ys)) \<and>
    bs_limit (bounded_consider x st) = bs_limit st"
proof (cases "bs_limit st = 0")
  case True
  then show ?thesis using assms by (simp add: bounded_consider_def)
next
  case False
  then have "0 < unat (bs_limit st)" by (simp add: unat_gt_0)
  from take_insort [OF sorted_sort this, of x ys] show ?thesis
    using False assms by (auto simp: bounded_consider_def Let_def)
qed

lemma bounded_fold_heap:
  "bs_heap (fold bounded_consider xs (bounded_id_set_init n)) = take (unat n) (sort xs) \<and>
   bs_limit (fold bounded_consider xs (bounded_id_set_init n)) = n"
proof (induction xs rule: rev_induct)
  case Nil
  show ?case by (simp add: bounded_id_set_init_def)
next
  case (snoc x xs)
  have "sort (x # xs) = sort (xs @ [x])" by (intro properties_for_sort) simp_all
  then show ?case using snoc bounded_consider_heap [of "fold bounded_consider xs (bounded_id_set_init n)" xs x] by simp
qed

section \<open>Properties\<close>

text \<open>
  C28: the generation file is decoded exactly when it was written: for any processors at the two
  ends, decoding yields a generation and the next object id if and only if the bytes are the ones the
  encoder produces for them and both are nonzero. No other file, however corrupt, is accepted.
\<close>

theorem packset_exact:
  assumes "hardware_ok writer" "hardware_ok reader"
  shows "decode_packset reader bytes = Some (g, n) \<longleftrightarrow> bytes = encode_packset writer g n \<and> g \<noteq> 0 \<and> n \<noteq> 0"
proof -
  have "crc32c writer (packset_body g n) = crc32c reader (packset_body g n)" using crc32c_any assms by simp
  then show ?thesis unfolding decode_packset_iff encode_packset_def Let_def packset_body_def by simp
qed

theorem packset_exact_witness:
  "decode_packset None (encode_packset (Some demo_cpu) 3 17) = Some (3, 17)"
  using packset_exact [of "Some demo_cpu" None "encode_packset (Some demo_cpu) 3 17" 3 17] demo_cpu_ok
  by (simp add: hardware_ok_def)

text \<open>
  C22: an entry's metadata survives the disk: decoding what was encoded returns every field, and no
  strict prefix of it, such as a crash in the middle of the write leaves, is accepted.
\<close>

theorem meta_survives:
  assumes ok: "meta_ok m"
  shows "try_decode_meta (encode_meta m) = Some m \<and>
    (\<forall>k < length (encode_meta m). try_decode_meta (take k (encode_meta m)) = None)"
proof (intro conjI allI impI)
  have len: "length (encode_meta m) \<ge> 16" by (simp add: encode_meta_def)
  show "try_decode_meta (encode_meta m) = Some m"
    using len meta_fields_encode [OF ok] by (simp add: try_decode_meta_def encode_meta_body)
  fix k assume k: "k < length (encode_meta m)"
  show "try_decode_meta (take k (encode_meta m)) = None"
  proof (cases "k < 16")
    case False
    have "drop 8 (take k (encode_meta m)) = take (k - 8) (meta_body m)" using False by (simp add: encode_meta_body drop_take)
    moreover have "\<not> succeeds (meta_fields (take (k - 8) (meta_body m)))"
      by (rule extends_truncated [OF meta_fields_extends meta_fields_encode [OF ok]]) (use k False in \<open>simp add: encode_meta_body\<close>)
    ultimately show ?thesis by (auto simp: try_decode_meta_def succeeds_iff split: sum.splits)
  qed (simp add: try_decode_meta_def min_less_iff_disj)
qed

definition demo_slot :: "u32 \<Rightarrow> u32 \<Rightarrow> checkpoint_slot" where
  "demo_slot frontier kind = \<lparr> sl_frontier = frontier, sl_hash_lo = 1, sl_hash_hi = 2, sl_kind = kind, sl_gdn_id = 5,
     sl_hidden_id = 0, sl_dflash_id = 0 \<rparr>"

definition demo_meta :: disk_meta where
  "demo_meta = \<lparr> me_entry_id = 9, me_execution_frontier = 128, me_ledger_frontier = 130, me_rope_delta = - 1,
     me_text_kv_valid = 128, me_mtp_kv_valid = 0, me_dflash_context_frontier = 0, me_tail_hidden_valid = True,
     me_rewrite_valid = False, me_rewrite_kind = 0, me_hash_c_valid = False, me_rewrite_frontier = 0,
     me_hash_f = (3, 4), me_hash_c = (0, 0), me_ledger_id = 1, me_identity_id = 2, me_current_gdn_id = 3,
     me_current_hidden_id = 0, me_current_cyclic_id = 0, me_rewrite_gdn_id = 0, me_rewrite_hidden_id = 0,
     me_rewrite_cyclic_id = 0, me_rollback = demo_slot 64 1, me_ladder0 = demo_slot 0 7, me_ladder1 = demo_slot 32 0,
     me_main_page_ids = [11, 12], me_backend_page_ids = [13] \<rparr>"

lemma demo_meta_ok: "meta_ok demo_meta"
  by (simp add: meta_ok_def demo_meta_def demo_slot_def slot_misfiled_def valid_checkpoint_kind_def)

theorem meta_survives_witness:
  "try_decode_meta (encode_meta demo_meta) = Some demo_meta \<and> try_decode_meta (take 300 (encode_meta demo_meta)) = None"
proof -
  have "300 < length (encode_meta demo_meta)" by (simp add: encode_meta_def demo_meta_def)
  then show ?thesis using meta_survives [OF demo_meta_ok] by blast
qed

text \<open>
  C23: a fingerprint survives the disk, and only as it was written: decoding returns every field; a
  file that is cut short or has bytes appended is rejected.
\<close>

theorem fingerprint_survives:
  assumes ok: "fingerprint_ok fp"
  shows "\<exists>bytes. encode_fingerprint fp = Inr bytes \<and> decode_fingerprint bytes = Inr fp \<and>
    (\<forall>k < length bytes. \<not> succeeds (decode_fingerprint (take k bytes))) \<and>
    (\<forall>extra. extra \<noteq> [] \<longrightarrow> \<not> succeeds (decode_fingerprint (bytes @ extra)))"
proof -
  obtain body where enc: "encode_fingerprint fp = Inr (kDiskFingerprintMagic @ body)"
    and body: "fingerprint_fields body = Inr (fp, [])"
    using fingerprint_fields_encode [OF ok] by blast
  have cut: "\<not> succeeds (decode_fingerprint (take k (kDiskFingerprintMagic @ body)))" if "k < length (kDiskFingerprintMagic @ body)" for k
  proof (cases "k < 8")
    case False
    have "\<not> succeeds (fingerprint_fields (take (k - 8) body))"
      by (rule extends_truncated [OF fingerprint_fields_extends body]) (use that False in simp)
    then show ?thesis by (auto simp: decode_fingerprint_def succeeds_iff drop_take bind_result_eq_Inr)
  qed (simp add: decode_fingerprint_def)
  have "fingerprint_fields (body @ extra) = Inr (fp, [] @ extra)" for extra
    using fingerprint_fields_extends body unfolding extends_def by blast
  then have "\<not> succeeds (decode_fingerprint ((kDiskFingerprintMagic @ body) @ extra))" if "extra \<noteq> []" for extra
    using that by (simp add: decode_fingerprint_def)
  then show ?thesis using enc body cut
    by (intro exI [of _ "kDiskFingerprintMagic @ body"]) (simp add: decode_fingerprint_def)
qed

definition demo_fingerprint :: fingerprint where
  "demo_fingerprint = \<lparr> fp_artifact_tensor_identity = [1, 2], fp_model_id = [113], fp_weights_id = [], fp_kv_cache = 2,
     fp_speculative = 0,
     fp_attention = \<lparr> at_sage_attn = False, at_keep_frac = 0x3f800000, at_xattn_tau = 0x3f800000, at_xattn_min_len = 8192 \<rparr>,
     fp_page_size = 64, fp_gdn_conv_bytes = 0, fp_gdn_recurrent_bytes = 0, fp_cyclic_lane_bytes = 0,
     fp_cyclic_layers = 0, fp_cyclic_capacity = 0, fp_cyclic_padded = 0, fp_cyclic_kv_heads = 0,
     fp_cyclic_head_dim = 0, fp_snapshot_version = 8,
     fp_text_planes = [\<lparr> ds_dtype = U8, ds_order = HeadMajor, ds_leading_extent = 128, ds_head_extent = 2,
       ds_page_bytes = 16384 \<rparr>],
     fp_backend_planes = [] \<rparr>"

lemma demo_fingerprint_ok: "fingerprint_ok demo_fingerprint"
  by (simp add: fingerprint_ok_def demo_fingerprint_def schema_ok_def plane_schema_bytes_def)

theorem fingerprint_survives_witness:
  "\<exists>bytes. encode_fingerprint demo_fingerprint = Inr bytes \<and> decode_fingerprint bytes = Inr demo_fingerprint \<and>
     \<not> succeeds (decode_fingerprint (take 60 bytes)) \<and> \<not> succeeds (decode_fingerprint (bytes @ [0]))"
proof -
  have "encode_fingerprint demo_fingerprint = Inr bytes \<Longrightarrow> 60 < length bytes" for bytes
    by (auto simp: encode_fingerprint_def demo_fingerprint_def)
  then show ?thesis using fingerprint_survives [OF demo_fingerprint_ok] by blast
qed

text \<open>
  C27: opening a directory compares everything: the check passes exactly when the two fingerprints
  agree in every field, up to the equality of floats and up to the minimum attention length, which
  counts only while sparse attention is on.
\<close>

theorem fingerprint_check_complete:
  "succeeds (check_fingerprint h w) \<longleftrightarrow>
    h\<lparr> fp_attention := fp_attention w \<rparr> = w \<and> at_sage_attn (fp_attention h) = at_sage_attn (fp_attention w) \<and>
    f32_eq (at_keep_frac (fp_attention h)) (at_keep_frac (fp_attention w)) \<and>
    f32_eq (at_xattn_tau (fp_attention h)) (at_xattn_tau (fp_attention w)) \<and>
    (if f32_less_one (at_xattn_tau (fp_attention w))
     then at_xattn_min_len (fp_attention h) = at_xattn_min_len (fp_attention w) else True)"
proof -
  have cf: "succeeds (compare_fields oks) \<longleftrightarrow> list_all (\<lambda>b. b) oks" for oks by (induction oks) simp_all
  show ?thesis unfolding check_fingerprint_def cf by (cases h; cases w) auto
qed

text \<open>
  C29: the tombstone of any entry whose metadata can be read back restores exactly the objects the
  entry owned, in order, so that its deletion can be resumed after a restart.
\<close>

theorem tombstone_restores:
  assumes "meta_ok m"
  shows "try_decode_tombstone (encode_tombstone (append_meta_objects [] m)) = Some (meta_objects m)"
proof -
  have "length (meta_objects m) \<le> 2 ^ 20" using meta_objects_length [of m] assms by (simp add: meta_ok_def)
  moreover have "filter (\<lambda>(kind, oid). oid \<noteq> 0) (meta_objects m) = meta_objects m"
    using meta_objects_nonzero [of m] by (intro filter_True) auto
  ultimately show ?thesis using tombstone_encode [of "meta_objects m"] by (simp add: append_meta_objects_def)
qed

theorem tombstone_restores_witness:
  "\<exists>objects. try_decode_tombstone (encode_tombstone (append_meta_objects [] demo_meta)) = Some objects \<and>
     (Main_Object, 12) \<in> set objects \<and> length objects = 9"
  using tombstone_restores [OF demo_meta_ok]
  by (simp add: meta_objects_def slot_objects_def add_object_def demo_meta_def demo_slot_def)

text \<open>
  The bounded id set keeps the smallest ids: whatever order they arrive in, it returns the least
  \<open>n\<close> of them in ascending order.
\<close>

theorem bounded_ids_smallest:
  "bounded_take_sorted (fold bounded_consider xs (bounded_id_set_init n)) = take (unat n) (sort xs)"
proof -
  have "sort (rev (take (unat n) (sort xs))) = take (unat n) (sort xs)"
    by (intro properties_for_sort) (simp_all add: sorted_wrt_take)
  then show ?thesis using bounded_fold_heap [of xs n] by (simp add: bounded_take_sorted_def)
qed

end
