(* ===== verification/Object_Map.thy ===== *)
theory Object_Map
  imports Disk_Roundtrip "HOL-Library.Product_Lexorder"
begin

text \<open>
  The object map of the disk tier (\<^verbatim>\<open>kv_disk_cache.cpp\<close>): a checkpoint of all object locations, the
  \<^emph>\<open>base\<close>, and a journal of fixed-size frames, the \<^emph>\<open>log\<close>, that records what changed since. Opening a
  directory replays the log over the base and drops a torn tail. \<open>Journal_Recovery\<close> shows that a reopened
  directory has exactly the objects that the complete frames describe, wherever the crash cut the
  log, and that the locations it hands out are disjoint.

  The map is the list of its entries; where the code iterates over the hash table the order does not
  matter. A location's read lease and reference counts start empty and are not part of the files.
  Opening, mapping, truncating and syncing the files are left out: the functions take and return
  their contents.
\<close>

section \<open>Entries and frames\<close>

record map_entry =
  pe_id :: u64
  pe_kind :: u8
  pe_segment :: u32
  pe_offset :: u64
  pe_extent_bytes :: u64
  pe_stored_bytes :: u64
  pe_logical_bytes :: u64
  pe_record_crc32c :: u32

datatype map_record_kind = Put_Record | Delete_Record | Move_Record

fun record_code :: "map_record_kind \<Rightarrow> u8" where
  "record_code Put_Record = 1" | "record_code Delete_Record = 2" | "record_code Move_Record = 3"

definition kPackMapPutBytes :: u32 where "kPackMapPutBytes = 52"
definition kPackMapFrameBytes :: u32 where "kPackMapFrameBytes = 4 + 4 + kPackMapPutBytes"
definition kPackMapBaseEndianLittle :: u32 where "kPackMapBaseEndianLittle = 1"
definition kPackMapBaseHeaderBytes :: u32 where "kPackMapBaseHeaderBytes = 8 + 4 + 4 + 8 + 8 + 8 + 8"
definition kPackSegmentBytes :: u64 where "kPackSegmentBytes = push_bit 30 1"

definition put_payload :: "map_entry \<Rightarrow> u8 list" where
  "put_payload e =
     out_u64 (pe_id e) @ out_u8 (pe_kind e) @ out_u8 0 @ out_u8 0 @ out_u8 0 @ out_u32 (pe_segment e) @
     out_u64 (pe_offset e) @ out_u64 (pe_extent_bytes e) @ out_u64 (pe_stored_bytes e) @
     out_u64 (pe_logical_bytes e) @ out_u32 (pe_record_crc32c e)"

definition encode_pack_map_frame :: "crc_cpu option \<Rightarrow> map_entry \<Rightarrow> map_record_kind \<Rightarrow> u8 list" where
  "encode_pack_map_frame hw entry kind =
     (let w = out_u32 kPackMapFrameBytes @ out_u8 (record_code kind) @ out_u8 0 @ out_u8 0 @ out_u8 0 @ put_payload entry
      in w @ out_u32 (crc32c hw w))"

definition encode_pack_map_base :: "crc_cpu option \<Rightarrow> u64 \<Rightarrow> u64 \<Rightarrow> map_entry list \<Rightarrow> u8 list" where
  "encode_pack_map_base hw generation next_id entries =
     (let entries = sort_key pe_id entries;
          w = kDiskObjectMapMagic @ out_u32 kDiskFormatVersion @ out_u32 kPackMapBaseEndianLittle @
            out_u64 generation @ out_u64 next_id @ out_u64 (of_nat (length entries)) @
            out_u64 (of_nat (length entries) * ucast kPackMapPutBytes) @ concat (map put_payload entries)
      in w @ out_u32 (crc32c hw w))"

definition read_map_entry :: "u8 list \<Rightarrow> (map_entry \<times> u8 list) result" where
  "read_map_entry r =
     bind_result (in_u64 r) (\<lambda>(i, r). bind_result (in_u8 r) (\<lambda>(kind, r).
     bind_result (in_skip 3 r) (\<lambda>(_, r). bind_result (in_u32 r) (\<lambda>(segment, r).
     bind_result (in_u64 r) (\<lambda>(off, r). bind_result (in_u64 r) (\<lambda>(extent, r).
     bind_result (in_u64 r) (\<lambda>(stored, r). bind_result (in_u64 r) (\<lambda>(logical, r).
     bind_result (in_u32 r) (\<lambda>(crc, r).
       Inr (\<lparr> pe_id = i, pe_kind = kind, pe_segment = segment, pe_offset = off, pe_extent_bytes = extent,
              pe_stored_bytes = stored, pe_logical_bytes = logical, pe_record_crc32c = crc \<rparr>, r))))))))))"

section \<open>Objects\<close>

record object_ref =
  or_kind :: u8
  or_bytes :: u64
  or_segment :: u32
  or_offset :: u64
  or_extent_bytes :: u64
  or_stored_bytes :: u64
  or_logical_bytes :: u64
  or_record_crc32c :: u32

record object_map =
  om_objects :: "(u64 \<times> object_ref) list"
  om_next_object_id :: u64

definition bump_next_id :: "u64 \<Rightarrow> u64 \<Rightarrow> u64" where
  "bump_next_id nxt seen = (if seen = 0 then nxt else if seen = - 1 then seen else max nxt (seen + 1))"

definition entry_location_valid :: "map_entry \<Rightarrow> bool" where
  "entry_location_valid e =
     (\<not> (pe_id e = 0 \<or> unat (pe_kind e) \<ge> 5 \<or> pe_extent_bytes e = 0 \<or>
        pe_extent_bytes e mod ucast kDiskPageIoAlignment \<noteq> 0 \<or> pe_stored_bytes e = 0 \<or>
        pe_stored_bytes e > pe_extent_bytes e \<or> pe_logical_bytes e = 0 \<or>
        pe_offset e mod ucast kDiskPageIoAlignment \<noteq> 0 \<or> pe_extent_bytes e > kPackSegmentBytes \<or>
        pe_offset e > kPackSegmentBytes - pe_extent_bytes e))"

definition ref_of_entry :: "map_entry \<Rightarrow> object_ref" where
  "ref_of_entry e = \<lparr> or_kind = pe_kind e, or_bytes = pe_extent_bytes e, or_segment = pe_segment e,
     or_offset = pe_offset e, or_extent_bytes = pe_extent_bytes e, or_stored_bytes = pe_stored_bytes e,
     or_logical_bytes = pe_logical_bytes e, or_record_crc32c = pe_record_crc32c e \<rparr>"

definition install :: "map_entry \<Rightarrow> object_map \<Rightarrow> object_map result" where
  "install entry st =
     (if \<not> entry_location_valid entry then Inl Runtime_error
      else case map_of (om_objects st) (pe_id entry) of
          None \<Rightarrow> Inr (st\<lparr> om_objects := (pe_id entry, ref_of_entry entry) # om_objects st,
                       om_next_object_id := bump_next_id (om_next_object_id st) (pe_id entry) \<rparr>)
        | Some ref \<Rightarrow> if ref \<noteq> ref_of_entry entry then Inl Runtime_error else Inr st)"

definition erase_object :: "u64 \<Rightarrow> object_map \<Rightarrow> object_map" where
  "erase_object i st = st\<lparr> om_objects := filter (\<lambda>e. fst e \<noteq> i) (om_objects st) \<rparr>"

definition move_keeps_identity :: "map_entry \<Rightarrow> object_ref \<Rightarrow> bool" where
  "move_keeps_identity entry old =
     (or_kind old = pe_kind entry \<and> or_bytes old = pe_extent_bytes entry \<and>
      or_stored_bytes old = pe_stored_bytes entry \<and> or_logical_bytes old = pe_logical_bytes entry \<and>
      or_record_crc32c old = pe_record_crc32c entry)"

definition replay_record :: "map_record_kind \<Rightarrow> map_entry \<Rightarrow> object_map \<Rightarrow> object_map result" where
  "replay_record kind entry st =
     (let st = st\<lparr> om_next_object_id := bump_next_id (om_next_object_id st) (pe_id entry) \<rparr> in
      case kind of
        Delete_Record \<Rightarrow> Inr (erase_object (pe_id entry) st)
      | Put_Record \<Rightarrow> install entry st
      | Move_Record \<Rightarrow>
          (case map_of (om_objects st) (pe_id entry) of
             None \<Rightarrow> Inl Runtime_error
           | Some old \<Rightarrow>
               if \<not> move_keeps_identity entry old then Inl Runtime_error
               else install entry (erase_object (pe_id entry) st)))"

section \<open>Loading\<close>

fun install_loop :: "nat \<Rightarrow> u8 list \<Rightarrow> object_map \<Rightarrow> object_map result" where
  "install_loop 0 r st = Inr st"
| "install_loop (Suc n) r st =
     bind_result (read_map_entry r) (\<lambda>(entry, r). bind_result (install entry st) (install_loop n r))"

definition base_fields :: "u64 \<Rightarrow> u8 list \<Rightarrow> object_map \<Rightarrow> object_map result" where
  "base_fields index_epoch r st =
     bind_result (in_u32 r) (\<lambda>(version, r). if version \<noteq> kDiskFormatVersion then Inl Runtime_error else
     bind_result (in_u32 r) (\<lambda>(endian, r). if endian \<noteq> kPackMapBaseEndianLittle then Inl Runtime_error else
     bind_result (in_u64 r) (\<lambda>(epoch, r). if epoch \<noteq> index_epoch then Inl Runtime_error else
     bind_result (in_u64 r) (\<lambda>(next_id, r).
     bind_result (in_u64 r) (\<lambda>(extent, r).
     bind_result (in_u64 r) (\<lambda>(payload_bytes, r).
     if extent > - 1 div ucast kPackMapPutBytes \<or> payload_bytes \<noteq> extent * ucast kPackMapPutBytes \<or>
        length r \<noteq> unat payload_bytes
     then Inl Runtime_error
     else install_loop (unat extent) r (st\<lparr> om_next_object_id := bump_next_id (om_next_object_id st) next_id \<rparr>)))))))"

definition load_base :: "crc_cpu option \<Rightarrow> u64 \<Rightarrow> u8 list \<Rightarrow> object_map \<Rightarrow> object_map result" where
  "load_base hw index_epoch bytes st =
     (if length bytes < unat kPackMapBaseHeaderBytes + 4 \<or> take 8 bytes \<noteq> kDiskObjectMapMagic then Inl Runtime_error
      else if crc32c hw (take (length bytes - 4) bytes) \<noteq> trailing_crc bytes (length bytes - 4) then Inl Runtime_error
      else base_fields index_epoch (take (length bytes - 12) (drop 8 bytes)) st)"

definition frame_fields :: "u8 list \<Rightarrow> ((map_record_kind \<times> map_entry) \<times> u8 list) result" where
  "frame_fields r =
     bind_result (in_u8 r) (\<lambda>(type, r).
     if type \<noteq> 1 \<and> type \<noteq> 2 \<and> type \<noteq> 3 then Inl Runtime_error
     else
     bind_result (in_u8 r) (\<lambda>(a, r). if a \<noteq> 0 then Inl Runtime_error else
     bind_result (in_u8 r) (\<lambda>(b, r). if b \<noteq> 0 then Inl Runtime_error else
     bind_result (in_u8 r) (\<lambda>(c, r). if c \<noteq> 0 then Inl Runtime_error else
     bind_result (read_map_entry r) (\<lambda>(entry, r).
       Inr ((if type = 1 then Put_Record else if type = 2 then Delete_Record else Move_Record, entry), r))))))"

function log_loop :: "crc_cpu option \<Rightarrow> u8 list \<Rightarrow> nat \<Rightarrow> object_map \<Rightarrow> (nat \<times> object_map) result" where
  "log_loop hw bytes off st =
     (if off < length bytes then
        if length bytes - off < unat kPackMapFrameBytes + 4 then Inr (off, st)
        else
          let frame = trailing_crc bytes off in
          if frame \<noteq> kPackMapFrameBytes then Inl Runtime_error
          else if crc32c hw (take (unat frame) (drop off bytes)) \<noteq> trailing_crc bytes (off + unat frame)
          then Inl Runtime_error
          else case frame_fields (take (unat frame - 4) (drop (off + 4) bytes)) of
              Inl e \<Rightarrow> Inl e
            | Inr ((kind, entry), _) \<Rightarrow>
                (case replay_record kind entry st of
                   Inl e \<Rightarrow> Inl e
                 | Inr st \<Rightarrow> log_loop hw bytes (off + (unat frame + 4)) st)
      else Inr (off, st))"
  by pat_completeness auto
termination by (relation "measure (\<lambda>(_, bytes, off, _). length bytes - off)") auto

declare log_loop.simps [simp del]

text \<open>The extents of one kind and segment, sorted, with neighbours compared.\<close>

fun neighbours_apart :: "(u64 \<times> u64) list \<Rightarrow> bool" where
  "neighbours_apart (a # b # es) = (\<not> fst b < snd a \<and> neighbours_apart (b # es))"
| "neighbours_apart es = True"

definition segment_extents :: "object_ref list \<Rightarrow> u8 \<Rightarrow> u32 \<Rightarrow> (u64 \<times> u64) list" where
  "segment_extents refs kind segment =
     sort (map (\<lambda>ref. (or_offset ref, or_offset ref + or_bytes ref))
       (filter (\<lambda>ref. or_kind ref = kind \<and> or_segment ref = segment) refs))"

definition extents_apart :: "object_ref list \<Rightarrow> bool" where
  "extents_apart refs = list_all (\<lambda>ref. neighbours_apart (segment_extents refs (or_kind ref) (or_segment ref))) refs"

text \<open>
  The whole load: the map, and the length to which the log is truncated. \<open>next_id\<close> is the
  counter the generation file supplied.
\<close>

definition load_object_map ::
  "crc_cpu option \<Rightarrow> u64 \<Rightarrow> u64 \<Rightarrow> u8 list \<Rightarrow> u8 list \<Rightarrow> (nat \<times> object_map) result" where
  "load_object_map hw index_epoch next_id base_bytes log_bytes =
     bind_result (load_base hw index_epoch base_bytes \<lparr> om_objects = [], om_next_object_id = next_id \<rparr>) (\<lambda>st.
     bind_result (log_loop hw log_bytes 0 st) (\<lambda>(off, st).
       if \<not> extents_apart (map snd (om_objects st)) then Inl Runtime_error else Inr (off, st)))"

section \<open>Allocating\<close>

text \<open>
  A new object takes the next id, below the limit reserved in the generation file. It has no
  location until one is set.
\<close>

definition allocate_object :: "u64 \<Rightarrow> u8 \<Rightarrow> u64 \<Rightarrow> object_map \<Rightarrow> (u64 \<times> object_map) result" where
  "allocate_object reservation_limit kind bytes st =
     (let i = om_next_object_id st in
      if i = 0 \<or> i \<ge> reservation_limit then Inl Logic_error
      else Inr (i, st\<lparr> om_objects := (i, \<lparr> or_kind = kind, or_bytes = bytes, or_segment = 0, or_offset = 0,
               or_extent_bytes = 0, or_stored_bytes = 0, or_logical_bytes = 0, or_record_crc32c = 0 \<rparr>)
               # filter (\<lambda>e. fst e \<noteq> i) (om_objects st),
             om_next_object_id := i + 1 \<rparr>))"

section \<open>Writing\<close>

definition entry_of_ref :: "u64 \<Rightarrow> object_ref \<Rightarrow> map_entry" where
  "entry_of_ref i ref = \<lparr> pe_id = i, pe_kind = or_kind ref, pe_segment = or_segment ref, pe_offset = or_offset ref,
     pe_extent_bytes = or_bytes ref, pe_stored_bytes = or_stored_bytes ref, pe_logical_bytes = or_logical_bytes ref,
     pe_record_crc32c = or_record_crc32c ref \<rparr>"

text \<open>The bytes \<^verbatim>\<open>append_pack_map\<close> appends to the log in one transaction.\<close>

definition append_pack_map :: "crc_cpu option \<Rightarrow> (u64 \<times> object_ref) list \<Rightarrow> map_record_kind \<Rightarrow> u8 list" where
  "append_pack_map hw objects kind =
     concat (map (\<lambda>(i, ref). encode_pack_map_frame hw (entry_of_ref i ref) kind) objects)"

text \<open>
  The base a checkpoint writes; objects without a location are skipped. The code also tests the
  store handle of a location, which is set together with its extent.
\<close>

definition checkpoint_base :: "crc_cpu option \<Rightarrow> u64 \<Rightarrow> object_map \<Rightarrow> u8 list" where
  "checkpoint_base hw epoch st =
     encode_pack_map_base hw epoch (om_next_object_id st)
       (map (\<lambda>(i, ref). entry_of_ref i ref) (filter (\<lambda>(i, ref). or_extent_bytes ref \<noteq> 0) (om_objects st)))"

end
