(* ===== verification/Journal_Recovery.thy ===== *)
theory Journal_Recovery
  imports Object_Map
begin

text \<open>
  What a load of the object map returns. For arbitrary files: a map whose locations are valid and
  pairwise disjoint, or an error. For files a process wrote and a crash cut short: the checkpointed
  map with the changes of every complete frame applied.
\<close>

section \<open>Extents\<close>

definition extent_of :: "object_ref \<Rightarrow> u64 \<times> u64" where
  "extent_of ref = (or_offset ref, or_offset ref + or_bytes ref)"

definition apart :: "u64 \<times> u64 \<Rightarrow> u64 \<times> u64 \<Rightarrow> bool" where
  "apart a b \<longleftrightarrow> snd a \<le> fst b \<or> snd b \<le> fst a"

lemma neighbours_apart_wrt:
  "\<forall>e\<in>set es. fst e < snd e \<Longrightarrow> neighbours_apart es \<longleftrightarrow> sorted_wrt (\<lambda>a b. snd a \<le> fst b) es"
proof (induction es rule: neighbours_apart.induct)
  case (1 a b es)
  have "snd a \<le> fst c" if "snd a \<le> fst b" "c \<in> set es" "sorted_wrt (\<lambda>a b. snd a \<le> fst b) (b # es)" for c
  proof -
    have "snd a \<le> fst b" "fst b < snd b" "snd b \<le> fst c" using that "1.prems" by auto
    then show ?thesis by order
  qed
  then show ?case using 1 by (auto simp: not_less)
qed auto

lemma neighbours_apart_iff:
  assumes ne: "\<forall>e\<in>set xs. fst e < snd e"
  shows "neighbours_apart (sort xs) \<longleftrightarrow> distinct xs \<and> pairwise apart (set xs)"
proof
  assume "neighbours_apart (sort xs)"
  then have wrt: "sorted_wrt (\<lambda>a b. snd a \<le> fst b) (sort xs)" using neighbours_apart_wrt [of "sort xs"] ne by simp
  have idx: "snd (sort xs ! i) \<le> fst (sort xs ! j)" if "i < j" "j < length xs" for i j
    using sorted_wrt_nth_less [OF wrt that(1)] that(2) by simp
  have "sort xs ! i \<noteq> sort xs ! j" if "i < j" "j < length xs" for i j
  proof
    assume eq: "sort xs ! i = sort xs ! j"
    have "sort xs ! j \<in> set xs" using that nth_mem [of j "sort xs"] by simp
    then show False using idx [OF that] ne eq by fastforce
  qed
  then have "distinct (sort xs)" unfolding distinct_conv_nth by (metis length_sort linorder_neqE_nat)
  moreover have "pairwise apart (set xs)"
  proof (rule pairwiseI)
    fix a b assume "a \<in> set xs" "b \<in> set xs" "a \<noteq> b"
    then obtain i j where ij: "i < length xs" "a = sort xs ! i" "j < length xs" "b = sort xs ! j" "i \<noteq> j"
      by (metis in_set_conv_nth length_sort set_sort)
    then show "apart a b" using idx [of i j] idx [of j i] by (cases "i < j") (auto simp: apart_def)
  qed
  ultimately show "distinct xs \<and> pairwise apart (set xs)" by simp
next
  assume d: "distinct xs \<and> pairwise apart (set xs)"
  have "sorted_wrt (\<lambda>a b. snd a \<le> fst b) (sort xs)"
    unfolding sorted_wrt_iff_nth_less
  proof (intro allI impI)
    fix i j assume ij: "i < j" "j < length (sort xs)"
    let ?a = "sort xs ! i" and ?b = "sort xs ! j"
    have mem: "?a \<in> set xs" "?b \<in> set xs" using ij nth_mem [of i "sort xs"] nth_mem [of j "sort xs"] by simp_all
    have "?a \<noteq> ?b" using d ij nth_eq_iff_index_eq [of "sort xs" i j] by simp
    then have ap: "apart ?a ?b" using d mem by (auto simp: pairwise_def)
    have "?a \<le> ?b" using sorted_nth_mono [OF sorted_sort, of i j xs] ij by simp
    then have "fst ?a \<le> fst ?b" by (auto simp: less_eq_prod_def)
    moreover have "fst ?b < snd ?b" using ne mem by blast
    ultimately show "snd ?a \<le> fst ?b" using ap unfolding apart_def by (meson leD le_less_trans order_less_le_trans)
  qed
  then show "neighbours_apart (sort xs)" using neighbours_apart_wrt [of "sort xs"] ne by simp
qed

text \<open>Two objects of one kind in one segment occupy disjoint ranges.\<close>

definition locations_disjoint :: "(u64 \<rightharpoonup> object_ref) \<Rightarrow> bool" where
  "locations_disjoint m \<longleftrightarrow>
     (\<forall>i j r s. m i = Some r \<longrightarrow> m j = Some s \<longrightarrow> i \<noteq> j \<longrightarrow> or_kind r = or_kind s \<longrightarrow> or_segment r = or_segment s \<longrightarrow>
        apart (extent_of r) (extent_of s))"

lemma group_apart_iff:
  assumes d: "distinct (map fst L)" and ne: "\<forall>e\<in>set L. fst (extent_of (snd e)) < snd (extent_of (snd e))"
  shows "distinct (map (extent_of \<circ> snd) L) \<and> pairwise apart ((extent_of \<circ> snd) ` set L) \<longleftrightarrow>
    (\<forall>e\<in>set L. \<forall>f\<in>set L. fst e \<noteq> fst f \<longrightarrow> apart (extent_of (snd e)) (extent_of (snd f)))"
proof -
  have key: "e = f" if "e \<in> set L" "f \<in> set L" "fst e = fst f" for e f
    using d that by (auto simp: distinct_map inj_on_def)
  have same: "\<not> apart (extent_of (snd e)) (extent_of (snd e))" if "e \<in> set L" for e
    using ne that by (auto simp: apart_def)
  have dL: "distinct L" using d by (simp add: distinct_map)
  show ?thesis
  proof
    assume a: "distinct (map (extent_of \<circ> snd) L) \<and> pairwise apart ((extent_of \<circ> snd) ` set L)"
    then have inj: "inj_on (extent_of \<circ> snd) (set L)" by (simp add: distinct_map)
    show "\<forall>e\<in>set L. \<forall>f\<in>set L. fst e \<noteq> fst f \<longrightarrow> apart (extent_of (snd e)) (extent_of (snd f))"
    proof (intro ballI impI)
      fix e f assume ef: "e \<in> set L" "f \<in> set L" "fst e \<noteq> fst f"
      then have "(extent_of \<circ> snd) e \<noteq> (extent_of \<circ> snd) f" using inj_on_eq_iff [OF inj ef(1,2)] by auto
      then show "apart (extent_of (snd e)) (extent_of (snd f))" using a ef by (auto simp: pairwise_def)
    qed
  next
    assume a: "\<forall>e\<in>set L. \<forall>f\<in>set L. fst e \<noteq> fst f \<longrightarrow> apart (extent_of (snd e)) (extent_of (snd f))"
    have "inj_on (extent_of \<circ> snd) (set L)"
    proof (rule inj_onI, rule ccontr)
      fix e f assume ef: "e \<in> set L" "f \<in> set L" "(extent_of \<circ> snd) e = (extent_of \<circ> snd) f" "e \<noteq> f"
      then have "apart (extent_of (snd e)) (extent_of (snd f))" using a key by blast
      then show False using same ef by simp
    qed
    moreover have "pairwise apart ((extent_of \<circ> snd) ` set L)"
      unfolding pairwise_image using a key by (intro pairwiseI) (metis comp_apply)
    ultimately show "distinct (map (extent_of \<circ> snd) L) \<and> pairwise apart ((extent_of \<circ> snd) ` set L)"
      using dL by (simp add: distinct_map)
  qed
qed

lemma extents_apart_iff:
  assumes d: "distinct (map fst objs)" and ne: "\<forall>e\<in>set objs. fst (extent_of (snd e)) < snd (extent_of (snd e))"
  shows "extents_apart (map snd objs) \<longleftrightarrow> locations_disjoint (map_of objs)"
proof -
  define L where "L = (\<lambda>k s. filter (\<lambda>e. or_kind (snd e) = k \<and> or_segment (snd e) = s) objs)"
  have seg: "neighbours_apart (segment_extents (map snd objs) k s) \<longleftrightarrow>
      (\<forall>e\<in>set (L k s). \<forall>f\<in>set (L k s). fst e \<noteq> fst f \<longrightarrow> apart (extent_of (snd e)) (extent_of (snd f)))" for k s
  proof -
    have "map (\<lambda>ref. (or_offset ref, or_offset ref + or_bytes ref)) (filter (\<lambda>ref. or_kind ref = k \<and> or_segment ref = s) (map snd objs))
        = map (extent_of \<circ> snd) (L k s)" by (simp add: L_def filter_map comp_def extent_of_def)
    moreover have "\<forall>e\<in>set (map (extent_of \<circ> snd) (L k s)). fst e < snd e" using ne by (auto simp: L_def)
    moreover have "distinct (map fst (L k s))" using d by (simp add: L_def distinct_map_filter)
    moreover have "\<forall>e\<in>set (L k s). fst (extent_of (snd e)) < snd (extent_of (snd e))" using ne by (auto simp: L_def)
    ultimately show ?thesis
      unfolding segment_extents_def using neighbours_apart_iff [of "map (extent_of \<circ> snd) (L k s)"] group_apart_iff [of "L k s"]
      by simp
  qed
  have look: "map_of objs i = Some r \<longleftrightarrow> (i, r) \<in> set objs" for i r using d by simp
  show ?thesis unfolding extents_apart_def list_all_iff seg locations_disjoint_def look by (fastforce simp: L_def)
qed

section \<open>What every load keeps\<close>

text \<open>A reference that some valid entry describes.\<close>

definition ref_valid :: "u64 \<Rightarrow> object_ref \<Rightarrow> bool" where
  "ref_valid i ref \<longleftrightarrow> entry_location_valid (entry_of_ref i ref) \<and> or_extent_bytes ref = or_bytes ref"

definition map_inv :: "object_map \<Rightarrow> bool" where
  "map_inv st \<longleftrightarrow>
     distinct (map fst (om_objects st)) \<and> (\<forall>(i, ref)\<in>set (om_objects st). ref_valid i ref) \<and>
     (\<forall>i\<in>fst ` set (om_objects st). i = - 1 \<or> i < om_next_object_id st)"

lemma entry_of_ref_of_entry: "entry_of_ref (pe_id e) (ref_of_entry e) = e"
  by (simp add: entry_of_ref_def ref_of_entry_def)

lemma ref_of_entry_of_ref: "ref_valid i ref \<Longrightarrow> ref_of_entry (entry_of_ref i ref) = ref"
  by (simp add: entry_of_ref_def ref_of_entry_def ref_valid_def)

lemma ref_of_entry_valid: "entry_location_valid e \<Longrightarrow> ref_valid (pe_id e) (ref_of_entry e)"
  unfolding ref_valid_def entry_of_ref_of_entry by (simp add: ref_of_entry_def)

lemma bump_next_id_ge: "nxt \<le> bump_next_id nxt seen"
  by (simp add: bump_next_id_def)

lemma bump_next_id_above: "seen \<noteq> 0 \<Longrightarrow> seen = - 1 \<or> seen < bump_next_id nxt seen"
proof -
  assume "seen \<noteq> 0"
  have "seen < seen + 1" if "seen \<noteq> - 1"
  proof -
    have "unat seen \<noteq> unat (- 1 :: u64)" using that unat_eqD by blast
    then have ne: "unat seen \<noteq> 18446744073709551615" by (simp add: unat_max_word)
    have "unat seen < 18446744073709551616" using unat_word_bound [of seen] by simp
    with ne have "unat seen < 18446744073709551615" by linarith
    then have "unat seen + unat (1 :: u64) < 2 ^ LENGTH(64)" by simp
    then have "unat (seen + 1) = unat seen + 1" using unat_add_no_overflow [of seen 1] by simp
    then show ?thesis by (simp add: word_less_nat_alt)
  qed
  then show ?thesis using \<open>seen \<noteq> 0\<close> by (auto simp: bump_next_id_def less_max_iff_disj)
qed

lemma map_inv_bump: "map_inv st \<Longrightarrow> map_inv (st\<lparr> om_next_object_id := bump_next_id (om_next_object_id st) seen \<rparr>)"
  using bump_next_id_ge [of "om_next_object_id st" seen] by (auto simp: map_inv_def intro: less_le_trans)

lemma map_inv_erase: "map_inv st \<Longrightarrow> map_inv (erase_object i st)"
  by (auto simp: map_inv_def erase_object_def distinct_map_filter)

lemma map_of_erase: "map_of (om_objects (erase_object i st)) = (map_of (om_objects st))(i := None)"
proof -
  have "map_of (filter (\<lambda>e. fst e \<noteq> i) xs) = (map_of xs)(i := None)" for xs :: "(u64 \<times> object_ref) list"
    by (induction xs) (auto simp: fun_eq_iff)
  then show ?thesis by (simp add: erase_object_def)
qed

lemma install_inv:
  assumes "map_inv st" "install entry st = Inr st'"
  shows "map_inv st'"
proof (cases "map_of (om_objects st) (pe_id entry)")
  case None
  have v: "entry_location_valid entry" using assms(2) by (auto simp: install_def split: if_splits)
  then have nz: "pe_id entry \<noteq> 0" by (simp add: entry_location_valid_def)
  have new: "pe_id entry \<notin> fst ` set (om_objects st)" using None by (simp add: map_of_eq_None_iff)
  have st': "st' = st\<lparr> om_objects := (pe_id entry, ref_of_entry entry) # om_objects st,
      om_next_object_id := bump_next_id (om_next_object_id st) (pe_id entry) \<rparr>"
    using assms(2) None v by (simp add: install_def)
  show ?thesis unfolding st' using map_inv_bump [OF assms(1), of "pe_id entry"] new ref_of_entry_valid [OF v]
      bump_next_id_above [OF nz] by (auto simp: map_inv_def)
qed (use assms in \<open>auto simp: install_def split: if_splits\<close>)

lemma replay_inv:
  assumes inv: "map_inv st" and r: "replay_record kind entry st = Inr st'"
  shows "map_inv st'"
proof -
  let ?st = "st\<lparr> om_next_object_id := bump_next_id (om_next_object_id st) (pe_id entry) \<rparr>"
  have inv1: "map_inv ?st" by (rule map_inv_bump [OF inv])
  show ?thesis
  proof (cases kind)
    case Put_Record
    then show ?thesis using r install_inv [OF inv1] by (simp add: replay_record_def Let_def)
  next
    case Delete_Record
    then have "st' = erase_object (pe_id entry) ?st" using r by (simp add: replay_record_def Let_def)
    then show ?thesis using map_inv_erase [OF inv1] by simp
  next
    case Move_Record
    then have "install entry (erase_object (pe_id entry) ?st) = Inr st'"
      using r by (auto simp: replay_record_def Let_def split: option.splits if_splits)
    then show ?thesis using install_inv map_inv_erase [OF inv1] by blast
  qed
qed

lemma install_loop_inv: "map_inv st \<Longrightarrow> install_loop n r st = Inr st' \<Longrightarrow> map_inv st'"
proof (induction n arbitrary: r st)
  case (Suc n)
  then obtain entry r1 st1 where "install entry st = Inr st1" "install_loop n r1 st1 = Inr st'"
    by (auto simp: bind_result_eq_Inr)
  then show ?case using Suc.IH install_inv [OF Suc.prems(1)] by blast
qed simp

lemma load_base_loop:
  assumes "load_base hw epoch bytes st = Inr st'"
  obtains n r seen where "install_loop n r (st\<lparr> om_next_object_id := bump_next_id (om_next_object_id st) seen \<rparr>) = Inr st'"
proof -
  have "base_fields epoch (take (length bytes - 12) (drop 8 bytes)) st = Inr st'"
    using assms unfolding load_base_def by (simp split: if_splits)
  then obtain n r seen where "install_loop n r (st\<lparr> om_next_object_id := bump_next_id (om_next_object_id st) seen \<rparr>) = Inr st'"
    unfolding base_fields_def by (auto simp: bind_result_eq_Inr split: if_splits)
  then show ?thesis by (rule that)
qed

lemma load_base_inv: "map_inv st \<Longrightarrow> load_base hw epoch bytes st = Inr st' \<Longrightarrow> map_inv st'"
  using load_base_loop install_loop_inv map_inv_bump by metis

lemma frame_bytes: "unat kPackMapFrameBytes = 60"
  by (simp add: kPackMapFrameBytes_def kPackMapPutBytes_def)

lemma log_loop_unfold:
  "log_loop hw bytes off st =
     (if length bytes < off + 64 then Inr (off, st)
      else if trailing_crc bytes off \<noteq> kPackMapFrameBytes then Inl Runtime_error
      else if crc32c hw (take 60 (drop off bytes)) \<noteq> trailing_crc bytes (off + 60) then Inl Runtime_error
      else case frame_fields (take 56 (drop (off + 4) bytes)) of
          Inl e \<Rightarrow> Inl e
        | Inr ((kind, entry), _) \<Rightarrow>
            (case replay_record kind entry st of Inl e \<Rightarrow> Inl e | Inr st \<Rightarrow> log_loop hw bytes (off + 64) st))"
proof (cases "length bytes < off + 64")
  case True
  then show ?thesis unfolding log_loop.simps [of hw bytes off st] frame_bytes by auto
next
  case False
  then have "off < length bytes" "\<not> length bytes - off < 60 + 4" by auto
  note len = this
  have n: "60 + 4 = (64 :: nat)" "60 - 4 = (56 :: nat)" by simp_all
  show ?thesis
  proof (cases "trailing_crc bytes off = kPackMapFrameBytes")
    case True
    then have u: "unat (trailing_crc bytes off) = 60" by (simp add: frame_bytes)
    show ?thesis using len False True unfolding log_loop.simps [of hw bytes off st] frame_bytes Let_def u n by simp
  next
    case no: False
    then show ?thesis using len False unfolding log_loop.simps [of hw bytes off st] frame_bytes Let_def by simp
  qed
qed

lemma log_loop_cases:
  assumes "log_loop hw bytes off st = Inr (off', st')"
  obtains "off' = off" "st' = st" "length bytes < off + 64"
    | st1 kind entry where "log_loop hw bytes (off + 64) st1 = Inr (off', st')" "replay_record kind entry st = Inr st1"
      "off + 64 \<le> length bytes"
proof (cases "length bytes < off + 64")
  case True
  then show ?thesis using assms that(1) log_loop_unfold [of hw bytes off st] by simp
next
  case False
  then obtain kind entry r where f: "frame_fields (take 56 (drop (off + 4) bytes)) = Inr ((kind, entry), r)"
    and c: "(case replay_record kind entry st of Inl e \<Rightarrow> Inl e | Inr st \<Rightarrow> log_loop hw bytes (off + 64) st) = Inr (off', st')"
    using assms log_loop_unfold [of hw bytes off st]
    by (auto simp: split_paired_all split: if_splits sum.split_asm)
  then obtain st1 where "replay_record kind entry st = Inr st1" "log_loop hw bytes (off + 64) st1 = Inr (off', st')"
    by (auto split: sum.split_asm)
  then show ?thesis using that(2) False by simp
qed

lemma log_loop_inv:
  assumes "map_inv st" "off \<le> length bytes" "log_loop hw bytes off st = Inr (off', st')"
  shows "map_inv st' \<and> off' \<le> length bytes \<and> length bytes < off' + 64 \<and> off' mod 64 = off mod 64"
  using assms
proof (induction "length bytes - off" arbitrary: off st rule: less_induct)
  case less
  from less.prems(3) show ?case
  proof (cases rule: log_loop_cases)
    case 1
    then show ?thesis using less.prems by simp
  next
    case (2 st1 kind entry)
    then show ?thesis using less.hyps [of "off + 64" st1] replay_inv [OF less.prems(1) 2(2)] by simp
  qed
qed

lemma extent_nonempty:
  assumes "ref_valid i ref"
  shows "fst (extent_of ref) < snd (extent_of ref)" and "unat (or_offset ref) + unat (or_bytes ref) \<le> 2 ^ 30"
    and "0 < or_bytes ref"
proof -
  have v: "or_bytes ref \<noteq> 0" "\<not> or_bytes ref > kPackSegmentBytes" "\<not> or_offset ref > kPackSegmentBytes - or_bytes ref"
    using assms by (auto simp: ref_valid_def entry_location_valid_def entry_of_ref_def)
  have seg: "unat kPackSegmentBytes = 2 ^ 30" by (simp add: kPackSegmentBytes_def)
  have "unat (or_bytes ref) \<le> 2 ^ 30" using v(2) seg by (simp add: not_less word_le_nat_alt)
  moreover have "unat (kPackSegmentBytes - or_bytes ref) = 2 ^ 30 - unat (or_bytes ref)"
    using v(2) seg unat_sub [of "or_bytes ref" kPackSegmentBytes] by (simp add: not_less)
  ultimately show le: "unat (or_offset ref) + unat (or_bytes ref) \<le> 2 ^ 30"
    using v(3) by (simp add: not_less word_le_nat_alt)
  show pos: "0 < or_bytes ref" using v(1) by (simp add: word_neq_0_conv)
  have "unat (or_offset ref + or_bytes ref) = unat (or_offset ref) + unat (or_bytes ref)"
    by (rule unat_add_no_overflow) (use le in simp)
  then show "fst (extent_of ref) < snd (extent_of ref)" using pos by (simp add: extent_of_def word_less_nat_alt)
qed

section \<open>Reading back what was written\<close>

type_synonym map_record = "map_record_kind \<times> map_entry"

definition frame_of :: "crc_cpu option \<Rightarrow> map_record \<Rightarrow> u8 list" where
  "frame_of hw op = encode_pack_map_frame hw (snd op) (fst op)"

definition frame_body :: "map_record \<Rightarrow> u8 list" where
  "frame_body op = out_u32 kPackMapFrameBytes @ out_u8 (record_code (fst op)) @ out_u8 0 @ out_u8 0 @ out_u8 0 @ put_payload (snd op)"

lemma frame_of_body: "frame_of hw op = frame_body op @ out_u32 (crc32c hw (frame_body op))"
  by (simp add: frame_of_def frame_body_def encode_pack_map_frame_def Let_def)

lemma put_payload_length [simp]: "length (put_payload e) = 52"
  by (simp add: put_payload_def)

lemma frame_body_length [simp]: "length (frame_body op) = 60"
  by (simp add: frame_body_def)

lemma frame_of_length [simp]: "length (frame_of hw op) = 64"
  by (simp add: frame_of_body)

lemma in_skip_zeros: "in_skip 3 (out_u8 a @ out_u8 b @ out_u8 c @ rest) = Inr ((), rest)"
  by (simp add: in_skip_def out_u8_def)

lemma read_put_payload: "read_map_entry (put_payload e @ rest) = Inr (e, rest)"
  by (simp add: read_map_entry_def put_payload_def scalar_read in_skip_zeros)

lemma frame_fields_body: "frame_fields (drop 4 (frame_body op)) = Inr (op, [])"
proof -
  have "record_code k \<in> {1, 2, 3}" for k by (cases k) simp_all
  moreover have "(if record_code k = 1 then Put_Record else if record_code k = 2 then Delete_Record else Move_Record) = k" for k
    by (cases k) simp_all
  ultimately show ?thesis
    using read_put_payload [of "snd op" "[]"] by (auto simp: frame_fields_def frame_body_def scalar_read)
qed

lemma log_step:
  assumes bytes: "bytes = pre @ frame_of w op @ rest" and hw: "hardware_ok w" "hardware_ok r"
  shows "log_loop r bytes (length pre) st =
    (case replay_record (fst op) (snd op) st of Inl e \<Rightarrow> Inl e | Inr st \<Rightarrow> log_loop r bytes (length pre + 64) st)"
proof -
  have body: "take 60 (drop (length pre) bytes) = frame_body op" by (simp add: bytes frame_of_body)
  have len: "\<not> length bytes < length pre + 64" by (simp add: bytes)
  have "take 4 (drop (length pre) bytes) = out_u32 kPackMapFrameBytes" by (simp add: bytes frame_of_body frame_body_def)
  then have head: "trailing_crc bytes (length pre) = kPackMapFrameBytes" using trailing_crc_iff [of "length pre" bytes] len by simp
  have "take 4 (drop (length pre + 60) bytes) = out_u32 (crc32c w (frame_body op))" by (simp add: bytes frame_of_body)
  then have "trailing_crc bytes (length pre + 60) = crc32c w (frame_body op)"
    using trailing_crc_iff [of "length pre + 60" bytes] len by simp
  then have crc: "crc32c r (take 60 (drop (length pre) bytes)) = trailing_crc bytes (length pre + 60)"
    unfolding body using crc32c_any hw by simp
  have "take 56 (drop (length pre + 4) bytes) = drop 4 (frame_body op)"
    using arg_cong [OF body, of "drop 4"] by (simp add: drop_take add.commute)
  then have fields: "frame_fields (take 56 (drop (length pre + 4) bytes)) = Inr (op, [])" using frame_fields_body by simp
  show ?thesis
    unfolding log_loop_unfold [of r bytes "length pre" st] if_not_P [OF len] head crc fields
    by (simp add: split_def)
qed

fun replay_all :: "map_record list \<Rightarrow> object_map \<Rightarrow> object_map result" where
  "replay_all [] st = Inr st"
| "replay_all (op # ops) st = bind_result (replay_record (fst op) (snd op) st) (replay_all ops)"

lemma log_replays:
  assumes hw: "hardware_ok w" "hardware_ok r" and tail: "length tail < 64"
  shows "log_loop r (pre @ concat (map (frame_of w) ops) @ tail) (length pre) st =
    bind_result (replay_all ops st) (\<lambda>st. Inr (length pre + 64 * length ops, st))"
proof (induction ops arbitrary: pre st)
  case Nil
  show ?case using tail by (simp add: log_loop_unfold)
next
  case (Cons op ops)
  let ?bytes = "pre @ concat (map (frame_of w) (op # ops)) @ tail"
  have "log_loop r ?bytes (length pre) st =
      (case replay_record (fst op) (snd op) st of Inl e \<Rightarrow> Inl e | Inr st \<Rightarrow> log_loop r ?bytes (length pre + 64) st)"
    by (rule log_step [OF _ hw]) simp
  moreover have "log_loop r ?bytes (length pre + 64) st1 =
      bind_result (replay_all ops st1) (\<lambda>st. Inr (length pre + 64 + 64 * length ops, st))" for st1
    using Cons.IH [of "pre @ frame_of w op" st1] by simp
  ultimately show ?case by (simp add: bind_result_def split: sum.split)
qed

lemma take_frames:
  "take n (concat (map (frame_of w) ops)) =
    concat (map (frame_of w) (take (n div 64) ops)) @ take (n mod 64) (concat (map (frame_of w) (drop (n div 64) ops)))"
proof (induction ops arbitrary: n)
  case (Cons op ops)
  show ?case
  proof (cases "n < 64")
    case False
    then have "n div 64 = Suc ((n - 64) div 64)" "n mod 64 = (n - 64) mod 64" by (simp_all add: div_if mod_if)
    then show ?thesis using False Cons [of "n - 64"] by simp
  qed simp
qed simp

section \<open>The map the records describe\<close>

fun apply_record :: "map_record \<Rightarrow> (u64 \<rightharpoonup> object_ref) \<Rightarrow> (u64 \<rightharpoonup> object_ref)" where
  "apply_record (Delete_Record, e) m = m(pe_id e := None)"
| "apply_record (_, e) m = m(pe_id e \<mapsto> ref_of_entry e)"

text \<open>
  The records a running cache appends: a put of a new object at a valid location, a move of an
  existing one that keeps its contents, a deletion.
\<close>

fun legal_record :: "map_record \<Rightarrow> (u64 \<rightharpoonup> object_ref) \<Rightarrow> bool" where
  "legal_record (Put_Record, e) m = (entry_location_valid e \<and> m (pe_id e) = None)"
| "legal_record (Delete_Record, e) m = True"
| "legal_record (Move_Record, e) m =
     (entry_location_valid e \<and> (case m (pe_id e) of None \<Rightarrow> False | Some old \<Rightarrow> move_keeps_identity e old))"

fun legal_records :: "map_record list \<Rightarrow> (u64 \<rightharpoonup> object_ref) \<Rightarrow> bool" where
  "legal_records [] m = True"
| "legal_records (op # ops) m = (legal_record op m \<and> legal_records ops (apply_record op m))"

definition apply_records :: "map_record list \<Rightarrow> (u64 \<rightharpoonup> object_ref) \<Rightarrow> (u64 \<rightharpoonup> object_ref)" where
  "apply_records ops m = fold apply_record ops m"

lemma replay_legal:
  assumes "legal_record op (map_of (om_objects st))"
  shows "\<exists>st'. replay_record (fst op) (snd op) st = Inr st' \<and> map_of (om_objects st') = apply_record op (map_of (om_objects st))"
proof (cases op)
  case (Pair kind e)
  have gone: "map_of (om_objects (erase_object (pe_id e) st1)) (pe_id e) = None" for st1 by (simp add: map_of_erase)
  show ?thesis
  proof (cases kind)
    case Put_Record
    then show ?thesis using assms Pair by (simp add: replay_record_def install_def)
  next
    case Delete_Record
    then show ?thesis using Pair by (simp add: replay_record_def map_of_erase)
  next
    case Move_Record
    then obtain old where old: "map_of (om_objects st) (pe_id e) = Some old" "move_keeps_identity e old" "entry_location_valid e"
      using assms Pair by (auto split: option.splits)
    then show ?thesis using Pair Move_Record by (simp add: replay_record_def install_def gone map_of_erase Let_def)
  qed
qed

lemma replay_all_legal:
  assumes "legal_records ops (map_of (om_objects st))"
  shows "\<exists>st'. replay_all ops st = Inr st' \<and> map_of (om_objects st') = apply_records ops (map_of (om_objects st))"
  using assms
proof (induction ops arbitrary: st)
  case Nil
  show ?case by (simp add: apply_records_def)
next
  case (Cons op ops)
  then obtain st1 where st1: "replay_record (fst op) (snd op) st = Inr st1"
    "map_of (om_objects st1) = apply_record op (map_of (om_objects st))" using replay_legal [of op st] by auto
  then show ?case using Cons.IH [of st1] Cons.prems by (simp add: apply_records_def)
qed

lemma legal_records_take: "legal_records ops m \<Longrightarrow> legal_records (take k ops) m"
proof (induction ops arbitrary: m k)
  case (Cons op ops)
  then show ?case by (cases k) simp_all
qed simp

lemma replay_all_inv: "map_inv st \<Longrightarrow> replay_all ops st = Inr st' \<Longrightarrow> map_inv st'"
proof (induction ops arbitrary: st)
  case (Cons op ops)
  then obtain st1 where "replay_record (fst op) (snd op) st = Inr st1" "replay_all ops st1 = Inr st'"
    by (auto simp: bind_result_eq_Inr)
  then show ?case using Cons.IH replay_inv [OF Cons.prems(1)] by blast
qed simp

section \<open>The checkpoint\<close>

lemma install_loop_all:
  assumes "\<forall>e\<in>set es. entry_location_valid e" "distinct (map pe_id es)" "pe_id ` set es \<inter> fst ` set (om_objects st) = {}"
  shows "\<exists>st'. install_loop (length es) (concat (map put_payload es)) st = Inr st' \<and>
    om_objects st' = rev (map (\<lambda>e. (pe_id e, ref_of_entry e)) es) @ om_objects st"
  using assms
proof (induction es arbitrary: st)
  case (Cons e es)
  have "map_of (om_objects st) (pe_id e) = None" using Cons.prems(3) by (auto simp: map_of_eq_None_iff)
  then obtain st1 where st1: "install e st = Inr st1" "om_objects st1 = (pe_id e, ref_of_entry e) # om_objects st"
    using Cons.prems(1) by (simp add: install_def)
  have "pe_id ` set es \<inter> fst ` set (om_objects st1) = {}" using Cons.prems(2,3) st1(2) by auto
  then show ?case using Cons.IH [of st1] Cons.prems(1,2) st1 by (simp add: read_put_payload)
qed simp

lemma put_payloads_length [simp]: "length (concat (map put_payload es)) = 52 * length es"
  by (induction es) simp_all

definition base_tail :: "u64 \<Rightarrow> u64 \<Rightarrow> map_entry list \<Rightarrow> u8 list" where
  "base_tail epoch next_id es =
     out_u32 kDiskFormatVersion @ out_u32 kPackMapBaseEndianLittle @ out_u64 epoch @ out_u64 next_id @
     out_u64 (of_nat (length es)) @ out_u64 (of_nat (length es) * ucast kPackMapPutBytes) @ concat (map put_payload es)"

lemma base_tail_length: "length (base_tail epoch next_id es) = 40 + 52 * length es"
  by (simp add: base_tail_def)

lemma base_fields_tail:
  assumes "52 * length es + 52 < 2 ^ 64"
  shows "base_fields epoch (base_tail epoch next_id es) st =
    install_loop (length es) (concat (map put_payload es)) (st\<lparr> om_next_object_id := bump_next_id (om_next_object_id st) next_id \<rparr>)"
proof -
  let ?n = "of_nat (length es) :: u64"
  have n: "unat ?n = length es" using assms by (simp add: unat_of_nat take_bit_nat_eq_self)
  have put: "unat (ucast kPackMapPutBytes :: u64) = 52" by (simp add: kPackMapPutBytes_def)
  have "unat (?n * ucast kPackMapPutBytes) = length es * 52"
    using unat_mult_lem [of ?n "ucast kPackMapPutBytes"] assms unfolding n put by simp
  moreover have "\<not> ?n > - 1 div ucast kPackMapPutBytes"
    using assms unfolding word_less_nat_alt unat_div n put by (simp add: unsigned_minus_1_eq_mask mask_eq_exp_minus_1)
  ultimately show ?thesis by (simp add: base_fields_def base_tail_def scalar_read n)
qed

lemma load_base_written:
  assumes hw: "hardware_ok w" "hardware_ok r" and len: "52 * length es + 52 < 2 ^ 64"
    and sorted: "es' = sort_key pe_id es"
  shows "load_base r epoch (encode_pack_map_base w epoch next_id es) st =
    install_loop (length es') (concat (map put_payload es')) (st\<lparr> om_next_object_id := bump_next_id (om_next_object_id st) next_id \<rparr>)"
proof -
  define body where "body = kDiskObjectMapMagic @ base_tail epoch next_id es'"
  let ?bytes = "body @ out_u32 (crc32c w body)"
  have magic: "length kDiskObjectMapMagic = 8" by (simp add: kDiskObjectMapMagic_def)
  have l: "length es' = length es" by (simp add: sorted)
  have bl: "length body = 48 + 52 * length es" by (simp add: body_def magic base_tail_length l)
  have bytes: "encode_pack_map_base w epoch next_id es = ?bytes"
    by (simp add: encode_pack_map_base_def body_def base_tail_def sorted Let_def)
  have hdr: "unat kPackMapBaseHeaderBytes = 48" by (simp add: kPackMapBaseHeaderBytes_def)
  have "trailing_crc ?bytes (length body) = crc32c w body" by (subst trailing_crc_iff) simp_all
  moreover have "crc32c r body = crc32c w body" using crc32c_any hw bl len by simp
  moreover have "take (length ?bytes - 12) (drop 8 ?bytes) = base_tail epoch next_id es'"
    using bl by (simp add: body_def magic base_tail_length l)
  moreover have "take 8 ?bytes = kDiskObjectMapMagic" by (simp add: body_def magic)
  ultimately have "load_base r epoch ?bytes st = base_fields epoch (base_tail epoch next_id es') st"
    unfolding load_base_def hdr by (simp only: not_less if_False if_not_P) (use bl in simp)
  then show ?thesis unfolding bytes using base_fields_tail [of es'] len l by simp
qed

text \<open>The part of a running map that a checkpoint writes.\<close>

definition persisted :: "object_map \<Rightarrow> object_map" where
  "persisted st = st\<lparr> om_objects := filter (\<lambda>(i, ref). or_extent_bytes ref \<noteq> 0) (om_objects st) \<rparr>"

lemma map_inv_empty: "map_inv \<lparr> om_objects = [], om_next_object_id = nid \<rparr>"
  by (simp add: map_inv_def)

lemma checkpoint_restores:
  assumes hw: "hardware_ok w" "hardware_ok r" and inv: "map_inv (persisted st0)"
    and len: "52 * length (om_objects st0) + 52 < 2 ^ 64"
  shows "\<exists>st. load_base r epoch (checkpoint_base w epoch st0) \<lparr> om_objects = [], om_next_object_id = nid \<rparr> = Inr st \<and>
    map_of (om_objects st) = map_of (om_objects (persisted st0))"
proof -
  define objs where "objs = om_objects (persisted st0)"
  define es where "es = map (\<lambda>(i, ref). entry_of_ref i ref) objs"
  define es' where "es' = sort_key pe_id es"
  have base: "checkpoint_base w epoch st0 = encode_pack_map_base w epoch (om_next_object_id st0) es"
    by (simp add: checkpoint_base_def es_def objs_def persisted_def)
  have d: "distinct (map fst objs)" and v: "\<forall>(i, ref)\<in>set objs. ref_valid i ref" using inv by (auto simp: map_inv_def objs_def)
  have "length objs \<le> length (om_objects st0)" by (simp add: objs_def persisted_def)
  then have "52 * length es + 52 < 2 ^ 64" using len unfolding es_def length_map by linarith
  note load = load_base_written [OF hw this es'_def]
  have ids: "map pe_id es = map fst objs" by (auto simp: es_def entry_of_ref_def)
  then have dist: "distinct (map pe_id es')" using d unfolding es'_def distinct_map by (metis distinct_map distinct_sort set_sort)
  have valid: "\<forall>e\<in>set es'. entry_location_valid e" using v by (auto simp: es'_def es_def ref_valid_def)
  have pairs: "map (\<lambda>e. (pe_id e, ref_of_entry e)) es = objs"
    using v by (force simp: es_def entry_of_ref_def [THEN arg_cong, of pe_id] ref_of_entry_of_ref intro: map_idI)
  obtain st where st: "load_base r epoch (checkpoint_base w epoch st0) \<lparr> om_objects = [], om_next_object_id = nid \<rparr> = Inr st"
    "om_objects st = rev (map (\<lambda>e. (pe_id e, ref_of_entry e)) es')"
    using install_loop_all [OF valid dist, of "\<lparr> om_objects = [], om_next_object_id = bump_next_id nid (om_next_object_id st0) \<rparr>"]
    unfolding base load by auto
  have "set (om_objects st) = set objs" unfolding st(2) by (simp add: es'_def flip: pairs)
  moreover have "distinct (map fst (om_objects st))"
    using dist unfolding st(2) by (simp add: rev_map [symmetric] comp_def)
  ultimately have "map_of (om_objects st) = map_of objs" using d by (intro map_of_inject_set [THEN iffD2])
  then show ?thesis using st(1) by (auto simp: objs_def)
qed

section \<open>Opening a directory\<close>

lemma extents_apart_inv: "map_inv st \<Longrightarrow> extents_apart (map snd (om_objects st)) \<longleftrightarrow> locations_disjoint (map_of (om_objects st))"
proof (rule extents_apart_iff)
  assume inv: "map_inv st"
  then show "distinct (map fst (om_objects st))" by (simp add: map_inv_def)
  show "\<forall>e\<in>set (om_objects st). fst (extent_of (snd e)) < snd (extent_of (snd e))"
  proof
    fix e assume "e \<in> set (om_objects st)"
    then have "ref_valid (fst e) (snd e)" using inv by (auto simp: map_inv_def)
    then show "fst (extent_of (snd e)) < snd (extent_of (snd e))" by (rule extent_nonempty(1))
  qed
qed

text \<open>A counter that \<open>2 ^ 64 - 1\<close> has saturated is never below a limit.\<close>

lemma allocated_fresh:
  assumes "map_inv st" "allocate_object limit kind bytes st = Inr (i, st')"
  shows "i \<noteq> 0 \<and> map_of (om_objects st) i = None"
proof -
  have i: "i = om_next_object_id st" "i \<noteq> 0" "i < limit"
    using assms(2) by (auto simp: allocate_object_def Let_def not_le split: if_splits)
  then have "i \<noteq> - 1" using word_n1_ge [of limit] by (metis leD)
  then have "i \<notin> fst ` set (om_objects st)" using assms(1) i(1) by (auto simp: map_inv_def)
  then show ?thesis using i(2) by (simp add: map_of_eq_None_iff)
qed

text \<open>
  C8: Whatever the two files contain, a load that succeeds returns a map with one location per object,
  in which every location lies inside its segment, holds at least one stored byte and no more than
  its extent, and no two objects of a kind share a byte of a segment. The next object id is above every
  id in use other than \<open>2 ^ 64 - 1\<close>; that id saturates the counter, and then no id is handed out. So
  whatever limit has been reserved, an id allocated next belongs to no object of the map. The log is
  cut to a whole number of frames and loses less than one frame.
\<close>

theorem loaded_map_sound:
  assumes "load_object_map hw epoch nid base log = Inr (off, st)"
  shows "distinct (map fst (om_objects st)) \<and> locations_disjoint (map_of (om_objects st)) \<and>
    off mod 64 = 0 \<and> off \<le> length log \<and> length log < off + 64 \<and>
    (\<forall>i ref. map_of (om_objects st) i = Some ref \<longrightarrow>
       i \<noteq> 0 \<and> (i = - 1 \<or> i < om_next_object_id st) \<and> unat (or_offset ref) + unat (or_bytes ref) \<le> 2 ^ 30 \<and>
       0 < or_stored_bytes ref \<and> or_stored_bytes ref \<le> or_bytes ref) \<and>
    (\<forall>limit kind bytes i st'. allocate_object limit kind bytes st = Inr (i, st') \<longrightarrow>
       i \<noteq> 0 \<and> map_of (om_objects st) i = None)"
proof -
  obtain st1 where base: "load_base hw epoch base \<lparr> om_objects = [], om_next_object_id = nid \<rparr> = Inr st1"
    and log: "log_loop hw log 0 st1 = Inr (off, st)" and apart: "extents_apart (map snd (om_objects st))"
    using assms by (auto simp: load_object_map_def bind_result_eq_Inr split: if_splits)
  note inv = log_loop_inv [OF load_base_inv [OF map_inv_empty base] _ log, simplified]
  have "i \<noteq> 0 \<and> (i = - 1 \<or> i < om_next_object_id st) \<and> unat (or_offset ref) + unat (or_bytes ref) \<le> 2 ^ 30 \<and>
      0 < or_stored_bytes ref \<and> or_stored_bytes ref \<le> or_bytes ref" if "map_of (om_objects st) i = Some ref" for i ref
  proof -
    have mem: "(i, ref) \<in> set (om_objects st)" using that by (rule map_of_SomeD)
    then have valid: "ref_valid i ref" and "i = - 1 \<or> i < om_next_object_id st" using inv by (auto simp: map_inv_def)
    then show ?thesis using extent_nonempty(2) [OF valid]
      by (auto simp: ref_valid_def entry_location_valid_def entry_of_ref_def word_neq_0_conv)
  qed
  moreover have "\<forall>limit kind bytes i st'. allocate_object limit kind bytes st = Inr (i, st') \<longrightarrow>
      i \<noteq> 0 \<and> map_of (om_objects st) i = None"
    using inv allocated_fresh [of st] by blast
  ultimately show ?thesis using inv apart extents_apart_inv [of st] by (auto simp: map_inv_def)
qed

definition demo_ref :: "u64 \<Rightarrow> object_ref" where
  "demo_ref off = \<lparr> or_kind = 0, or_bytes = 8192, or_segment = 0, or_offset = off, or_extent_bytes = 8192,
     or_stored_bytes = 5000, or_logical_bytes = 5000, or_record_crc32c = 17 \<rparr>"

definition demo_map :: object_map where
  "demo_map = \<lparr> om_objects = [(1, demo_ref 0)], om_next_object_id = 2 \<rparr>"

lemma demo_ref_valid: "i \<noteq> 0 \<Longrightarrow> off \<in> {0, 8192, 16384} \<Longrightarrow> entry_location_valid (entry_of_ref i (demo_ref off))"
  by (auto simp: entry_location_valid_def entry_of_ref_def demo_ref_def kDiskPageIoAlignment_def kPackSegmentBytes_def)

lemma demo_persisted: "persisted demo_map = demo_map"
  by (simp add: persisted_def demo_map_def demo_ref_def)

lemma demo_map_inv: "map_inv demo_map"
  using demo_ref_valid [of 1 0] by (simp add: map_inv_def demo_map_def ref_valid_def demo_ref_def)

lemma demo_hw: "hardware_ok None"
  by (simp add: hardware_ok_def)

lemma demo_opens: "\<exists>st. load_object_map None 7 1 (checkpoint_base None 7 demo_map) [] = Inr (0, st)"
proof -
  obtain st where st: "load_base None 7 (checkpoint_base None 7 demo_map) \<lparr> om_objects = [], om_next_object_id = 1 \<rparr> = Inr st"
    "map_of (om_objects st) = map_of (om_objects demo_map)"
    using checkpoint_restores [OF demo_hw demo_hw, of demo_map 7 1] demo_map_inv
    unfolding demo_persisted by (auto simp: demo_map_def)
  have "locations_disjoint (map_of (om_objects st))" unfolding st(2) by (auto simp: locations_disjoint_def demo_map_def split: if_splits)
  then have "extents_apart (map snd (om_objects st))" using extents_apart_inv load_base_inv [OF map_inv_empty st(1)] by simp
  then show ?thesis using st(1) by (simp add: load_object_map_def log_loop_unfold)
qed

theorem loaded_map_sound_witness:
  "\<exists>off st. load_object_map None 7 1 (checkpoint_base None 7 demo_map) [] = Inr (off, st) \<and>
     distinct (map fst (om_objects st)) \<and> locations_disjoint (map_of (om_objects st)) \<and> off = 0 \<and>
     (case allocate_object 65536 0 4096 st of Inl _ \<Rightarrow> True | Inr (i, _) \<Rightarrow> map_of (om_objects st) i = None)"
proof -
  obtain st where "load_object_map None 7 1 (checkpoint_base None 7 demo_map) [] = Inr (0, st)" using demo_opens by blast
  then show ?thesis using loaded_map_sound [of None 7 1 "checkpoint_base None 7 demo_map" "[]" 0 st]
    by (intro exI [of _ 0] exI [of _ st]) (auto split: sum.split)
qed

text \<open>The records of a sequence of transactions, and the log they leave.\<close>

definition records_of :: "(map_record_kind \<times> (u64 \<times> object_ref) list) list \<Rightarrow> map_record list" where
  "records_of txs = concat (map (\<lambda>(kind, objects). map (\<lambda>(i, ref). (kind, entry_of_ref i ref)) objects) txs)"

definition log_of :: "crc_cpu option \<Rightarrow> (map_record_kind \<times> (u64 \<times> object_ref) list) list \<Rightarrow> u8 list" where
  "log_of hw txs = concat (map (\<lambda>(kind, objects). append_pack_map hw objects kind) txs)"

lemma log_of_frames: "log_of w txs = concat (map (frame_of w) (records_of txs))"
proof (induction txs)
  case (Cons tx txs)
  have "append_pack_map w (snd tx) (fst tx) = concat (map (frame_of w) (map (\<lambda>(i, ref). (fst tx, entry_of_ref i ref)) (snd tx)))"
    by (simp add: append_pack_map_def frame_of_def comp_def split_def)
  then show ?case using Cons by (simp add: log_of_def records_of_def split_def)
qed (simp_all add: log_of_def records_of_def)

lemma log_recovers:
  assumes hw: "hardware_ok w" "hardware_ok r" and inv: "map_inv st" and legal: "legal_records ops (map_of (om_objects st))"
  shows "\<exists>st'. log_loop r (take n (concat (map (frame_of w) ops))) 0 st = Inr (64 * length (take (n div 64) ops), st') \<and>
    map_inv st' \<and> map_of (om_objects st') = apply_records (take (n div 64) ops) (map_of (om_objects st))"
proof -
  obtain st' where st': "replay_all (take (n div 64) ops) st = Inr st'"
    "map_of (om_objects st') = apply_records (take (n div 64) ops) (map_of (om_objects st))"
    using replay_all_legal legal_records_take [OF legal] by blast
  have "length (take (n mod 64) (concat (map (frame_of w) (drop (n div 64) ops)))) < 64"
    by (simp add: min.strict_coboundedI2)
  from log_replays [OF hw this, of "[]" "take (n div 64) ops" st] st' show ?thesis
    unfolding take_frames [of n w ops] using replay_all_inv [OF inv st'(1)] by auto
qed

text \<open>
  C2: Crash recovery. A process checkpoints its map and then appends transactions of puts, moves and
  deletions; a crash cuts the log after an arbitrary number of bytes. As long as the objects the
  complete frames leave do not overlap, the next process opens the directory, on any processor, with
  exactly the checkpointed objects and the complete frames applied, and truncates the log after
  the last of them.
\<close>

theorem crash_recovery_exact:
  assumes hw: "hardware_ok w" "hardware_ok r" and inv: "map_inv (persisted st0)"
    and len: "52 * length (om_objects st0) + 52 < 2 ^ 64"
    and legal: "legal_records (records_of txs) (map_of (om_objects (persisted st0)))"
    and kept: "whole = take (n div 64) (records_of txs)"
    and disjoint: "locations_disjoint (apply_records whole (map_of (om_objects (persisted st0))))"
  shows "\<exists>st. load_object_map r epoch nid (checkpoint_base w epoch st0) (take n (log_of w txs)) = Inr (64 * length whole, st) \<and>
    map_of (om_objects st) = apply_records whole (map_of (om_objects (persisted st0)))"
proof -
  obtain st1 where base: "load_base r epoch (checkpoint_base w epoch st0) \<lparr> om_objects = [], om_next_object_id = nid \<rparr> = Inr st1"
    and m1: "map_of (om_objects st1) = map_of (om_objects (persisted st0))" using checkpoint_restores [OF hw inv len] by blast
  note inv1 = load_base_inv [OF map_inv_empty base]
  obtain st where log: "log_loop r (take n (log_of w txs)) 0 st1 = Inr (64 * length whole, st)"
    and st: "map_inv st" "map_of (om_objects st) = apply_records whole (map_of (om_objects st1))"
    using log_recovers [OF hw inv1, of "records_of txs" n] legal unfolding m1 log_of_frames kept by blast
  then have "extents_apart (map snd (om_objects st))" using disjoint extents_apart_inv by (simp add: m1)
  then show ?thesis using base log st(2) by (simp add: load_object_map_def m1)
qed

definition demo_txs :: "(map_record_kind \<times> (u64 \<times> object_ref) list) list" where
  "demo_txs = [(Put_Record, [(2, demo_ref 8192)]), (Move_Record, [(1, demo_ref 16384)]), (Delete_Record, [(2, demo_ref 8192)])]"

lemma demo_records:
  "records_of demo_txs = [(Put_Record, entry_of_ref 2 (demo_ref 8192)), (Move_Record, entry_of_ref 1 (demo_ref 16384)),
     (Delete_Record, entry_of_ref 2 (demo_ref 8192))]"
  by (simp add: records_of_def demo_txs_def)

lemma demo_back: "pe_id (entry_of_ref i (demo_ref off)) = i" "ref_of_entry (entry_of_ref i (demo_ref off)) = demo_ref off"
  by (simp_all add: entry_of_ref_def ref_of_entry_def demo_ref_def)

lemma demo_legal: "legal_records (records_of demo_txs) (map_of (om_objects demo_map))"
proof -
  have "move_keeps_identity (entry_of_ref 1 (demo_ref 16384)) (demo_ref 0)"
    by (simp add: move_keeps_identity_def entry_of_ref_def demo_ref_def)
  then show ?thesis by (simp add: demo_records demo_back demo_map_def demo_ref_valid)
qed

theorem crash_recovery_exact_witness:
  "\<exists>st. load_object_map (Some demo_cpu) 7 1 (checkpoint_base None 7 demo_map) (take 150 (log_of None demo_txs)) = Inr (128, st) \<and>
     map_of (om_objects st) = [1 \<mapsto> demo_ref 16384, 2 \<mapsto> demo_ref 8192]"
proof -
  let ?whole = "take (150 div 64) (records_of demo_txs)"
  have two: "150 div 64 = (2 :: nat)" by simp
  have m: "apply_records ?whole (map_of (om_objects demo_map)) = [1 \<mapsto> demo_ref 16384, 2 \<mapsto> demo_ref 8192]"
    unfolding two by (auto simp: demo_records apply_records_def demo_back demo_map_def fun_eq_iff)
  have "locations_disjoint [1 \<mapsto> demo_ref 16384, 2 \<mapsto> demo_ref 8192]"
    by (auto simp: locations_disjoint_def apart_def extent_of_def demo_ref_def split: if_splits)
  then have d: "locations_disjoint (apply_records ?whole (map_of (om_objects demo_map)))" unfolding m .
  have bound: "52 * length (om_objects demo_map) + 52 < 2 ^ 64" by (simp add: demo_map_def)
  have l: "64 * length ?whole = 128" unfolding two demo_records by simp
  show ?thesis
    using crash_recovery_exact [OF demo_hw demo_cpu_ok _ bound _ refl, unfolded demo_persisted, OF demo_map_inv demo_legal d]
    unfolding m l .
qed

end
