(* ===== verification/Vision_Control.thy ===== *)
theory Vision_Control
  imports Prefix_Identity
begin

text \<open>
  Where the embeddings of images and videos go (\<^verbatim>\<open>vision/control.cpp\<close>). From the vision items of a
  prepared prompt the code builds, per item, the prompt columns that receive its embeddings and the
  positions of its patches. The theory shows that the columns of all items together are strictly
  increasing, lie inside the prompt, carry the item's token type, and are as many as the item has
  merged patches.

  Signed 32-bit fields are words, read with \<open>sint\<close> where the sign matters. The interpolation
  tables of the position embedding are floating-point and left out.
\<close>

section \<open>The model\<close>

record planned_prompt = prepared_prompt +
  pp_turn_closure_frontiers :: "u32 list"
  pp_raw_patches :: u64
  pp_vision_tokens :: u64

definition has_media :: "('a prepared_prompt_scheme) \<Rightarrow> bool" where
  "has_media prompt = (pp_vision_items prompt \<noteq> [])"

record vision_item_control =
  vc_modality :: u8
  vc_grid :: vision_grid
  vc_patch_begin :: u64
  vc_patch_count :: u64
  vc_merged_count :: u64
  vc_segment_length :: u32
  vc_segment_count :: u32
  vc_position_ids :: "u32 list"
  vc_cu_seqlens :: "u32 list"
  vc_scatter_indices :: "u32 list"

definition kMerge :: int where "kMerge = 2"

definition kVideo :: u8 where "kVideo = 2"

definition vc_checked_i32 :: "u64 \<Rightarrow> u32 result" where
  "vc_checked_i32 value = (if value > 2147483647 then Inl Overflow_error else Inr (ucast value))"

fun scatter_loop :: "nat \<Rightarrow> u64 \<Rightarrow> u64 \<Rightarrow> u32 list \<Rightarrow> u32 list result" where
  "scatter_loop 0 i first acc = Inr acc"
| "scatter_loop (Suc n) i first acc =
     bind_result (vc_checked_i32 (first + i)) (\<lambda>v. scatter_loop n (i + 1) first (acc @ [v]))"

text \<open>One round per span: the tokens counted, the first free column, the columns so far.\<close>

fun span_loop :: "u8 list \<Rightarrow> u8 \<Rightarrow> token_span list \<Rightarrow> u64 \<Rightarrow> u64 \<Rightarrow> u32 list \<Rightarrow> (u64 \<times> u32 list) result" where
  "span_loop types expected [] item_tokens next_span_begin scatter = Inr (item_tokens, scatter)"
| "span_loop types expected (span # spans) item_tokens next_span_begin scatter =
     (if ts_count span = 0 \<or> unat (ts_begin span) > length types \<or>
         unat (ts_count span) > length types - unat (ts_begin span)
      then Inl Invalid_argument
      else if ts_begin span < next_span_begin then Inl Invalid_argument
      else if \<not> list_all (\<lambda>value. value = expected) (take (unat (ts_count span)) (drop (unat (ts_begin span)) types))
      then Inl Invalid_argument
      else bind_result (scatter_loop (unat (ts_count span)) 0 (ts_begin span) scatter) (\<lambda>scatter.
        span_loop types expected spans (item_tokens + ts_count span) (ts_begin span + ts_count span) scatter))"

text \<open>Patches are visited in merge blocks of two by two, once per frame.\<close>

definition block_positions :: "nat \<Rightarrow> nat \<Rightarrow> (nat \<times> nat) list" where
  "block_positions h w =
     concat (map (\<lambda>block_y. concat (map (\<lambda>block_x. concat (map (\<lambda>inner_y. map (\<lambda>inner_x.
       (block_y * 2 + inner_y, block_x * 2 + inner_x)) [0..<2]) [0..<2])) [0..<w div 2])) [0..<h div 2])"

definition frame_positions :: "nat \<Rightarrow> nat \<Rightarrow> nat \<Rightarrow> (nat \<times> nat) list" where
  "frame_positions t h w = concat (replicate t (block_positions h w))"

fun cu_loop :: "nat \<Rightarrow> int \<Rightarrow> u32 list \<Rightarrow> u32 list result" where
  "cu_loop 0 area cu = Inr cu"
| "cu_loop (Suc n) area cu =
     (let nxt = sint (last cu) + area in
      if nxt > 2147483647 then Inl Overflow_error else cu_loop n area (cu @ [word_of_int nxt]))"

text \<open>The checks on a finished item: positions and columns counted, segments up to the last patch.\<close>

definition control_complete :: "u64 \<Rightarrow> u64 \<Rightarrow> nat \<Rightarrow> nat \<Rightarrow> u32 list \<Rightarrow> unit result" where
  "control_complete item_patches item_tokens positions columns cu =
     (if of_nat positions \<noteq> item_patches \<or> of_nat columns \<noteq> item_tokens then Inl Invalid_argument
      else bind_result (vc_checked_i32 item_patches) (\<lambda>n. if last cu \<noteq> n then Inl Invalid_argument else Inr ()))"

text \<open>
  One item, given the number of patches before it and the first free column. The code multiplies height
  and width into the segment length before the range checks; there the product wraps here, where
  C++ leaves the overflow undefined. Such an item is refused by the check on the segments.
\<close>

definition control_item :: "u8 list \<Rightarrow> u64 \<Rightarrow> u64 \<Rightarrow> vision_item \<Rightarrow> (vision_item_control \<times> u64 \<times> u64) result" where
  "control_item types patch_cursor next_span_begin item =
     (let t = sint (vg_temporal (vi_grid item)); h = sint (vg_height (vi_grid item)); w = sint (vg_width (vi_grid item));
          item_patches = (of_int t :: u64) * of_int h * of_int w in
      if t \<le> 0 \<or> h \<le> 0 \<or> w \<le> 0 \<or> h mod kMerge \<noteq> 0 \<or> w mod kMerge \<noteq> 0 then Inl Invalid_argument
      else if vi_patch_begin item \<noteq> patch_cursor \<or> vi_patch_count item \<noteq> item_patches then Inl Invalid_argument
      else if length (vi_token_spans item) \<noteq> (if vi_modality item = kVideo then nat t else 1) then Inl Invalid_argument
      else bind_result (span_loop types (vi_modality item) (vi_token_spans item) 0 next_span_begin []) (\<lambda>(item_tokens, scatter).
        if item_tokens \<noteq> item_patches div of_int (kMerge * kMerge) then Inl Invalid_argument
        else bind_result (cu_loop (nat t) (h * w) [0]) (\<lambda>cu.
          let pos = frame_positions (nat t) (nat h) (nat w);
              control = \<lparr> vc_modality = vi_modality item, vc_grid = vi_grid item, vc_patch_begin = vi_patch_begin item,
                vc_patch_count = vi_patch_count item, vc_merged_count = item_tokens,
                vc_segment_length = of_int (h * w), vc_segment_count = of_int t,
                vc_position_ids = map (of_nat \<circ> fst) pos @ map (of_nat \<circ> snd) pos,
                vc_cu_seqlens = cu, vc_scatter_indices = scatter \<rparr> in
          bind_result (control_complete item_patches item_tokens (length pos) (length scatter) cu) (\<lambda>_.
            Inr (control, item_patches, item_tokens)))))"

definition first_free_column :: "u64 \<Rightarrow> vision_item_control list \<Rightarrow> u64" where
  "first_free_column token_cursor out = (if token_cursor = 0 then 0 else scast (last (vc_scatter_indices (last out))) + 1)"

fun control_loop ::
  "u8 list \<Rightarrow> vision_item list \<Rightarrow> u64 \<Rightarrow> u64 \<Rightarrow> vision_item_control list \<Rightarrow> (u64 \<times> u64 \<times> vision_item_control list) result" where
  "control_loop types [] patch_cursor token_cursor out = Inr (patch_cursor, token_cursor, out)"
| "control_loop types (item # items) patch_cursor token_cursor out =
     bind_result (control_item types patch_cursor (first_free_column token_cursor out) item) (\<lambda>(control, patches, tokens).
       control_loop types items (patch_cursor + patches) (token_cursor + tokens) (out @ [control]))"

definition build_vision_control :: "planned_prompt \<Rightarrow> vision_item_control list result" where
  "build_vision_control prompt =
     (if length (pp_token_ids prompt) \<noteq> length (pp_token_types prompt) then Inl Invalid_argument
      else bind_result (control_loop (pp_token_types prompt) (pp_vision_items prompt) 0 0 []) (\<lambda>(patches, tokens, out).
        if patches \<noteq> pp_raw_patches prompt \<or> tokens \<noteq> pp_vision_tokens prompt \<or> length out \<noteq> length (pp_vision_items prompt)
        then Inl Invalid_argument else Inr out))"

section \<open>Columns\<close>

lemma vc_checked_i32_eq: "vc_checked_i32 value = Inr v \<longleftrightarrow> unat value < 2 ^ 31 \<and> v = ucast value"
  by (auto simp: vc_checked_i32_def word_less_nat_alt not_less)

lemma unat_ucast_small: "unat (c :: u64) < 2 ^ 31 \<Longrightarrow> unat (ucast c :: u32) = unat c"
  by (simp add: unsigned_ucast_eq take_bit_nat_eq_self)

lemma scatter_loop_eq:
  assumes "scatter_loop n i first acc = Inr r"
  shows "map unat r = map unat acc @ [unat (first + i)..<unat (first + i) + n] \<and> (n \<noteq> 0 \<longrightarrow> unat (first + i) + n \<le> 2 ^ 31)"
  using assms
proof (induction n arbitrary: i acc)
  case (Suc n)
  let ?c = "first + i"
  have c: "unat ?c < 2 ^ 31" and rest: "scatter_loop n (i + 1) first (acc @ [ucast ?c]) = Inr r"
    using Suc.prems by (auto simp: bind_result_eq_Inr vc_checked_i32_eq)
  have "unat (first + (i + 1)) = unat ?c + 1" using c unat_add_no_overflow [of ?c 1] by (simp add: add.assoc)
  then show ?case using Suc.IH [OF rest] c unat_ucast_small [OF c] upt_conv_Cons [of "unat ?c" "unat ?c + Suc n"] by auto
qed simp

text \<open>Strictly increasing columns from \<open>lo\<close> on, inside the prompt, of one token type.\<close>

definition columns_ok :: "u8 list \<Rightarrow> u8 \<Rightarrow> nat \<Rightarrow> nat list \<Rightarrow> bool" where
  "columns_ok types expected lo cs \<longleftrightarrow>
     sorted_wrt (<) cs \<and> (\<forall>v\<in>set cs. lo \<le> v \<and> v < 2 ^ 31 \<and> v < length types \<and> types ! v = expected)"

lemma columns_ok_append:
  assumes "columns_ok types expected lo cs" "\<forall>v\<in>set cs. v < b" "lo \<le> b" "b + n \<le> length types" "n \<noteq> 0 \<longrightarrow> b + n \<le> 2 ^ 31"
    "list_all (\<lambda>value. value = expected) (take n (drop b types))"
  shows "columns_ok types expected lo (cs @ [b..<b + n])"
proof -
  have "types ! v = expected" if "v \<in> set [b..<b + n]" for v
  proof -
    have "take n (drop b types) ! (v - b) = types ! v" using that assms(4) by (subst nth_take) (auto simp: nth_drop)
    moreover have "v - b < length (take n (drop b types))" using that assms(4) by auto
    ultimately show ?thesis using assms(6) unfolding list_all_length by metis
  qed
  then show ?thesis using assms unfolding columns_ok_def by (auto simp: sorted_wrt_append)
qed

lemma span_loop_ok:
  assumes "span_loop types expected spans tokens nxt sc = Inr (tokens', sc')"
    and "columns_ok types expected lo (map unat sc)" "\<forall>v\<in>set sc. unat v < unat nxt" "lo \<le> unat nxt"
  shows "columns_ok types expected lo (map unat sc') \<and> (spans \<noteq> [] \<or> sc \<noteq> [] \<longrightarrow> sc' \<noteq> [])"
  using assms
proof (induction spans arbitrary: tokens nxt sc)
  case (Cons span spans)
  let ?b = "unat (ts_begin span)" and ?n = "unat (ts_count span)"
  from Cons.prems(1) obtain sc1 where g: "ts_count span \<noteq> 0" "?b \<le> length types" "?n \<le> length types - ?b" "\<not> ts_begin span < nxt"
    "list_all (\<lambda>value. value = expected) (take ?n (drop ?b types))"
    and sc1: "scatter_loop ?n 0 (ts_begin span) sc = Inr sc1"
    and rest: "span_loop types expected spans (tokens + ts_count span) (ts_begin span + ts_count span) sc1 = Inr (tokens', sc')"
    by (auto simp: bind_result_eq_Inr not_less split: if_splits)
  have n: "?n \<noteq> 0" using g(1) by (simp add: unat_eq_zero)
  have m: "map unat sc1 = map unat sc @ [?b..<?b + ?n]" "?b + ?n \<le> 2 ^ 31" using scatter_loop_eq [OF sc1] n by simp_all
  have b: "unat nxt \<le> ?b" using g(4) by (simp add: not_less word_le_nat_alt)
  have e: "unat (ts_begin span + ts_count span) = ?b + ?n" using m(2) by (intro unat_add_no_overflow) simp
  have ok: "columns_ok types expected lo (map unat sc1)"
    unfolding m(1) using Cons.prems(2-4) g b m(2) by (intro columns_ok_append) (auto intro: less_le_trans)
  have "\<forall>v\<in>set (map unat sc1). v < ?b + ?n" unfolding m(1) using Cons.prems(3) b by (auto intro: less_le_trans)
  then have "\<forall>v\<in>set sc1. unat v < unat (ts_begin span + ts_count span)" unfolding e by simp
  moreover have "lo \<le> unat (ts_begin span + ts_count span)" unfolding e using Cons.prems(4) b by simp
  moreover have "sc1 \<noteq> []" using m(1) n by auto
  ultimately show ?case using Cons.IH [OF rest ok] by simp
qed simp

lemma sint_word_of_int_small:
  assumes "0 \<le> x" "x \<le> 2147483647"
  shows "sint (word_of_int x :: u32) = x"
  using assms by (simp add: sint_sbintrunc' signed_take_bit_int_eq_self_iff)

lemma cu_loop_bound:
  assumes "cu_loop n area cu = Inr cu'" "0 \<le> sint (last cu)" "0 \<le> area"
  shows "sint (last cu) + int n * area \<le> 2147483647"
  using assms
proof (induction n arbitrary: cu)
  case 0
  show ?case using sint_less [of "last cu"] by simp
next
  case (Suc n)
  let ?nxt = "sint (last cu) + area"
  have le: "?nxt \<le> 2147483647" and rest: "cu_loop n area (cu @ [word_of_int ?nxt]) = Inr cu'"
    using Suc.prems(1) by (auto simp: Let_def split: if_splits)
  have "sint (word_of_int ?nxt :: u32) = ?nxt" using le Suc.prems(2,3) by (intro sint_word_of_int_small) simp_all
  then show ?case using Suc.IH [OF rest] Suc.prems(2,3) by (simp add: algebra_simps)
qed

lemma columns_ok_length: "columns_ok types expected lo cs \<Longrightarrow> length cs \<le> 2 ^ 31"
proof -
  assume ok: "columns_ok types expected lo cs"
  then have "length cs = card (set cs)" using distinct_card [of cs] by (auto simp: columns_ok_def strict_sorted_iff)
  also have "\<dots> \<le> card {..<2 ^ 31 :: nat}" using ok by (intro card_mono) (auto simp: columns_ok_def)
  finally show ?thesis by simp
qed

section \<open>Patch positions\<close>

lemma block_positions_length: "even h \<Longrightarrow> even w \<Longrightarrow> length (block_positions h w) = h * w"
  by (auto simp: block_positions_def length_concat comp_def sum_list_triv elim!: evenE)

lemma block_positions_set: "even h \<Longrightarrow> even w \<Longrightarrow> set (block_positions h w) = {..<h} \<times> {..<w}"
proof (rule set_eqI)
  fix p :: "nat \<times> nat" assume even: "even h" "even w"
  obtain y x where p: "p = (y, x)" by (cases p)
  have "p \<in> set (block_positions h w) \<longleftrightarrow>
      (\<exists>b<h div 2. \<exists>d<w div 2. \<exists>i<2. \<exists>j<2. y = b * 2 + i \<and> x = d * 2 + j)"
    by (fastforce simp: block_positions_def p)
  also have "\<dots> \<longleftrightarrow> y div 2 < h div 2 \<and> x div 2 < w div 2"
  proof
    assume "y div 2 < h div 2 \<and> x div 2 < w div 2"
    moreover have "y = y div 2 * 2 + y mod 2" "x = x div 2 * 2 + x mod 2" "y mod 2 < 2" "x mod 2 < 2" by simp_all
    ultimately show "\<exists>b<h div 2. \<exists>d<w div 2. \<exists>i<2. \<exists>j<2. y = b * 2 + i \<and> x = d * 2 + j" by blast
  qed auto
  also have "\<dots> \<longleftrightarrow> p \<in> {..<h} \<times> {..<w}" using even p by (auto elim!: evenE)
  finally show "p \<in> set (block_positions h w) \<longleftrightarrow> p \<in> {..<h} \<times> {..<w}" .
qed

lemma count_list_once: "distinct xs \<Longrightarrow> x \<in> set xs \<Longrightarrow> count_list xs x = 1"
  by (induction xs) (auto simp: count_list_0_iff)

lemma frame_positions_count:
  assumes "even h" "even w" "y < h" "x < w"
  shows "count_list (frame_positions t h w) (y, x) = t"
proof -
  have "distinct (block_positions h w)"
    using block_positions_length [OF assms(1,2)] block_positions_set [OF assms(1,2)]
    by (intro card_distinct) (simp add: card_cartesian_product)
  then have "count_list (block_positions h w) (y, x) = 1"
    using block_positions_set [OF assms(1,2)] assms(3,4) by (intro count_list_once) simp_all
  then show ?thesis unfolding frame_positions_def by (induction t) simp_all
qed

lemma frame_positions_length: "even h \<Longrightarrow> even w \<Longrightarrow> length (frame_positions t h w) = t * h * w"
  unfolding frame_positions_def by (induction t) (simp_all add: block_positions_length algebra_simps)

text \<open>
  The place of the \<open>k\<close>-th patch of a frame that is \<open>w\<close> patches wide: two rows of patches at a time,
  and in them one block of four after the other.
\<close>

definition patch_position :: "nat \<Rightarrow> nat \<Rightarrow> nat \<times> nat" where
  "patch_position w k = (k div (2 * w) * 2 + k mod (2 * w) mod 4 div 2, k mod (2 * w) div 4 * 2 + k mod 2)"

lemma concat_map_upt:
  "concat (map (\<lambda>i. map (g i) [0..<m]) [0..<n]) = map (\<lambda>k. g (k div m) (k mod m)) [0..<n * m]"
proof (induction n)
  case (Suc n)
  have "map (g n) [0..<m] = map (\<lambda>k. g (k div m) (k mod m)) [n * m..<n * m + m]"
    by (rule nth_equalityI) (auto simp: nth_upt)
  moreover have "[0..<Suc n * m] = [0..<n * m] @ [n * m..<n * m + m]" using upt_add_eq_append [of 0 "n * m" m] by (simp add: add.commute)
  ultimately show ?case using Suc by simp
qed simp

lemma block_positions_nth:
  assumes "even h" "even w"
  shows "block_positions h w = map (patch_position w) [0..<h * w]"
proof -
  obtain a b where ab: "h = 2 * a" "w = 2 * b" using assms by (auto elim!: evenE)
  have "k mod (b * 4) mod 4 mod 2 = k mod 2" for k :: nat
    by (simp add: mod_mod_cancel)
  then show ?thesis
    unfolding block_positions_def ab concat_map_upt by (simp add: concat_map_upt patch_position_def ab mult_ac)
qed

lemma frame_positions_nth:
  assumes "even h" "even w"
  shows "frame_positions t h w = map (\<lambda>k. patch_position w (k mod (h * w))) [0..<t * h * w]"
proof -
  have "frame_positions t h w = concat (map (\<lambda>i. map (patch_position w) [0..<h * w]) [0..<t])"
    by (simp add: frame_positions_def block_positions_nth [OF assms] map_replicate_const)
  then show ?thesis using concat_map_upt [of "\<lambda>i. patch_position w" "h * w" t] by (simp add: mult.assoc)
qed

section \<open>One item\<close>

definition grid_patches :: "vision_grid \<Rightarrow> int" where
  "grid_patches g = sint (vg_temporal g) * sint (vg_height g) * sint (vg_width g)"

text \<open>
  Every position of the grid once per frame, frame after frame and in each of them in the order of the
  merge blocks; the rows are listed before the columns.
\<close>

definition positions_ok :: "vision_grid \<Rightarrow> u32 list \<Rightarrow> bool" where
  "positions_ok g ids \<longleftrightarrow>
     (\<exists>ps. ids = map (of_nat \<circ> fst) ps @ map (of_nat \<circ> snd) ps \<and> int (length ps) = grid_patches g \<and>
        (\<forall>k<length ps. ps ! k = patch_position (nat (sint (vg_width g)))
           (k mod (nat (sint (vg_height g)) * nat (sint (vg_width g))))) \<and>
        (\<forall>y x. int y < sint (vg_height g) \<and> int x < sint (vg_width g) \<longrightarrow> int (count_list ps (y, x)) = sint (vg_temporal g)))"

text \<open>What a control promises of its item.\<close>

definition control_ok :: "u8 list \<Rightarrow> vision_item_control \<Rightarrow> bool" where
  "control_ok types c \<longleftrightarrow>
     vc_scatter_indices c \<noteq> [] \<and> columns_ok types (vc_modality c) 0 (map unat (vc_scatter_indices c)) \<and>
     int (length (vc_scatter_indices c)) = grid_patches (vc_grid c) div 4 \<and>
     unat (vc_merged_count c) = length (vc_scatter_indices c) \<and> positions_ok (vc_grid c) (vc_position_ids c)"

lemma columns_ok_weaken: "columns_ok types e lo cs \<Longrightarrow> columns_ok types e 0 cs"
  by (simp add: columns_ok_def)

lemma patches_exact:
  assumes "cu_loop (nat t) (h * w) [0] = Inr cu" "0 < t" "0 < h" "0 < w"
  shows "unat ((of_int t :: u64) * of_int h * of_int w) = nat (t * h * w)"
proof -
  have "t * (h * w) \<le> 2147483647" using cu_loop_bound [OF assms(1)] assms(2-4) by simp
  moreover have "0 < t * h * w" using assms(2-4) by simp
  ultimately have "take_bit 64 (t * h * w) = t * h * w" by (intro take_bit_int_eq_self) (simp_all add: mult.assoc)
  then show ?thesis by (simp add: unsigned_of_int flip: of_int_mult)
qed

lemma control_complete_columns: "control_complete patches tokens positions columns cu = Inr u \<Longrightarrow> tokens = of_nat columns"
  by (simp add: control_complete_def split: if_splits)

lemma control_item_ok:
  assumes "control_item types patches lo item = Inr (c, p, tokens)"
  shows "control_ok types c \<and> columns_ok types (vc_modality c) (unat lo) (map unat (vc_scatter_indices c)) \<and>
    tokens = of_nat (length (vc_scatter_indices c))"
proof -
  let ?g = "vi_grid item"
  define t h w where "t = sint (vg_temporal ?g)" and "h = sint (vg_height ?g)" and "w = sint (vg_width ?g)"
  define n :: u64 where "n = of_int t * of_int h * of_int w"
  let ?ps = "frame_positions (nat t) (nat h) (nat w)"
  obtain cu sc where pos: "0 < t" "0 < h" "0 < w" and evn: "h mod 2 = 0" "w mod 2 = 0"
    and spans: "length (vi_token_spans item) = (if vi_modality item = kVideo then nat t else 1)"
    and sc: "span_loop types (vi_modality item) (vi_token_spans item) 0 lo [] = Inr (tokens, sc)"
    and cu: "cu_loop (nat t) (h * w) [0] = Inr cu" and tok: "tokens = n div of_int (kMerge * kMerge)"
    and tl: "tokens = of_nat (length sc)"
    and c: "vc_scatter_indices c = sc" "vc_modality c = vi_modality item" "vc_grid c = ?g" "vc_merged_count c = tokens"
      "vc_position_ids c = map (of_nat \<circ> fst) ?ps @ map (of_nat \<circ> snd) ?ps"
    using assms unfolding control_item_def Let_def t_def [symmetric] h_def [symmetric] w_def [symmetric] n_def [symmetric]
    by (auto simp: bind_result_eq_Inr not_le kMerge_def dest: control_complete_columns split: if_splits)
  have "vi_token_spans item \<noteq> []" using spans pos(1) by (auto split: if_splits)
  then have ok: "columns_ok types (vi_modality item) (unat lo) (map unat sc)" "sc \<noteq> []"
    using span_loop_ok [OF sc, of "unat lo"] by (simp_all add: columns_ok_def)
  then have len: "unat tokens = length sc" using columns_ok_length [OF ok(1)] unfolding tl by (simp add: unat_of_nat take_bit_nat_eq_self)
  have "unat tokens = nat (t * h * w) div 4"
    using patches_exact [OF cu pos] unfolding tok n_def by (simp add: unat_div kMerge_def)
  then have merged: "int (unat tokens) = t * h * w div 4" using pos by (simp add: zdiv_int)
  have "even (nat h)" "even (nat w)" using evn pos by (simp_all add: even_nat_iff mod_eq_0_iff_dvd)
  moreover from this have "\<forall>k<length ?ps. ?ps ! k = patch_position (nat w) (k mod (nat h * nat w))"
    by (subst (2) frame_positions_nth) (auto simp: frame_positions_length)
  ultimately have "positions_ok ?g (vc_position_ids c)"
    unfolding positions_ok_def c using pos frame_positions_length [of "nat h" "nat w" "nat t"] frame_positions_count [of "nat h" "nat w"]
    by (intro exI [of _ ?ps]) (auto simp: grid_patches_def t_def h_def w_def)
  then show ?thesis
    using len merged ok c tl columns_ok_weaken [OF ok(1)] by (simp add: control_ok_def grid_patches_def t_def h_def w_def)
qed

section \<open>All items\<close>

definition all_columns :: "vision_item_control list \<Rightarrow> nat list" where
  "all_columns cs = concat (map (\<lambda>c. map unat (vc_scatter_indices c)) cs)"

definition controls_ok :: "u8 list \<Rightarrow> vision_item_control list \<Rightarrow> bool" where
  "controls_ok types cs \<longleftrightarrow> sorted_wrt (<) (all_columns cs) \<and> (\<forall>c\<in>set cs. control_ok types c)"

lemma all_columns_bound: "controls_ok types cs \<Longrightarrow> v \<in> set (all_columns cs) \<Longrightarrow> v < 2 ^ 31"
  by (auto simp: controls_ok_def control_ok_def columns_ok_def all_columns_def)

lemma all_columns_length: "controls_ok types cs \<Longrightarrow> length (all_columns cs) \<le> 2 ^ 31"
proof -
  assume ok: "controls_ok types cs"
  then have "length (all_columns cs) = card (set (all_columns cs))"
    using distinct_card [of "all_columns cs"] by (auto simp: controls_ok_def strict_sorted_iff)
  also have "\<dots> \<le> card {..<2 ^ 31 :: nat}" using all_columns_bound [OF ok] by (intro card_mono) auto
  finally show ?thesis by simp
qed

lemma sorted_last: "sorted_wrt (<) xs \<Longrightarrow> x \<in> set xs \<Longrightarrow> x \<le> (last xs :: nat)"
  by (induction xs) (auto intro: less_imp_le)

lemma first_free_above:
  assumes ok: "controls_ok types out" and tokens: "tokens = of_nat (length (all_columns out))"
  shows "\<forall>v\<in>set (all_columns out). v < unat (first_free_column tokens out)"
proof (cases "out = []")
  case False
  then have last: "control_ok types (last out)" using ok by (simp add: controls_ok_def)
  then have ne: "vc_scatter_indices (last out) \<noteq> []" by (simp add: control_ok_def)
  have split: "all_columns out = all_columns (butlast out) @ map unat (vc_scatter_indices (last out))"
    by (subst (1) append_butlast_last_id [OF False, symmetric]) (simp add: all_columns_def)
  let ?v = "last (vc_scatter_indices (last out))"
  have top: "last (all_columns out) = unat ?v" using split ne by (simp add: last_map)
  have "all_columns out \<noteq> []" using split ne by simp
  then have "length (all_columns out) \<noteq> 0" "last (all_columns out) \<in> set (all_columns out)" by simp_all
  then have v: "unat ?v < 2 ^ 31" using all_columns_bound [OF ok] top by simp
  have "unat tokens = length (all_columns out)"
    using all_columns_length [OF ok] unfolding tokens by (simp add: unat_of_nat take_bit_nat_eq_self)
  then have "tokens \<noteq> 0" using \<open>length (all_columns out) \<noteq> 0\<close> by auto
  then have "first_free_column tokens out = scast ?v + 1" by (simp add: first_free_column_def)
  moreover have "?v \<le> 0x7FFFFFFF" unfolding word_le_nat_alt using v by simp
  then have "(scast ?v :: u64) = ucast ?v" by (simp only: scast_eq ucast_eq sint_small)
  ultimately have "unat (first_free_column tokens out) = unat ?v + 1"
    using unat_add_no_overflow [of "ucast ?v :: u64" 1] v by simp
  then show ?thesis using sorted_last [of "all_columns out"] ok top by (auto simp: controls_ok_def less_Suc_eq_le)
qed (simp add: all_columns_def)

lemma control_loop_ok:
  assumes "control_loop types items patches tokens out = Inr (p, k, cs)"
    and "controls_ok types out" "tokens = of_nat (length (all_columns out))"
  shows "controls_ok types cs \<and> length cs = length out + length items"
  using assms
proof (induction items arbitrary: patches tokens out)
  case (Cons item items)
  obtain c n m where c: "control_item types patches (first_free_column tokens out) item = Inr (c, n, m)"
    and rest: "control_loop types items (patches + n) (tokens + m) (out @ [c]) = Inr (p, k, cs)"
    using Cons.prems(1) by (auto simp: bind_result_eq_Inr)
  note ok = control_item_ok [OF c]
  have cols: "all_columns (out @ [c]) = all_columns out @ map unat (vc_scatter_indices c)" by (simp add: all_columns_def)
  have "sorted_wrt (<) (all_columns (out @ [c]))"
    unfolding cols sorted_wrt_append
    using Cons.prems(2) ok first_free_above [OF Cons.prems(2,3)] by (auto simp: controls_ok_def columns_ok_def intro: less_le_trans)
  then have "controls_ok types (out @ [c])" using Cons.prems(2) ok by (simp add: controls_ok_def)
  moreover have "tokens + m = of_nat (length (all_columns (out @ [c])))" using Cons.prems(3) ok by (simp add: cols)
  ultimately show ?case using Cons.IH [OF rest] by simp
qed simp

lemma build_controls_ok:
  assumes "build_vision_control prompt = Inr cs"
  shows "controls_ok (pp_token_types prompt) cs" and "length cs = length (pp_vision_items prompt)"
    and "length (pp_token_types prompt) = length (pp_token_ids prompt)"
proof -
  obtain p k where "control_loop (pp_token_types prompt) (pp_vision_items prompt) 0 0 [] = Inr (p, k, cs)"
    and types: "length (pp_token_types prompt) = length (pp_token_ids prompt)"
    using assms by (auto simp: build_vision_control_def bind_result_eq_Inr split: if_splits)
  from control_loop_ok [OF this(1)] show "controls_ok (pp_token_types prompt) cs" "length cs = length (pp_vision_items prompt)"
    by (simp_all add: controls_ok_def all_columns_def)
  show "length (pp_token_types prompt) = length (pp_token_ids prompt)" by (rule types)
qed

text \<open>
  C20: A prompt whose vision control is built has its embedding columns in order: over all items they
  are strictly increasing, inside the prompt and of the item's token type, each item has one column
  per two-by-two block of patches, and its position ids visit every patch of the grid once per frame, in
  the order in which the patches of a block are merged.
\<close>

theorem vision_columns_exact:
  assumes "build_vision_control prompt = Inr cs"
  shows "length cs = length (pp_vision_items prompt) \<and>
    sorted_wrt (<) (concat (map (\<lambda>c. map unat (vc_scatter_indices c)) cs)) \<and>
    (\<forall>c\<in>set cs. vc_scatter_indices c \<noteq> [] \<and> int (length (vc_scatter_indices c)) = grid_patches (vc_grid c) div 4 \<and>
       (\<forall>v\<in>set (vc_scatter_indices c). unat v < length (pp_token_ids prompt) \<and> pp_token_types prompt ! unat v = vc_modality c) \<and>
       positions_ok (vc_grid c) (vc_position_ids c))"
  using build_controls_ok [OF assms] by (auto simp: controls_ok_def control_ok_def columns_ok_def all_columns_def)

definition demo_prompt :: planned_prompt where
  "demo_prompt = \<lparr> pp_token_ids = [7, 8, 9, 9, 8, 9, 7], pp_token_types = [0, 0, 1, 1, 0, 1, 0], pp_positions = replicate 21 0,
     pp_vision_items = [
       \<lparr> vi_modality = 1, vi_grid = \<lparr> vg_temporal = 1, vg_height = 2, vg_width = 4 \<rparr>, vi_patch_begin = 0, vi_patch_count = 8,
         vi_content_digest = [], vi_timestamps = [], vi_token_spans = [\<lparr> ts_begin = 2, ts_count = 2 \<rparr>] \<rparr>,
       \<lparr> vi_modality = 1, vi_grid = \<lparr> vg_temporal = 1, vg_height = 2, vg_width = 2 \<rparr>, vi_patch_begin = 8, vi_patch_count = 4,
         vi_content_digest = [], vi_timestamps = [], vi_token_spans = [\<lparr> ts_begin = 5, ts_count = 1 \<rparr>] \<rparr>],
     pp_turn_closure_frontiers = [2], pp_raw_patches = 12, pp_vision_tokens = 3 \<rparr>"

lemma demo_builds: "succeeds (build_vision_control demo_prompt)"
  by code_simp

theorem vision_columns_exact_witness:
  "\<exists>cs. build_vision_control demo_prompt = Inr cs \<and> length cs = 2 \<and>
     sorted_wrt (<) (concat (map (\<lambda>c. map unat (vc_scatter_indices c)) cs))"
proof -
  obtain cs where "build_vision_control demo_prompt = Inr cs" using demo_builds by (auto simp: succeeds_iff)
  then show ?thesis using vision_columns_exact [of demo_prompt cs] by (simp add: demo_prompt_def)
qed

end
