(* ===== verification/Prefill_Schedule.thy ===== *)
theory Prefill_Schedule
  imports Vision_Control
begin

text \<open>
  How a prompt is cut into prefill steps (\<^verbatim>\<open>prefill_schedule.h\<close>, \<^verbatim>\<open>vision_prefill.h\<close>, and the vision
  spans of \<^verbatim>\<open>request_plan_impl.h\<close>). The loops subtract a step length from the remaining tokens and end
  only if no step is empty; they are partial functions, and not returning is the value \<open>None\<close>. The
  theory shows that they return for every plan the planner accepts, and what the steps are.
\<close>

section \<open>Chunks\<close>

definition kPrefillChunkAlignment :: u32 where "kPrefillChunkAlignment = 128"
definition kIrregularPrefillSplit :: u32 where "kIrregularPrefillSplit = 4096"

definition select_prefill_chunk :: "u32 \<Rightarrow> u32 \<Rightarrow> u32" where
  "select_prefill_chunk remaining maximum =
     (let nominal = min remaining maximum in
      if maximum > kIrregularPrefillSplit \<and> nominal > kIrregularPrefillSplit \<and> nominal mod kPrefillChunkAlignment \<noteq> 0
      then kIrregularPrefillSplit else nominal)"

partial_function (option) chunk_count_loop :: "u32 \<Rightarrow> u32 \<Rightarrow> u64 \<Rightarrow> u64 option" where
  "chunk_count_loop maximum tokens cnt =
     (if tokens \<noteq> 0 then chunk_count_loop maximum (tokens - select_prefill_chunk tokens maximum) (cnt + 1) else Some cnt)"

definition prefill_chunk_count :: "u32 \<Rightarrow> u32 \<Rightarrow> u64 option" where
  "prefill_chunk_count tokens maximum = chunk_count_loop maximum tokens 0"

text \<open>\<^verbatim>\<open>std::upper_bound\<close> on the sorted frontiers finds the first one above \<open>first\<close>.\<close>

definition cap_prefill_at_frontiers :: "u32 \<Rightarrow> u32 \<Rightarrow> u32 list \<Rightarrow> u32" where
  "cap_prefill_at_frontiers first len frontiers =
     (case dropWhile (\<lambda>f. f \<le> first) frontiers of [] \<Rightarrow> len | nxt # _ \<Rightarrow> min len (nxt - first))"

section \<open>Vision spans\<close>

record vision_use_span =
  vu_begin :: u32
  vu_text_begin :: u32
  vu_end :: u32
  vu_item_index :: u32
  vu_output_begin :: u64

fun vision_loop :: "vision_use_span list \<Rightarrow> nat \<Rightarrow> u32 \<Rightarrow> u32 \<Rightarrow> nat option \<Rightarrow> u32 \<times> nat option" where
  "vision_loop [] index first stop active = (stop, active)"
| "vision_loop (use # uses) index first stop active =
     (if vu_end use \<le> first then vision_loop uses (index + 1) first stop active
      else if vu_begin use \<ge> stop then (stop, active)
      else case active of
          None \<Rightarrow>
            if first < vu_text_begin use
            then let stop = min stop (vu_text_begin use) in (stop, if vu_begin use < stop then Some index else None)
            else vision_loop uses (index + 1) first stop (Some index)
        | Some _ \<Rightarrow> (min stop (vu_begin use), active))"

definition select_vision_prefill_chunk :: "vision_use_span list \<Rightarrow> u32 \<Rightarrow> u32 \<Rightarrow> u32 \<times> nat option" where
  "select_vision_prefill_chunk uses first len =
     (let (stop, active) = vision_loop uses 0 first (first + len) None in (stop - first, active))"

text \<open>
  The spans of a cold request. How much workspace an item needs and how much there is are arguments:
  a plan that exceeds it is refused.
\<close>

definition use_begin :: "bool \<Rightarrow> u32 \<Rightarrow> u32" where
  "use_begin mtp column = (if mtp \<and> column \<noteq> 0 then column - 1 else column)"

fun cold_uses_loop ::
  "(vision_item_control \<Rightarrow> u64) \<Rightarrow> u64 \<Rightarrow> bool \<Rightarrow> u32 \<Rightarrow> vision_item_control list \<Rightarrow> u32 \<Rightarrow> vision_use_span list \<Rightarrow>
     vision_use_span list result" where
  "cold_uses_loop workspace_bytes capacity mtp prompt_tokens [] previous_end uses = Inr uses"
| "cold_uses_loop workspace_bytes capacity mtp prompt_tokens (item # items) previous_end uses =
     (if vc_scatter_indices item = [] then Inl Invalid_argument
      else
        let column = hd (vc_scatter_indices item); first = use_begin mtp column;
            stop = last (vc_scatter_indices item) + 1 in
        if first < previous_end then Inl Invalid_argument
        else if stop > prompt_tokens then Inl Invalid_argument
        else if workspace_bytes item > capacity then Inl Invalid_argument
        else cold_uses_loop workspace_bytes capacity mtp prompt_tokens items stop
          (uses @ [\<lparr> vu_begin = first, vu_text_begin = column, vu_end = stop, vu_item_index = 0, vu_output_begin = 0 \<rparr>]))"

definition cold_vision_uses ::
  "(vision_item_control \<Rightarrow> u64) \<Rightarrow> u64 \<Rightarrow> bool \<Rightarrow> u32 \<Rightarrow> vision_item_control list \<Rightarrow> vision_use_span list result" where
  "cold_vision_uses workspace_bytes capacity mtp prompt_tokens items =
     cold_uses_loop workspace_bytes capacity mtp prompt_tokens items 0 []"

text \<open>The spans of a request that reuses the first \<open>reuse_base\<close> tokens.\<close>

fun reuse_uses_loop ::
  "bool \<Rightarrow> u32 \<Rightarrow> vision_item_control list \<Rightarrow> u64 \<Rightarrow> u64 \<Rightarrow> vision_use_span list \<Rightarrow> vision_use_span list result" where
  "reuse_uses_loop prepare_mtp reuse_base [] index total_merged uses = Inr uses"
| "reuse_uses_loop prepare_mtp reuse_base (item # items) index total_merged uses =
     (let column = hd (vc_scatter_indices item); first = use_begin prepare_mtp column;
          stop = last (vc_scatter_indices item) + 1 in
      if stop \<le> reuse_base then reuse_uses_loop prepare_mtp reuse_base items (index + 1) total_merged uses
      else
        let uses = uses @ [\<lparr> vu_begin = first, vu_text_begin = column, vu_end = stop,
                             vu_item_index = ucast index, vu_output_begin = total_merged \<rparr>] in
        if vc_merged_count item > - 1 - total_merged then Inl Overflow_error
        else reuse_uses_loop prepare_mtp reuse_base items (index + 1) (total_merged + vc_merged_count item) uses)"

definition reuse_vision_uses :: "bool \<Rightarrow> u32 \<Rightarrow> vision_item_control list \<Rightarrow> vision_use_span list result" where
  "reuse_vision_uses prepare_mtp reuse_base items = reuse_uses_loop prepare_mtp reuse_base items 0 0 []"

section \<open>Projected work\<close>

definition capped_length :: "planned_prompt \<Rightarrow> u32 \<Rightarrow> u32 option \<Rightarrow> u32 \<Rightarrow> u32 \<Rightarrow> u32" where
  "capped_length prompt maximum rewrite_frontier tokens first =
     (let len = select_prefill_chunk (tokens - first) maximum;
          len = (case rewrite_frontier of None \<Rightarrow> len | Some f \<Rightarrow> if f > first then min len (f - first) else len)
      in if has_media prompt then cap_prefill_at_frontiers first len (pp_turn_closure_frontiers prompt) else len)"

definition prefill_step ::
  "planned_prompt \<Rightarrow> u32 \<Rightarrow> vision_use_span list \<Rightarrow> u32 option \<Rightarrow> u32 \<Rightarrow> u32 \<Rightarrow> u32" where
  "prefill_step prompt maximum uses rewrite_frontier tokens first =
     fst (select_vision_prefill_chunk uses first (capped_length prompt maximum rewrite_frontier tokens first))"

partial_function (option) work_loop :: "(u32 \<Rightarrow> u32) \<Rightarrow> u32 \<Rightarrow> u32 \<Rightarrow> u64 \<Rightarrow> u64 option" where
  "work_loop step tokens first cnt =
     (if first < tokens then work_loop step tokens (first + step first) (cnt + 1) else Some cnt)"

definition projected_prefill_work ::
  "planned_prompt \<Rightarrow> u32 \<Rightarrow> u32 \<Rightarrow> vision_use_span list \<Rightarrow> u32 option \<Rightarrow> u64 option" where
  "projected_prefill_work prompt reuse_base maximum uses rewrite_frontier =
     (let tokens = of_nat (length (pp_token_ids prompt)) in
      if tokens = reuse_base then Some 1
      else work_loop (prefill_step prompt maximum uses rewrite_frontier tokens) tokens reuse_base 0)"

definition projected_service_work ::
  "u64 \<Rightarrow> planned_prompt \<Rightarrow> u32 \<Rightarrow> u32 \<Rightarrow> vision_use_span list \<Rightarrow> u32 option \<Rightarrow> u64 option" where
  "projected_service_work effective_output_tokens prompt reuse_base prefill_step_tokens uses rewrite =
     map_option (\<lambda>prefill_units. prefill_units + (if effective_output_tokens = 0 then 0 else effective_output_tokens - 1))
       (projected_prefill_work prompt reuse_base prefill_step_tokens uses rewrite)"

section \<open>Chunks add up\<close>

lemma select_bounds:
  assumes "remaining \<noteq> 0" "maximum \<noteq> 0"
  shows "0 < unat (select_prefill_chunk remaining maximum)"
    and "unat (select_prefill_chunk remaining maximum) \<le> unat remaining"
    and "unat (select_prefill_chunk remaining maximum) \<le> unat maximum"
  using assms unfolding select_prefill_chunk_def Let_def kIrregularPrefillSplit_def
  by (auto simp: min_def word_less_nat_alt word_le_nat_alt unat_gt_0)

lemma unat_minus_le: "unat b \<le> unat a \<Longrightarrow> unat (a - b) = unat a - unat (b :: 'a :: len word)"
  by (simp add: unat_sub word_le_nat_alt)

text \<open>
  The chunks in closed form. The end of a prompt is taken whole if it is short or aligned, and cut
  at the irregular split otherwise. A limit that is not aligned and above the split is never used in
  full: chunks of the split come first, until fewer tokens than the limit are left.
\<close>

definition chunk_tail :: "nat \<Rightarrow> nat list" where
  "chunk_tail r =
     (if r = 0 then [] else if r \<le> 4096 \<or> 128 dvd r then [r]
      else replicate ((r - 1) div 4096) 4096 @ [r - 4096 * ((r - 1) div 4096)])"

definition split_count :: "nat \<Rightarrow> nat \<Rightarrow> nat" where
  "split_count m t = (if t < m then 0 else (t - m) div 4096 + 1)"

definition chunk_plan :: "nat \<Rightarrow> nat \<Rightarrow> nat list" where
  "chunk_plan m t =
     (if m \<le> 4096 then replicate (t div m) m @ (if t mod m = 0 then [] else [t mod m])
      else if 128 dvd m then replicate (t div m) m @ chunk_tail (t mod m)
      else replicate (split_count m t) 4096 @ chunk_tail (t - 4096 * split_count m t))"

definition chunk_choice :: "nat \<Rightarrow> nat \<Rightarrow> nat" where
  "chunk_choice t m = (if 4096 < m \<and> 4096 < min t m \<and> \<not> 128 dvd min t m then 4096 else min t m)"

lemma unat_select: "unat (select_prefill_chunk remaining maximum) = chunk_choice (unat remaining) (unat maximum)"
proof -
  let ?n = "min remaining maximum"
  have u: "unat ?n = min (unat remaining) (unat maximum)" by (simp add: min_def word_le_nat_alt)
  have "?n mod kPrefillChunkAlignment = 0 \<longleftrightarrow> 128 dvd unat ?n"
    unfolding kPrefillChunkAlignment_def by (simp add: word_eq_iff_unsigned unat_mod dvd_eq_mod_eq_0 flip: unat_eq_zero)
  then show ?thesis
    unfolding select_prefill_chunk_def Let_def kIrregularPrefillSplit_def chunk_choice_def u [symmetric]
    by (simp add: word_less_nat_alt)
qed

lemma chunk_tail_step:
  assumes "4096 < r" "\<not> 128 dvd r"
  shows "chunk_tail r = 4096 # chunk_tail (r - 4096)"
proof -
  have nd: "\<not> 128 dvd r - 4096" using assms dvd_diffD [of 128 r 4096] by auto
  then have pos: "r - 4096 \<noteq> 0" by (metis dvd_0_right)
  have "(r - 1) div 4096 = Suc ((r - 4096 - 1) div 4096)" using assms(1) pos le_div_geq [of 4096 "r - 1"] by simp
  moreover have "(r - 4096 - 1) div 4096 = 0" if "r - 4096 \<le> 4096" using that pos by simp
  ultimately show ?thesis using assms nd pos by (cases "r - 4096 \<le> 4096") (simp_all add: chunk_tail_def)
qed

lemma chunk_tail_choice:
  assumes "0 < r" "r < m" "4096 < m"
  shows "chunk_tail r = chunk_choice r m # chunk_tail (r - chunk_choice r m)"
  using assms chunk_tail_step [of r] by (auto simp: chunk_choice_def chunk_tail_def [of 0] chunk_tail_def [of r] not_less)

lemma chunk_plan_step:
  assumes t: "0 < t" and m: "0 < m"
  shows "chunk_plan m t = chunk_choice t m # chunk_plan m (t - chunk_choice t m)"
proof (cases "t < m")
  case True
  show ?thesis
  proof (cases "m \<le> 4096")
    case False
    have "chunk_plan m r = chunk_tail r" if "r \<le> t" for r
      using that True False by (simp add: chunk_plan_def split_count_def)
    then show ?thesis using chunk_tail_choice [of t m] t True False by simp
  qed (use t True in \<open>simp add: chunk_plan_def chunk_choice_def\<close>)
next
  case False
  then have le: "m \<le> t" by simp
  show ?thesis
  proof (cases "m \<le> 4096 \<or> 128 dvd m")
    case True
    then have c: "chunk_choice t m = m" using le by (auto simp: chunk_choice_def min_def)
    have "t div m = Suc ((t - m) div m)" "t mod m = (t - m) mod m"
      using le m by (simp_all add: le_div_geq le_mod_geq)
    then show ?thesis unfolding c using True by (auto simp: chunk_plan_def)
  next
    case odd: False
    then have c: "chunk_choice t m = 4096" using le by (auto simp: chunk_choice_def min_def)
    have "split_count m t = Suc (split_count m (t - 4096))"
    proof (cases "t - 4096 < m")
      case False
      then have "4096 \<le> t - m" "t - 4096 - m = t - m - 4096" using odd by auto
      then show ?thesis using False le by (simp add: split_count_def le_div_geq)
    qed (use le in \<open>simp add: split_count_def\<close>)
    then show ?thesis unfolding c using odd by (simp add: chunk_plan_def)
  qed
qed

lemma chunk_plan_0 [simp]: "0 < m \<Longrightarrow> chunk_plan m 0 = []"
  by (simp add: chunk_plan_def chunk_tail_def split_count_def)

lemma chunk_choice_bounds:
  "0 < t \<Longrightarrow> 0 < m \<Longrightarrow> 0 < chunk_choice t m \<and> chunk_choice t m \<le> t \<and> chunk_choice t m \<le> m"
  by (auto simp: chunk_choice_def)

lemma chunk_plan_divides:
  assumes m: "0 < m"
  shows "sum_list (chunk_plan m t) = t \<and> (\<forall>c\<in>set (chunk_plan m t). 0 < c \<and> c \<le> m) \<and>
    (4096 < m \<or> 128 dvd m \<longrightarrow> (\<forall>c\<in>set (butlast (chunk_plan m t)). 128 dvd c))"
proof (induction t rule: less_induct)
  case (less t)
  show ?case
  proof (cases "t = 0")
    case False
    let ?c = "chunk_choice t m"
    let ?r = "chunk_plan m (t - ?c)"
    have b: "0 < ?c" "?c \<le> t" "?c \<le> m" using chunk_choice_bounds [of t m] m False by auto
    then have "t - ?c < t" using False by simp
    note IH = less [OF this]
    have aligned: "128 dvd ?c" if "?r \<noteq> []" "4096 < m \<or> 128 dvd m"
    proof -
      have "?c \<noteq> t" using that(1) m by auto
      then show ?thesis using that(2) by (auto simp: chunk_choice_def min_def split: if_splits)
    qed
    have "sum_list (?c # ?r) = t" using IH b(2) by simp
    moreover have "\<forall>c\<in>set (?c # ?r). 0 < c \<and> c \<le> m" using IH b by simp
    moreover have "\<forall>c\<in>set (butlast (?c # ?r)). 128 dvd c" if "4096 < m \<or> 128 dvd m"
      using IH that aligned by simp
    moreover have "chunk_plan m t = ?c # ?r" using False m by (intro chunk_plan_step) simp_all
    ultimately show ?thesis by metis
  qed (use m in simp)
qed

lemma chunk_count_plan:
  assumes "maximum \<noteq> 0"
  shows "chunk_count_loop maximum tokens cnt = Some (cnt + of_nat (length (chunk_plan (unat maximum) (unat tokens))))"
proof (induction "unat tokens" arbitrary: tokens cnt rule: less_induct)
  case less
  have m: "0 < unat maximum" using assms by (simp add: unat_gt_0)
  show ?case
  proof (cases "tokens = 0")
    case True
    then show ?thesis using m by (simp add: chunk_count_loop.simps)
  next
    case False
    let ?c = "select_prefill_chunk tokens maximum"
    note b = select_bounds [OF False assms]
    have left: "unat (tokens - ?c) = unat tokens - unat ?c" using b(2) by (rule unat_minus_le)
    then have "chunk_count_loop maximum (tokens - ?c) (cnt + 1)
        = Some (cnt + 1 + of_nat (length (chunk_plan (unat maximum) (unat tokens - unat ?c))))"
      using less [of "tokens - ?c" "cnt + 1"] b(1,2) by simp
    then show ?thesis using False chunk_plan_step [of "unat tokens" "unat maximum"] m
      by (subst chunk_count_loop.simps) (simp add: unat_select unat_gt_0 algebra_simps)
  qed
qed

lemma chunk_count_diverges: "tokens \<noteq> 0 \<Longrightarrow> chunk_count_loop 0 tokens cnt = None"
proof -
  have "m = 0 \<longrightarrow> t = 0" if "chunk_count_loop m t c = Some v" for m t c v
    by (rule chunk_count_loop.raw_induct [of "\<lambda>m t c v. m = 0 \<longrightarrow> t = 0", OF _ that])
      (auto simp: select_prefill_chunk_def Let_def kIrregularPrefillSplit_def split: if_splits)
  then show "tokens \<noteq> 0 \<Longrightarrow> chunk_count_loop 0 tokens cnt = None" by fastforce
qed

text \<open>
  C32: Counting the chunks of a prefill ends exactly when there is nothing to prefill or the chunk
  limit is positive, and the count is that of the chunks in closed form: full chunks of the limit and
  a rest for a limit up to 4096 or a multiple of 128, where a rest above 4096 that is not a multiple
  of 128 is cut at 4096; chunks of 4096 first for every other limit. These are the chunks the
  selection makes one after the other. They are nonempty and within the limit and add up to the
  tokens, and where the limit is a multiple of 128 or above 4096 all of them but the last are
  multiples of 128.
\<close>

theorem prefill_chunk_count_exact:
  "prefill_chunk_count tokens maximum =
     (if tokens = 0 then Some 0 else if maximum = 0 then None
      else Some (of_nat (length (chunk_plan (unat maximum) (unat tokens))))) \<and>
   (tokens \<noteq> 0 \<and> maximum \<noteq> 0 \<longrightarrow>
      (let cs = chunk_plan (unat maximum) (unat tokens); c = select_prefill_chunk tokens maximum in
       cs = unat c # chunk_plan (unat maximum) (unat (tokens - c)) \<and>
       sum_list cs = unat tokens \<and> (\<forall>c\<in>set cs. 0 < c \<and> c \<le> unat maximum) \<and>
       (4096 < unat maximum \<or> 128 dvd unat maximum \<longrightarrow> (\<forall>c\<in>set (butlast cs). 128 dvd c))))"
proof (intro conjI impI)
  show "prefill_chunk_count tokens maximum =
     (if tokens = 0 then Some 0 else if maximum = 0 then None
      else Some (of_nat (length (chunk_plan (unat maximum) (unat tokens)))))"
    using chunk_count_plan [of maximum tokens 0] chunk_count_diverges [of tokens 0]
    by (simp add: prefill_chunk_count_def chunk_count_loop.simps [of _ 0])
next
  assume pos: "tokens \<noteq> 0 \<and> maximum \<noteq> 0"
  then have "chunk_plan (unat maximum) (unat tokens) = unat (select_prefill_chunk tokens maximum) #
      chunk_plan (unat maximum) (unat (tokens - select_prefill_chunk tokens maximum))"
    using chunk_plan_step [of "unat tokens" "unat maximum"] unat_minus_le [OF select_bounds(2) [of tokens maximum]]
    by (simp add: unat_select unat_gt_0)
  moreover have "0 < unat maximum" using pos by (simp add: unat_gt_0)
  note chunk_plan_divides [OF this, of "unat tokens"]
  ultimately show "let cs = chunk_plan (unat maximum) (unat tokens); c = select_prefill_chunk tokens maximum in
       cs = unat c # chunk_plan (unat maximum) (unat (tokens - c)) \<and>
       sum_list cs = unat tokens \<and> (\<forall>c\<in>set cs. 0 < c \<and> c \<le> unat maximum) \<and>
       (4096 < unat maximum \<or> 128 dvd unat maximum \<longrightarrow> (\<forall>c\<in>set (butlast cs). 128 dvd c))"
    unfolding Let_def by (rule conjI)
qed

theorem prefill_chunk_count_exact_witness:
  "prefill_chunk_count 13292 8192 = Some 3 \<and> chunk_plan 8192 13292 = [8192, 4096, 1004] \<and>
   sum_list (chunk_plan 8192 13292) = 13292"
proof -
  have "chunk_plan 8192 13292 = [8192, 4096, 1004]" by (simp add: chunk_plan_def chunk_tail_def)
  then show ?thesis using prefill_chunk_count_exact [of 13292 8192, THEN conjunct1] by simp
qed

section \<open>Steps over vision spans\<close>

text \<open>Spans in order, each with its text columns at its end.\<close>

definition uses_ordered :: "vision_use_span list \<Rightarrow> bool" where
  "uses_ordered uses \<longleftrightarrow>
     sorted_wrt (\<lambda>u v. vu_end u \<le> vu_begin v) uses \<and> (\<forall>u\<in>set uses. vu_begin u \<le> vu_text_begin u \<and> vu_text_begin u < vu_end u)"

text \<open>The step from \<open>a\<close> to \<open>b\<close> reads the embeddings of \<open>u\<close>.\<close>

definition meets :: "u32 \<Rightarrow> u32 \<Rightarrow> vision_use_span \<Rightarrow> bool" where
  "meets a b u \<longleftrightarrow> vu_begin u < b \<and> a < vu_end u"

lemma uses_ordered_Cons:
  "uses_ordered (u # us) \<longleftrightarrow> vu_begin u \<le> vu_text_begin u \<and> vu_text_begin u < vu_end u \<and>
     (\<forall>v\<in>set us. vu_end u \<le> vu_begin v) \<and> uses_ordered us"
  by (auto simp: uses_ordered_def)

lemma vision_loop_active:
  assumes "uses_ordered us" "\<forall>v\<in>set us. p < vu_begin v" "p < stop"
  shows "\<exists>e. vision_loop us i p stop (Some k) = (e, Some k) \<and> p < e \<and> e \<le> stop \<and> (\<forall>v\<in>set us. e \<le> vu_begin v)"
proof (cases us)
  case (Cons u vs)
  have u: "vu_begin u < vu_end u" "p < vu_begin u" and vs: "\<forall>v\<in>set vs. vu_begin u < vu_begin v"
    using assms(1,2) by (auto simp: Cons uses_ordered_Cons)
  then have "\<not> vu_end u \<le> p" by simp
  then show ?thesis
    using assms(3) u vs Cons by (cases "stop \<le> vu_begin u") (auto simp: min_def not_le)
qed (use assms in simp)

text \<open>The active index names exactly the span the step reads.\<close>

definition active_exact :: "u32 \<Rightarrow> u32 \<Rightarrow> vision_use_span list \<Rightarrow> nat \<Rightarrow> nat option \<Rightarrow> bool" where
  "active_exact p e us i act \<longleftrightarrow>
     (\<forall>j<length us. meets p e (us ! j) \<longleftrightarrow> act = Some (i + j)) \<and> (\<forall>k. act = Some k \<longrightarrow> i \<le> k)"

lemma active_exact_Cons:
  "(act = Some i \<and> meets p e u \<and> (\<forall>v\<in>set us. \<not> meets p e v)) \<or> (\<not> meets p e u \<and> active_exact p e us (Suc i) act) \<Longrightarrow>
   active_exact p e (u # us) i act"
  by (auto simp: active_exact_def All_less_Suc2 dest: Suc_leD)

lemma active_exact_none: "\<forall>v\<in>set us. \<not> meets p e v \<Longrightarrow> active_exact p e us i None"
  by (simp add: active_exact_def)

lemma vision_loop_none:
  assumes "uses_ordered us" "p < stop"
  shows "\<exists>e act. vision_loop us i p stop None = (e, act) \<and> p < e \<and> e \<le> stop \<and> active_exact p e us i act \<and>
    (\<forall>u\<in>set us. \<not> (p < vu_text_begin u \<and> vu_text_begin u < e))"
  using assms
proof (induction us arbitrary: i)
  case (Cons u us)
  have u: "vu_begin u \<le> vu_text_begin u" "vu_text_begin u < vu_end u" and us: "\<forall>v\<in>set us. vu_end u \<le> vu_begin v" "uses_ordered us"
    using Cons.prems(1) by (auto simp: uses_ordered_Cons)
  have tb: "\<forall>v\<in>set us. vu_begin v \<le> vu_text_begin v" using us(2) by (auto simp: uses_ordered_def)
  have beyond: "\<forall>v\<in>set us. \<not> meets p e v \<and> \<not> (p < vu_text_begin v \<and> vu_text_begin v < e)" if "\<forall>v\<in>set us. e \<le> vu_begin v" for e
    using that tb by (force simp: meets_def)
  consider "vu_end u \<le> p" | "p < vu_end u" "stop \<le> vu_begin u" | "p < vu_end u" "vu_begin u < stop" "p < vu_text_begin u"
    | "p < vu_end u" "vu_begin u < stop" "vu_text_begin u \<le> p" by force
  then show ?case
  proof cases
    case 1
    then have "\<not> meets p e u" "\<not> p < vu_text_begin u" for e using u by (auto simp: meets_def)
    then show ?thesis using Cons.IH [OF us(2) Cons.prems(2), of "i + 1"] 1 by (force intro: active_exact_Cons)
  next
    case 2
    then have far: "\<forall>v\<in>set us. stop \<le> vu_begin v" using u us(1) by force
    have "\<not> meets p stop u" "\<not> vu_text_begin u < stop" using 2 u by (auto simp: meets_def)
    then show ?thesis using 2 beyond [OF far] Cons.prems(2) by (force intro: active_exact_none)
  next
    case 3
    let ?e = "min stop (vu_text_begin u)"
    have far: "\<forall>v\<in>set us. ?e \<le> vu_begin v" using u us(1) by (force simp: min_le_iff_disj)
    have "active_exact p ?e (u # us) i (if vu_begin u < ?e then Some i else None)"
      using beyond [OF far] 3(1) by (auto simp: meets_def intro!: active_exact_Cons active_exact_none)
    then show ?thesis using 3 beyond [OF far] Cons.prems(2) by (auto simp: Let_def not_le)
  next
    case 4
    have "\<forall>v\<in>set us. p < vu_begin v" using 4(1) us(1) by force
    from vision_loop_active [OF us(2) this Cons.prems(2), of "i + 1" i] obtain e where
      e: "vision_loop us (i + 1) p stop (Some i) = (e, Some i)" "p < e" "e \<le> stop" and far: "\<forall>v\<in>set us. e \<le> vu_begin v" by blast
    have "meets p e u" using 4 u e(2) by (auto simp: meets_def)
    then show ?thesis using 4 e beyond [OF far] by (auto simp: not_le intro!: active_exact_Cons)
  qed
qed (simp add: active_exact_def)

section \<open>Spans of a plan are ordered\<close>

definition item_first :: "vision_item_control \<Rightarrow> u32" where "item_first c = hd (vc_scatter_indices c)"
definition item_stop :: "vision_item_control \<Rightarrow> u32" where "item_stop c = last (vc_scatter_indices c) + 1"

lemma control_ok_span: "control_ok types c \<Longrightarrow> item_first c < item_stop c"
proof -
  assume "control_ok types c"
  then have ne: "vc_scatter_indices c \<noteq> []" and ok: "columns_ok types (vc_modality c) 0 (map unat (vc_scatter_indices c))"
    by (auto simp: control_ok_def)
  have "unat (hd (vc_scatter_indices c)) \<le> unat (last (vc_scatter_indices c))"
    using sorted_last [of "map unat (vc_scatter_indices c)" "unat (hd (vc_scatter_indices c))"] ok ne
    by (simp add: columns_ok_def last_map)
  moreover have "unat (last (vc_scatter_indices c)) < 2 ^ 31" using ok ne by (auto simp: columns_ok_def)
  then have "unat (item_stop c) = unat (last (vc_scatter_indices c)) + 1"
    unfolding item_stop_def by (subst unat_add_no_overflow) simp_all
  ultimately show ?thesis by (simp add: item_first_def word_less_nat_alt)
qed

lemma use_begin_le: "use_begin mtp column \<le> column"
  by (auto simp: use_begin_def word_le_nat_alt unat_minus_one)

lemma use_begin_mono: "(prepare \<longrightarrow> mtp) \<Longrightarrow> use_begin mtp column \<le> use_begin prepare column"
  using use_begin_le [of mtp column] by (auto simp: use_begin_def)

lemma cold_uses_ordered:
  assumes "cold_uses_loop workspace_bytes capacity mtp tokens items prev uses = Inr uses'" "\<forall>c\<in>set items. control_ok types c"
  shows "sorted_wrt (\<lambda>a b. item_stop a \<le> use_begin mtp (item_first b)) items \<and> (\<forall>c\<in>set items. prev \<le> use_begin mtp (item_first c))"
  using assms
proof (induction items arbitrary: prev uses)
  case (Cons item items)
  have le: "prev \<le> use_begin mtp (item_first item)"
    and rest: "\<exists>uses. cold_uses_loop workspace_bytes capacity mtp tokens items (item_stop item) uses = Inr uses'"
    using Cons.prems(1) by (auto simp: Let_def not_less item_first_def item_stop_def split: if_splits)
  have IH: "sorted_wrt (\<lambda>a b. item_stop a \<le> use_begin mtp (item_first b)) items"
    "\<forall>c\<in>set items. item_stop item \<le> use_begin mtp (item_first c)" using rest Cons.IH Cons.prems(2) by auto
  have "prev \<le> item_stop item"
    using le use_begin_le [of mtp "item_first item"] control_ok_span [of types item] Cons.prems(2) by force
  then show ?case using le IH by force
qed simp

lemma reuse_uses_sub:
  assumes "reuse_uses_loop prepare base items index merged uses = Inr uses'"
  shows "\<exists>us. uses' = uses @ us \<and>
    map (\<lambda>u. (vu_begin u, vu_text_begin u, vu_end u)) us =
      map (\<lambda>c. (use_begin prepare (item_first c), item_first c, item_stop c)) (filter (\<lambda>c. \<not> item_stop c \<le> base) items)"
  using assms
proof (induction items arbitrary: index merged uses)
  case (Cons item items)
  show ?case
  proof (cases "item_stop item \<le> base")
    case True
    then show ?thesis using Cons.IH [of "index + 1" merged uses] Cons.prems by (simp add: Let_def item_stop_def)
  next
    case False
    define u where "u = \<lparr> vu_begin = use_begin prepare (item_first item), vu_text_begin = item_first item, vu_end = item_stop item,
      vu_item_index = ucast index, vu_output_begin = merged \<rparr>"
    have "reuse_uses_loop prepare base items (index + 1) (merged + vc_merged_count item) (uses @ [u]) = Inr uses'"
      using Cons.prems False by (simp add: Let_def item_stop_def item_first_def u_def split: if_splits)
    from Cons.IH [OF this] obtain us where us: "uses' = (uses @ [u]) @ us"
      "map (\<lambda>u. (vu_begin u, vu_text_begin u, vu_end u)) us =
        map (\<lambda>c. (use_begin prepare (item_first c), item_first c, item_stop c)) (filter (\<lambda>c. \<not> item_stop c \<le> base) items)" by blast
    show ?thesis using False us by (intro exI [of _ "u # us"]) (simp add: u_def)
  qed
qed simp

lemma reuse_uses_ordered:
  assumes items: "controls_ok types items" and cold: "cold_vision_uses workspace_bytes capacity mtp tokens items = Inr cold"
    and reuse: "reuse_vision_uses prepare base items = Inr uses" and mtp: "prepare \<longrightarrow> mtp"
  shows "uses_ordered uses"
proof -
  define kept where "kept = filter (\<lambda>c. \<not> item_stop c \<le> base) items"
  define proj where "proj = (\<lambda>u :: vision_use_span. (vu_begin u, vu_text_begin u, vu_end u))"
  have maps: "map proj uses = map (\<lambda>c. (use_begin prepare (item_first c), item_first c, item_stop c)) kept"
    using reuse_uses_sub reuse by (force simp: reuse_vision_uses_def kept_def proj_def)
  have ok: "\<forall>c\<in>set kept. control_ok types c" using items by (auto simp: controls_ok_def kept_def)
  have "sorted_wrt (\<lambda>a b. item_stop a \<le> use_begin mtp (item_first b)) kept"
    unfolding kept_def using cold_uses_ordered [of workspace_bytes capacity mtp tokens items 0 "[]" cold types] cold items
    by (auto simp: cold_vision_uses_def controls_ok_def intro: sorted_wrt_filter)
  then have "sorted_wrt (\<lambda>a b. item_stop a \<le> use_begin prepare (item_first b)) kept"
    by (rule sorted_wrt_mono_rel [rotated]) (use use_begin_mono [OF mtp] order_trans in blast)
  then have "sorted_wrt (\<lambda>u v. snd (snd u) \<le> fst v) (map proj uses)" unfolding maps by (simp add: sorted_wrt_map)
  then have "sorted_wrt (\<lambda>u v. vu_end u \<le> vu_begin v) uses" by (simp add: sorted_wrt_map proj_def)
  moreover have "\<forall>p\<in>set (map proj uses). fst p \<le> fst (snd p) \<and> fst (snd p) < snd (snd p)"
    unfolding maps using ok control_ok_span use_begin_le by auto
  ultimately show ?thesis by (simp add: uses_ordered_def proj_def)
qed

section \<open>The projection returns\<close>

lemma cap_frontiers:
  assumes "sorted fr" "0 < unat len"
  shows "0 < unat (cap_prefill_at_frontiers p len fr) \<and> unat (cap_prefill_at_frontiers p len fr) \<le> unat len \<and>
    (\<forall>f\<in>set fr. p < f \<longrightarrow> unat p + unat (cap_prefill_at_frontiers p len fr) \<le> unat f)"
proof -
  have above: "f \<in> set (dropWhile (\<lambda>f. f \<le> p) fr)" if "f \<in> set fr" "p < f" for f
    using that by (metis Un_iff leD set_append set_takeWhileD takeWhile_dropWhile_id)
  show ?thesis
  proof (cases "dropWhile (\<lambda>f. f \<le> p) fr")
    case Nil
    then have "cap_prefill_at_frontiers p len fr = len" by (simp only: cap_prefill_at_frontiers_def list.case)
    then show ?thesis using Nil above assms(2) by fastforce
  next
    case (Cons nxt rest)
    have "\<not> nxt \<le> p" using hd_dropWhile [of "\<lambda>f. f \<le> p" fr] unfolding Cons by simp
    then have nxt: "unat p < unat nxt" by (simp add: word_le_nat_alt)
    then have d: "unat (nxt - p) = unat nxt - unat p" by (intro unat_minus_le) simp
    have "sorted (nxt # rest)" using sorted_dropWhile [OF assms(1), of "\<lambda>f. f \<le> p"] Cons by simp
    then have "unat nxt \<le> unat f" if "f \<in> set fr" "p < f" for f using above [OF that] Cons by (auto simp: word_le_nat_alt)
    moreover have "cap_prefill_at_frontiers p len fr = min len (nxt - p)" by (simp only: cap_prefill_at_frontiers_def Cons list.case)
    ultimately show ?thesis using d nxt assms(2) by (fastforce simp: min_def word_le_nat_alt)
  qed
qed

definition step_ok :: "planned_prompt \<Rightarrow> u32 \<Rightarrow> vision_use_span list \<Rightarrow> u32 option \<Rightarrow> u32 \<Rightarrow> u32 \<Rightarrow> bool" where
  "step_ok prompt maximum uses rewrite a b \<longleftrightarrow>
     unat b - unat a \<le> unat maximum \<and> (\<forall>f. rewrite = Some f \<longrightarrow> \<not> (a < f \<and> f < b)) \<and>
     (has_media prompt \<longrightarrow> (\<forall>f\<in>set (pp_turn_closure_frontiers prompt). \<not> (a < f \<and> f < b))) \<and>
     (\<forall>u\<in>set uses. \<not> (a < vu_text_begin u \<and> vu_text_begin u < b)) \<and>
     (\<forall>i<length uses. \<forall>j<length uses. meets a b (uses ! i) \<and> meets a b (uses ! j) \<longrightarrow> i = j)"

fun covers :: "(u32 \<Rightarrow> u32 \<Rightarrow> bool) \<Rightarrow> u32 \<Rightarrow> u32 list \<Rightarrow> u32 \<Rightarrow> bool" where
  "covers ok a [] stop = (a = stop)"
| "covers ok a (b # bs) stop = (a < b \<and> ok a b \<and> covers ok b bs stop)"

lemma capped_length_ok:
  assumes p: "p < tokens" and m: "maximum \<noteq> 0" and fr: "sorted (pp_turn_closure_frontiers prompt)"
    and len: "len = capped_length prompt maximum rewrite tokens p"
  shows "0 < unat len" and "unat p + unat len \<le> unat tokens" and "unat len \<le> unat maximum"
    and "\<forall>f. rewrite = Some f \<longrightarrow> p < f \<longrightarrow> unat p + unat len \<le> unat f"
    and "has_media prompt \<longrightarrow> (\<forall>f\<in>set (pp_turn_closure_frontiers prompt). p < f \<longrightarrow> unat p + unat len \<le> unat f)"
proof -
  define l1 where "l1 = select_prefill_chunk (tokens - p) maximum"
  define l2 where "l2 = (case rewrite of None \<Rightarrow> l1 | Some f \<Rightarrow> if f > p then min l1 (f - p) else l1)"
  have l3: "len = (if has_media prompt then cap_prefill_at_frontiers p l2 (pp_turn_closure_frontiers prompt) else l2)"
    by (simp only: len capped_length_def l1_def l2_def Let_def)
  have left: "unat (tokens - p) = unat tokens - unat p" using p by (intro unat_minus_le) (simp add: word_less_nat_alt)
  have l1: "0 < unat l1" "unat l1 \<le> unat tokens - unat p" "unat l1 \<le> unat maximum"
    using select_bounds [of "tokens - p" maximum] m p left by (auto simp: l1_def)
  have l2: "0 < unat l2 \<and> unat l2 \<le> unat l1 \<and> (\<forall>f. rewrite = Some f \<longrightarrow> p < f \<longrightarrow> unat p + unat l2 \<le> unat f)"
  proof (cases "\<exists>f. rewrite = Some f \<and> p < f")
    case True
    then obtain f where f: "rewrite = Some f" "p < f" by blast
    then have "unat p < unat f" by (simp add: word_less_nat_alt)
    moreover from this have "unat (f - p) = unat f - unat p" by (intro unat_minus_le) simp
    ultimately show ?thesis using f l1(1) by (auto simp: l2_def min_def word_le_nat_alt)
  qed (use l1(1) in \<open>auto simp: l2_def split: option.splits\<close>)
  then have cap: "0 < unat len \<and> unat len \<le> unat l2 \<and>
      (has_media prompt \<longrightarrow> (\<forall>f\<in>set (pp_turn_closure_frontiers prompt). p < f \<longrightarrow> unat p + unat len \<le> unat f))"
    using cap_frontiers [OF fr, of l2 p] by (simp add: l3)
  then show "0 < unat len" "has_media prompt \<longrightarrow> (\<forall>f\<in>set (pp_turn_closure_frontiers prompt). p < f \<longrightarrow> unat p + unat len \<le> unat f)"
    by simp_all
  show "unat len \<le> unat maximum" "\<forall>f. rewrite = Some f \<longrightarrow> p < f \<longrightarrow> unat p + unat len \<le> unat f"
    using l1(3) l2 cap by fastforce+
  have "unat p < unat tokens" using p by (simp add: word_less_nat_alt)
  then show "unat p + unat len \<le> unat tokens" using l1(2) l2 cap by linarith
qed

lemma prefill_step_ok:
  assumes p: "p < tokens" and m: "maximum \<noteq> 0" and fr: "sorted (pp_turn_closure_frontiers prompt)" and uses: "uses_ordered uses"
  shows "\<exists>e. p + prefill_step prompt maximum uses rewrite tokens p = e \<and> p < e \<and> e \<le> tokens \<and> step_ok prompt maximum uses rewrite p e"
proof -
  define len where "len = capped_length prompt maximum rewrite tokens p"
  note len = capped_length_ok [OF p m fr len_def]
  have stop: "unat (p + len) = unat p + unat len"
    using le_less_trans [OF len(2) unat_word_bound] by (intro unat_add_no_overflow)
  have "p < p + len" using len(1) stop by (simp add: word_less_nat_alt)
  from vision_loop_none [OF uses this, of 0] obtain e act where
    v: "vision_loop uses 0 p (p + len) None = (e, act)" and e: "p < e" "e \<le> p + len" "active_exact p e uses 0 act"
      "\<forall>u\<in>set uses. \<not> (p < vu_text_begin u \<and> vu_text_begin u < e)" by blast
  have step: "p + prefill_step prompt maximum uses rewrite tokens p = e"
    using v by (simp add: prefill_step_def select_vision_prefill_chunk_def flip: len_def)
  have le: "unat e \<le> unat p + unat len" using e(2) stop by (simp add: word_le_nat_alt)
  have "step_ok prompt maximum uses rewrite p e"
    unfolding step_ok_def
  proof (intro conjI)
    show "unat e - unat p \<le> unat maximum" using le len(3) by simp
    show "\<forall>f. rewrite = Some f \<longrightarrow> \<not> (p < f \<and> f < e)" using le len(4) by (force simp: word_less_nat_alt)
    show "has_media prompt \<longrightarrow> (\<forall>f\<in>set (pp_turn_closure_frontiers prompt). \<not> (p < f \<and> f < e))"
      using le len(5) by (force simp: word_less_nat_alt)
  qed (use e in \<open>auto simp: active_exact_def\<close>)
  moreover have "e \<le> tokens" using le len(2) by (simp add: word_le_nat_alt)
  ultimately show ?thesis using e(1) step by blast
qed

lemma work_loop_covers:
  assumes "\<And>p. p < tokens \<Longrightarrow> \<exists>e. p + step p = e \<and> p < e \<and> e \<le> tokens \<and> ok p e" "p \<le> tokens"
  shows "\<exists>cuts. work_loop step tokens p cnt = Some (cnt + of_nat (length cuts)) \<and> covers ok p cuts tokens"
  using assms(2)
proof (induction "unat tokens - unat p" arbitrary: p cnt rule: less_induct)
  case less
  show ?case
  proof (cases "p < tokens")
    case True
    then obtain e where e: "p + step p = e" "p < e" "e \<le> tokens" "ok p e" using assms(1) by blast
    then have "unat tokens - unat e < unat tokens - unat p" by (simp add: word_less_nat_alt word_le_nat_alt)
    from less.hyps [OF this e(3), of "cnt + 1"] obtain cuts where
      "work_loop step tokens e (cnt + 1) = Some (cnt + 1 + of_nat (length cuts))" "covers ok e cuts tokens" by blast
    then show ?thesis using True e
      by (intro exI [of _ "e # cuts"]) (subst work_loop.simps, simp add: algebra_simps)
  next
    case False
    then show ?thesis using less.prems by (intro exI [of _ "[]"]) (subst work_loop.simps, simp)
  qed
qed

text \<open>
  C10: For every plan the planner accepts, the projection of prefill work returns. It counts the steps of
  a division of the remaining tokens in which no step is empty or longer than the limit, none runs
  across the rewrite frontier, a turn frontier of a media prompt or the first text column of a vision
  item, and none reads the embeddings of two items.
\<close>

theorem projected_prefill_work_terminates:
  assumes control: "build_vision_control prompt = Inr items"
    and cold: "cold_vision_uses workspace_bytes capacity mtp tokens items = Inr cold"
    and reuse: "reuse_vision_uses prepare reuse_base items = Inr uses" "prepare \<longrightarrow> mtp"
    and tokens: "tokens = of_nat (length (pp_token_ids prompt))" "reuse_base < tokens"
    and maximum: "maximum \<noteq> 0" and frontiers: "sorted (pp_turn_closure_frontiers prompt)"
  shows "\<exists>cuts. projected_prefill_work prompt reuse_base maximum uses rewrite = Some (of_nat (length cuts)) \<and>
    covers (step_ok prompt maximum uses rewrite) reuse_base cuts tokens"
proof -
  have "uses_ordered uses" by (rule reuse_uses_ordered [OF build_controls_ok(1) [OF control] cold reuse])
  from prefill_step_ok [OF _ maximum frontiers this]
  have "\<exists>cuts. work_loop (prefill_step prompt maximum uses rewrite tokens) tokens reuse_base 0 = Some (0 + of_nat (length cuts)) \<and>
      covers (step_ok prompt maximum uses rewrite) reuse_base cuts tokens"
    by (rule work_loop_covers) (use tokens(2) in simp_all)
  then show ?thesis using tokens by (auto simp: projected_prefill_work_def Let_def)
qed

lemma demo_plan:
  "succeeds (bind_result (build_vision_control demo_prompt) (\<lambda>items.
     bind_result (cold_vision_uses (\<lambda>_. 0) 100 True 7 items) (\<lambda>_. reuse_vision_uses True 1 items)))"
  by code_simp

theorem projected_prefill_work_terminates_witness:
  "\<exists>items uses cuts. build_vision_control demo_prompt = Inr items \<and> reuse_vision_uses True 1 items = Inr uses \<and>
     projected_prefill_work demo_prompt 1 128 uses (Some 6) = Some (of_nat (length cuts)) \<and>
     covers (step_ok demo_prompt 128 uses (Some 6)) 1 cuts 7"
proof -
  obtain items cold uses where
    plan: "build_vision_control demo_prompt = Inr items" "cold_vision_uses (\<lambda>_. 0) 100 True 7 items = Inr cold"
      "reuse_vision_uses True 1 items = Inr uses" using demo_plan by (auto simp: succeeds_iff bind_result_eq_Inr)
  have "sorted (pp_turn_closure_frontiers demo_prompt)" "7 = of_nat (length (pp_token_ids demo_prompt))"
    by (simp_all add: demo_prompt_def)
  then show ?thesis
    using projected_prefill_work_terminates [OF plan(1) plan(2) plan(3), of 128 "Some 6"] plan(1,3) by auto
qed

end
