(* ===== verification/Response_Store.thy ===== *)
theory Response_Store
  imports Prelude
begin

text \<open>
  The bounded store of responses behind \<^verbatim>\<open>previous_response_id\<close> (\<^verbatim>\<open>serve/response_store.cpp\<close>). Responses
  share the chain of context nodes they continue; the store counts a shared node once and evicts the
  least recently used responses until its limits hold. The theory shows that storing a response that
  passes the checks always succeeds, which records survive, and that every sequence of calls
  keeps the table and the recency list in agreement.

  Context nodes are heap objects: their address is part of the model. The JSON library and the
  sizes of the C++ types are arguments. The hash table is the list of its entries. The mutex makes
  each call one step. Of the request types only the fields the store reads are modelled.
\<close>

section \<open>Contexts\<close>

record content_part =
  cp_text :: string
  cp_type_raw :: string
  cp_source_value :: string
  cp_source_media_type :: string
  cp_source_bytes :: "u8 list"

record tool_call =
  tc_id :: string
  tc_name :: string
  tc_arguments_json :: string

record chat_turn =
  ct_content :: "content_part list"
  ct_tool_calls :: "tool_call list"
  ct_tool_call_id :: string
  ct_reasoning_content :: string

datatype context_node =
  Context_Node (cn_address: u64) (cn_parent: "context_node option") (cn_turns: "chat_turn list") (cn_owned_bytes: u64)

type_synonym response_context = "context_node option"

record 'j stored_response =
  sr_id :: string
  sr_response :: 'j
  sr_input_items :: "'j list"
  sr_context :: response_context
  sr_preserve_thinking :: bool

record 'j store_env =
  se_is_object :: "'j \<Rightarrow> bool"
  se_dump_size :: "'j \<Rightarrow> u64"
  se_sizeof_turn :: u64
  se_sizeof_part :: u64
  se_sizeof_call :: u64
  se_sizeof_response :: u64
  se_sizeof_json :: u64
  se_sizeof_node :: u64

definition string_size :: "'a list \<Rightarrow> u64" where
  "string_size s = of_nat (length s)"

definition estimate_turn_bytes :: "'j store_env \<Rightarrow> chat_turn \<Rightarrow> u64" where
  "estimate_turn_bytes env turn =
     foldl (\<lambda>bytes call. bytes + (se_sizeof_call env + string_size (tc_id call) + string_size (tc_name call) +
              string_size (tc_arguments_json call)))
       (foldl (\<lambda>bytes part. bytes + (se_sizeof_part env + string_size (cp_text part) + string_size (cp_type_raw part) +
                 string_size (cp_source_value part) + string_size (cp_source_media_type part) + string_size (cp_source_bytes part)))
         (se_sizeof_turn env + string_size (ct_tool_call_id turn) + string_size (ct_reasoning_content turn))
         (ct_content turn))
       (ct_tool_calls turn)"

fun node_chain :: "context_node \<Rightarrow> context_node list" where
  "node_chain (Context_Node address parent turns bytes) =
     Context_Node address parent turns bytes # (case parent of None \<Rightarrow> [] | Some node \<Rightarrow> node_chain node)"

definition context_chain :: "response_context \<Rightarrow> context_node list" where
  "context_chain context = (case context of None \<Rightarrow> [] | Some node \<Rightarrow> node_chain node)"

text \<open>The allocator chooses the address of the new node.\<close>

definition append_response_context :: "'j store_env \<Rightarrow> u64 \<Rightarrow> response_context \<Rightarrow> chat_turn list \<Rightarrow> response_context" where
  "append_response_context env address parent turns =
     Some (Context_Node address parent turns
       (foldl (\<lambda>bytes turn. bytes + estimate_turn_bytes env turn) (se_sizeof_node env) turns))"

definition flatten_response_context :: "response_context \<Rightarrow> chat_turn list" where
  "flatten_response_context context = concat (map cn_turns (rev (context_chain context)))"

definition record_envelope_bytes :: "'j store_env \<Rightarrow> 'j stored_response \<Rightarrow> u64" where
  "record_envelope_bytes env r =
     foldl (\<lambda>bytes item. bytes + (se_sizeof_json env + se_dump_size env item))
       (se_sizeof_response env + string_size (sr_id r) + se_dump_size env (sr_response r)) (sr_input_items r)"

definition standalone_bytes :: "'j store_env \<Rightarrow> 'j stored_response \<Rightarrow> u64" where
  "standalone_bytes env r =
     foldl (\<lambda>bytes node. bytes + cn_owned_bytes node) (record_envelope_bytes env r) (context_chain (sr_context r))"

section \<open>The store\<close>

datatype store_error = Store_invalid_argument | Store_logic_error | Store_capacity_exceeded

record 'j response_store =
  rs_max_records :: u64
  rs_max_bytes :: u64
  rs_records :: "(string \<times> 'j stored_response) list"
  rs_lru :: "string list"
  rs_current_bytes :: u64

definition make_store :: "u64 \<Rightarrow> u64 \<Rightarrow> store_error + 'j response_store" where
  "make_store max_records max_bytes =
     (if max_records = 0 \<or> max_bytes = 0 then Inl Store_invalid_argument
      else Inr \<lparr> rs_max_records = max_records, rs_max_bytes = max_bytes, rs_records = [], rs_lru = [], rs_current_bytes = 0 \<rparr>)"

definition store_get :: "string \<Rightarrow> 'j response_store \<Rightarrow> 'j response_store \<times> 'j stored_response option" where
  "store_get i st =
     (case map_of (rs_records st) i of
        None \<Rightarrow> (st, None)
      | Some r \<Rightarrow> (st\<lparr> rs_lru := i # remove1 i (rs_lru st) \<rparr>, Some r))"

fun count_nodes :: "context_node list \<Rightarrow> u64 list \<Rightarrow> u64 \<Rightarrow> u64 list \<times> u64" where
  "count_nodes [] seen bytes = (seen, bytes)"
| "count_nodes (node # nodes) seen bytes =
     (if cn_address node \<in> set seen then count_nodes nodes seen bytes
      else count_nodes nodes (cn_address node # seen) (bytes + cn_owned_bytes node))"

fun recompute_loop :: "'j store_env \<Rightarrow> (string \<times> 'j stored_response) list \<Rightarrow> u64 list \<Rightarrow> u64 \<Rightarrow> u64" where
  "recompute_loop env [] seen bytes = bytes"
| "recompute_loop env (entry # entries) seen bytes =
     (let (seen, bytes) = count_nodes (context_chain (sr_context (snd entry))) seen (bytes + record_envelope_bytes env (snd entry))
      in recompute_loop env entries seen bytes)"

definition recompute_bytes_locked :: "'j store_env \<Rightarrow> (string \<times> 'j stored_response) list \<Rightarrow> u64" where
  "recompute_bytes_locked env records = recompute_loop env records [] 0"

definition erase_locked :: "string \<Rightarrow> 'j response_store \<Rightarrow> 'j response_store" where
  "erase_locked i st =
     (case map_of (rs_records st) i of
        None \<Rightarrow> st
      | Some _ \<Rightarrow> st\<lparr> rs_lru := remove1 i (rs_lru st), rs_records := filter (\<lambda>e. fst e \<noteq> i) (rs_records st) \<rparr>)"

definition refresh_bytes :: "'j store_env \<Rightarrow> 'j response_store \<Rightarrow> 'j response_store" where
  "refresh_bytes env st = st\<lparr> rs_current_bytes := recompute_bytes_locked env (rs_records st) \<rparr>"

definition over_limit :: "'j response_store \<Rightarrow> bool" where
  "over_limit st = (length (rs_records st) > unat (rs_max_records st) \<or> rs_current_bytes st > rs_max_bytes st)"

text \<open>
  The eviction loop skips the response being stored. It erases through the table, so it would not
  progress on an id that is only in the recency list: it is a partial function.
\<close>

partial_function (option) evict_loop ::
  "'j store_env \<Rightarrow> string \<Rightarrow> 'j response_store \<Rightarrow> ('j response_store \<times> (store_error + unit)) option" where
  "evict_loop env own st =
     (if \<not> over_limit st then Some (st, Inr ())
      else if rs_lru st = [] then Some (st, Inl Store_logic_error)
      else if last (rs_lru st) = own \<and> length (rs_lru st) = 1 then Some (st, Inl Store_capacity_exceeded)
      else
        let victim = (if last (rs_lru st) = own then last (butlast (rs_lru st)) else last (rs_lru st))
        in evict_loop env own (refresh_bytes env (erase_locked victim st)))"

definition store_put ::
  "'j store_env \<Rightarrow> 'j stored_response \<Rightarrow> 'j response_store \<Rightarrow> ('j response_store \<times> (store_error + unit)) option" where
  "store_put env r st =
     (if sr_id r = [] \<or> \<not> se_is_object env (sr_response r) then Some (st, Inl Store_invalid_argument)
      else if standalone_bytes env r > rs_max_bytes st then Some (st, Inl Store_capacity_exceeded)
      else if map_of (rs_records st) (sr_id r) \<noteq> None then Some (st, Inl Store_logic_error)
      else evict_loop env (sr_id r) (refresh_bytes env
        (st\<lparr> rs_lru := sr_id r # rs_lru st, rs_records := (sr_id r, r) # rs_records st \<rparr>)))"

definition store_erase :: "'j store_env \<Rightarrow> string \<Rightarrow> 'j response_store \<Rightarrow> 'j response_store \<times> bool" where
  "store_erase env i st =
     (if map_of (rs_records st) i = None then (st, False) else (refresh_bytes env (erase_locked i st), True))"

section \<open>Contexts share their history\<close>

lemma chain_append:
  "context_chain (append_response_context env address parent turns) =
     the (append_response_context env address parent turns) # context_chain parent"
  by (simp add: append_response_context_def context_chain_def)

lemma flatten_append: "flatten_response_context (append_response_context env address parent turns) =
    flatten_response_context parent @ turns"
  unfolding flatten_response_context_def chain_append by (simp add: append_response_context_def)

text \<open>The nodes of one chain are different heap objects.\<close>

definition context_ok :: "response_context \<Rightarrow> bool" where
  "context_ok context \<longleftrightarrow> distinct (map cn_address (context_chain context))"

lemma context_ok_append:
  "context_ok parent \<Longrightarrow> address \<notin> cn_address ` set (context_chain parent) \<Longrightarrow>
   context_ok (append_response_context env address parent turns)"
  unfolding context_ok_def chain_append by (simp add: append_response_context_def)

lemma count_nodes_fresh:
  "distinct (map cn_address nodes) \<Longrightarrow> cn_address ` set nodes \<inter> set seen = {} \<Longrightarrow>
   snd (count_nodes nodes seen bytes) = foldl (\<lambda>bytes node. bytes + cn_owned_bytes node) bytes nodes"
  by (induction nodes arbitrary: seen bytes) auto

lemma recompute_single:
  "context_ok (sr_context r) \<Longrightarrow> recompute_bytes_locked env [(i, r)] = standalone_bytes env r"
  using count_nodes_fresh [of "context_chain (sr_context r)" "[]" "record_envelope_bytes env r"]
  by (simp add: recompute_bytes_locked_def standalone_bytes_def context_ok_def split_def)

section \<open>Well-formed stores\<close>

definition store_wf :: "'j store_env \<Rightarrow> 'j response_store \<Rightarrow> bool" where
  "store_wf env st \<longleftrightarrow>
     distinct (rs_lru st) \<and> distinct (map fst (rs_records st)) \<and> set (rs_lru st) = fst ` set (rs_records st) \<and>
     (\<forall>(i, r)\<in>set (rs_records st). sr_id r = i) \<and> rs_current_bytes st = recompute_bytes_locked env (rs_records st) \<and>
     rs_max_records st \<noteq> 0 \<and> length (rs_records st) \<le> unat (rs_max_records st)"

lemma lookup_none: "map_of records i = None \<longleftrightarrow> i \<notin> fst ` set records"
  by (simp add: map_of_eq_None_iff)

lemma wf_make: "make_store n m = Inr st \<Longrightarrow> store_wf env st"
  by (auto simp: make_store_def store_wf_def recompute_bytes_locked_def split: if_splits)

lemma wf_get: "store_wf env st \<Longrightarrow> store_wf env (fst (store_get i st))"
proof -
  assume wf: "store_wf env st"
  show ?thesis
  proof (cases "map_of (rs_records st) i")
    case (Some r)
    then have "i \<in> fst ` set (rs_records st)" using lookup_none [of "rs_records st" i] by simp
    then have "i \<in> set (rs_lru st)" "distinct (rs_lru st)" using wf by (simp_all add: store_wf_def)
    then have "set (i # remove1 i (rs_lru st)) = set (rs_lru st)" "distinct (i # remove1 i (rs_lru st))" by auto
    then show ?thesis using wf Some unfolding store_get_def store_wf_def by auto
  qed (use wf in \<open>simp add: store_get_def\<close>)
qed

text \<open>The store while a response \<open>r\<close> is stored, with the \<open>k\<close> most recent others left.\<close>

definition kept_records :: "'j stored_response \<Rightarrow> 'j response_store \<Rightarrow> nat \<Rightarrow> (string \<times> 'j stored_response) list" where
  "kept_records r st k = (sr_id r, r) # filter (\<lambda>e. fst e \<in> set (take k (rs_lru st))) (rs_records st)"

definition keeping :: "'j store_env \<Rightarrow> 'j stored_response \<Rightarrow> 'j response_store \<Rightarrow> nat \<Rightarrow> 'j response_store" where
  "keeping env r st k = refresh_bytes env (st\<lparr> rs_lru := sr_id r # take k (rs_lru st), rs_records := kept_records r st k \<rparr>)"

lemma keeping_step:
  assumes wf: "store_wf env st" and new: "sr_id r \<notin> set (rs_lru st)" and k: "k < length (rs_lru st)"
  shows "refresh_bytes env (erase_locked (rs_lru st ! k) (keeping env r st (Suc k))) = keeping env r st k"
proof -
  let ?v = "rs_lru st ! k"
  have t: "take (Suc k) (rs_lru st) = take k (rs_lru st) @ [?v]" using k by (rule take_Suc_conv_app_nth)
  have "distinct (take k (rs_lru st) @ [?v])" using wf by (simp add: store_wf_def flip: t)
  moreover have "?v \<in> set (rs_lru st)" using k by simp
  moreover from this have "?v \<noteq> sr_id r" using new by metis
  moreover have "set (rs_lru st) = fst ` set (rs_records st)" using wf by (simp add: store_wf_def)
  ultimately have v: "?v \<noteq> sr_id r" "?v \<notin> set (take k (rs_lru st))" "?v \<in> fst ` set (rs_records st)" by simp_all
  have lru: "remove1 ?v (sr_id r # take (Suc k) (rs_lru st)) = sr_id r # take k (rs_lru st)"
    using v(1,2) by (simp add: t remove1_append)
  have records: "filter (\<lambda>e. fst e \<noteq> ?v) (kept_records r st (Suc k)) = kept_records r st k"
    using v by (auto simp: kept_records_def t intro!: filter_cong)
  have "map_of (kept_records r st (Suc k)) ?v \<noteq> None" unfolding lookup_none kept_records_def t using v(3) by force
  then show ?thesis by (auto simp: erase_locked_def keeping_def refresh_bytes_def lru records simp del: remove1.simps)
qed

lemma keeping_none:
  assumes "context_ok (sr_context r)" "standalone_bytes env r \<le> rs_max_bytes st" "rs_max_records st \<noteq> 0"
  shows "\<not> over_limit (keeping env r st 0)"
  using assms recompute_single [of r env "sr_id r"] unat_gt_0 [of "rs_max_records st"]
  by (auto simp: over_limit_def keeping_def refresh_bytes_def kept_records_def Suc_le_eq not_less)

lemma evict_keeps:
  assumes wf: "store_wf env st" and new: "sr_id r \<notin> set (rs_lru st)" and one: "\<not> over_limit (keeping env r st 0)"
    and k: "k \<le> length (rs_lru st)"
  shows "\<exists>k'\<le>k. evict_loop env (sr_id r) (keeping env r st k) = Some (keeping env r st k', Inr ()) \<and>
    \<not> over_limit (keeping env r st k') \<and> (\<forall>j. k' < j \<and> j \<le> k \<longrightarrow> over_limit (keeping env r st j))"
  using k
proof (induction k)
  case 0
  show ?case using one by (subst evict_loop.simps) simp
next
  case (Suc k)
  show ?case
  proof (cases "over_limit (keeping env r st (Suc k))")
    case True
    have t: "take (Suc k) (rs_lru st) = take k (rs_lru st) @ [rs_lru st ! k]" using Suc.prems by (intro take_Suc_conv_app_nth) simp
    have "rs_lru st ! k \<noteq> sr_id r" using new Suc.prems nth_mem [of k "rs_lru st"] by force
    then have "evict_loop env (sr_id r) (keeping env r st (Suc k)) = evict_loop env (sr_id r) (keeping env r st k)"
      using True keeping_step [OF wf new, of k] Suc.prems
      by (subst evict_loop.simps) (simp add: keeping_def refresh_bytes_def t)
    with Suc obtain k' where "k' \<le> k" "evict_loop env (sr_id r) (keeping env r st (Suc k)) = Some (keeping env r st k', Inr ())"
      "\<not> over_limit (keeping env r st k')" and upto: "\<forall>j. k' < j \<and> j \<le> k \<longrightarrow> over_limit (keeping env r st j)" by auto
    moreover have "over_limit (keeping env r st j)" if "k' < j" "j \<le> Suc k" for j using upto True that by (cases "j = Suc k") auto
    ultimately show ?thesis by (intro exI [of _ k']) auto
  next
    case False
    then show ?thesis by (intro exI [of _ "Suc k"]) (subst evict_loop.simps, auto)
  qed
qed

lemma keeping_wf:
  assumes wf: "store_wf env st" and new: "sr_id r \<notin> set (rs_lru st)" and fits: "\<not> over_limit (keeping env r st k)"
  shows "store_wf env (keeping env r st k)"
proof -
  let ?old = "filter (\<lambda>e. fst e \<in> set (take k (rs_lru st))) (rs_records st)"
  have same: "set (rs_lru st) = fst ` set (rs_records st)" using wf by (simp add: store_wf_def)
  have sub: "fst ` set ?old \<subseteq> set (rs_lru st)" using same by auto
  have "set (take k (rs_lru st)) \<subseteq> fst ` set (rs_records st)" using same set_take_subset [of k "rs_lru st"] by simp
  then have "set (take k (rs_lru st)) = fst ` set ?old" by force
  moreover have "sr_id r \<notin> set (take k (rs_lru st))" using new in_set_takeD by fastforce
  moreover have "distinct (map fst ?old)" using wf by (simp add: store_wf_def distinct_map_filter)
  ultimately show ?thesis
    using wf fits unfolding store_wf_def keeping_def refresh_bytes_def kept_records_def over_limit_def by auto
qed

lemma put_enters:
  assumes wf: "store_wf env st"
  shows "refresh_bytes env (st\<lparr> rs_lru := sr_id r # rs_lru st, rs_records := (sr_id r, r) # rs_records st \<rparr>) =
    keeping env r st (length (rs_lru st))"
proof -
  have "filter (\<lambda>e. fst e \<in> set (rs_lru st)) (rs_records st) = rs_records st" using wf by (simp add: store_wf_def)
  then show ?thesis by (simp add: keeping_def kept_records_def)
qed

lemma put_keeps:
  assumes wf: "store_wf env st" and new: "sr_id r \<notin> set (rs_lru st)" and ctx: "context_ok (sr_context r)"
    and ok: "sr_id r \<noteq> []" "se_is_object env (sr_response r)" "standalone_bytes env r \<le> rs_max_bytes st"
  shows "\<exists>k\<le>length (rs_lru st). store_put env r st = Some (keeping env r st k, Inr ()) \<and> \<not> over_limit (keeping env r st k) \<and>
    (\<forall>j. k < j \<and> j \<le> length (rs_lru st) \<longrightarrow> over_limit (keeping env r st j))"
proof -
  have "\<not> over_limit (keeping env r st 0)" using keeping_none [OF ctx ok(3)] wf by (simp add: store_wf_def)
  note keeps = evict_keeps [OF wf new this order_refl]
  have "map_of (rs_records st) (sr_id r) = None" using wf new by (simp add: lookup_none store_wf_def)
  then have "store_put env r st = evict_loop env (sr_id r) (keeping env r st (length (rs_lru st)))"
    using ok put_enters [OF wf] by (auto simp: store_put_def)
  then show ?thesis using keeps by simp
qed

text \<open>
  C9: Storing a new response that fits the store by itself always succeeds: the eviction loop ends,
  the error branches inside it are not taken, and the limits hold afterwards. The response is the
  most recent one, and of the others exactly the longest recent prefix that fits survives.
\<close>

theorem put_always_stores:
  assumes "store_wf env st" "sr_id r \<notin> set (rs_lru st)" "context_ok (sr_context r)"
    "sr_id r \<noteq> []" "se_is_object env (sr_response r)" "standalone_bytes env r \<le> rs_max_bytes st"
  shows "\<exists>st' k. store_put env r st = Some (st', Inr ()) \<and> \<not> over_limit st' \<and> k \<le> length (rs_lru st) \<and>
    rs_lru st' = sr_id r # take k (rs_lru st) \<and>
    map_of (rs_records st') = (map_of (rs_records st) |` set (take k (rs_lru st)))(sr_id r \<mapsto> r) \<and>
    (\<forall>j. k < j \<and> j \<le> length (rs_lru st) \<longrightarrow>
       rs_max_bytes st < recompute_bytes_locked env (kept_records r st j) \<or> unat (rs_max_records st) < length (kept_records r st j))"
proof -
  obtain k where k: "k \<le> length (rs_lru st)" "store_put env r st = Some (keeping env r st k, Inr ())"
    "\<not> over_limit (keeping env r st k)" "\<forall>j. k < j \<and> j \<le> length (rs_lru st) \<longrightarrow> over_limit (keeping env r st j)"
    using put_keeps [OF assms(1-6)] by blast
  have "map_of (filter (\<lambda>e. fst e \<in> A) xs) = map_of xs |` A" for A and xs :: "(string \<times> 'a stored_response) list"
    by (induction xs) (auto simp: restrict_map_def fun_eq_iff)
  then have "map_of (rs_records (keeping env r st k)) = (map_of (rs_records st) |` set (take k (rs_lru st)))(sr_id r \<mapsto> r)"
    by (simp add: keeping_def refresh_bytes_def kept_records_def)
  moreover have "rs_lru (keeping env r st k) = sr_id r # take k (rs_lru st)" by (simp add: keeping_def refresh_bytes_def)
  moreover have "over_limit (keeping env r st j) \<longleftrightarrow>
      rs_max_bytes st < recompute_bytes_locked env (kept_records r st j) \<or> unat (rs_max_records st) < length (kept_records r st j)" for j
    by (auto simp: over_limit_def keeping_def refresh_bytes_def)
  ultimately show ?thesis using k by (intro exI [of _ "keeping env r st k"] exI [of _ k]) simp
qed

definition demo_env :: "string store_env" where
  "demo_env = \<lparr> se_is_object = (\<lambda>j. j \<noteq> []), se_dump_size = string_size, se_sizeof_turn = 8, se_sizeof_part = 8,
     se_sizeof_call = 8, se_sizeof_response = 8, se_sizeof_json = 8, se_sizeof_node = 8 \<rparr>"

definition demo_turn :: chat_turn where
  "demo_turn = \<lparr> ct_content = [], ct_tool_calls = [], ct_tool_call_id = [], ct_reasoning_content = ''abc'' \<rparr>"

definition demo_response :: "string \<Rightarrow> string stored_response" where
  "demo_response i = \<lparr> sr_id = i, sr_response = ''{}'', sr_input_items = [], sr_context =
     append_response_context demo_env 2 (append_response_context demo_env 1 None [demo_turn]) [demo_turn], sr_preserve_thinking = False \<rparr>"

definition demo_store :: "string response_store" where
  "demo_store = \<lparr> rs_max_records = 2, rs_max_bytes = 100, rs_records = [(''a'', demo_response ''a''), (''b'', demo_response ''b'')],
     rs_lru = [''b'', ''a''], rs_current_bytes = recompute_bytes_locked demo_env [(''a'', demo_response ''a''), (''b'', demo_response ''b'')] \<rparr>"

lemma demo_context: "context_ok (sr_context (demo_response i))"
  by (simp add: context_ok_def demo_response_def append_response_context_def context_chain_def)

lemma demo_store_wf: "store_wf demo_env demo_store"
  by (auto simp: store_wf_def demo_store_def demo_response_def)

lemma demo_fits: "standalone_bytes demo_env (demo_response ''c'') \<le> rs_max_bytes demo_store"
  by code_simp

theorem put_always_stores_witness:
  "\<exists>st' k. store_put demo_env (demo_response ''c'') demo_store = Some (st', Inr ()) \<and> \<not> over_limit st' \<and>
     rs_lru st' = ''c'' # take k [''b'', ''a'']"
proof -
  have "sr_id (demo_response ''c'') = ''c''" "rs_lru demo_store = [''b'', ''a'']" "se_is_object demo_env (sr_response (demo_response ''c''))"
    by (simp_all add: demo_response_def demo_store_def demo_env_def)
  then show ?thesis using put_always_stores [OF demo_store_wf _ demo_context _ _ demo_fits] by auto
qed

section \<open>Sequences of calls\<close>

datatype 'j store_call = Get_Call string | Put_Call "'j stored_response" | Erase_Call string

fun store_run :: "'j store_env \<Rightarrow> 'j store_call list \<Rightarrow> 'j response_store \<Rightarrow> 'j response_store option" where
  "store_run env [] st = Some st"
| "store_run env (Get_Call i # calls) st = store_run env calls (fst (store_get i st))"
| "store_run env (Put_Call r # calls) st =
     (case store_put env r st of None \<Rightarrow> None | Some (st, _) \<Rightarrow> store_run env calls st)"
| "store_run env (Erase_Call i # calls) st = store_run env calls (fst (store_erase env i st))"

lemma wf_erase:
  assumes wf: "store_wf env st"
  shows "store_wf env (fst (store_erase env i st))"
proof (cases "map_of (rs_records st) i")
  case (Some r)
  have "set (remove1 i (rs_lru st)) = fst ` set (filter (\<lambda>e. fst e \<noteq> i) (rs_records st))" using wf by (auto simp: store_wf_def)
  moreover have "length (filter (\<lambda>e. fst e \<noteq> i) (rs_records st)) \<le> unat (rs_max_records st)"
    by (rule order_trans [OF length_filter_le]) (use wf in \<open>simp add: store_wf_def\<close>)
  ultimately show ?thesis
    using wf Some unfolding store_erase_def store_wf_def refresh_bytes_def erase_locked_def by (auto simp: distinct_map_filter)
qed (use wf in \<open>simp add: store_erase_def\<close>)

lemma wf_put:
  assumes wf: "store_wf env st" and ctx: "context_ok (sr_context r)"
  shows "\<exists>st' res. store_put env r st = Some (st', res) \<and> store_wf env st'"
proof (cases "sr_id r = [] \<or> \<not> se_is_object env (sr_response r) \<or> standalone_bytes env r > rs_max_bytes st \<or> sr_id r \<in> set (rs_lru st)")
  case True
  moreover have "sr_id r \<in> set (rs_lru st) \<longleftrightarrow> map_of (rs_records st) (sr_id r) \<noteq> None" using wf by (simp add: lookup_none store_wf_def)
  ultimately show ?thesis using wf by (auto simp: store_put_def)
next
  case False
  then show ?thesis using put_keeps [OF wf _ ctx] keeping_wf [OF wf] by (auto simp: not_less)
qed

text \<open>
  C24: Every sequence of calls on a fresh store returns and leaves it well-formed: the recency list
  names each record once, every record is stored under its own id, the byte count is that of the
  records, and there are no more of them than allowed.
\<close>

theorem store_calls_well_formed:
  assumes "make_store max_records max_bytes = Inr st0" "\<forall>r. Put_Call r \<in> set calls \<longrightarrow> context_ok (sr_context r)"
  shows "\<exists>st. store_run env calls st0 = Some st \<and> store_wf env st"
proof -
  have "\<exists>st'. store_run env calls st = Some st' \<and> store_wf env st'" if "store_wf env st" for st
    using that assms(2)
  proof (induction calls arbitrary: st)
    case (Cons call calls)
    have rest: "\<exists>st'. store_run env calls st1 = Some st' \<and> store_wf env st'" if "store_wf env st1" for st1
      using Cons.IH [OF that] Cons.prems(2) by simp
    show ?case
    proof (cases call)
      case (Get_Call i)
      then show ?thesis using rest [OF wf_get [OF Cons.prems(1)]] by simp
    next
      case (Erase_Call i)
      then show ?thesis using rest [OF wf_erase [OF Cons.prems(1)]] by simp
    next
      case (Put_Call r)
      then obtain st' res where "store_put env r st = Some (st', res)" "store_wf env st'" using wf_put Cons.prems by fastforce
      then show ?thesis using rest Put_Call by simp
    qed
  qed simp
  then show ?thesis using wf_make [OF assms(1)] by blast
qed

theorem store_calls_well_formed_witness:
  "\<exists>st0 st. make_store 1 100 = Inr st0 \<and>
     store_run demo_env [Put_Call (demo_response ''a''), Put_Call (demo_response ''b''), Get_Call ''b'', Erase_Call ''a''] st0 = Some st \<and>
     store_wf demo_env st"
proof -
  obtain st0 :: "string response_store" where "make_store 1 100 = Inr st0" by (simp add: make_store_def)
  then show ?thesis
    using store_calls_well_formed [of 1 100 st0
        "[Put_Call (demo_response ''a''), Put_Call (demo_response ''b''), Get_Call ''b'', Erase_Call ''a'']" demo_env] demo_context
    by (auto simp del: store_run.simps)
qed

end
