(* ===== verification/Spec2Isabelle.thy ===== *)
theory Spec2Isabelle
  imports Device_Arena Host_Arena Paged_KV_Copies Admission_Policy Kv_Capacity Prefix_Match Prefix_Codec Repetition Journal_Recovery Prefill_Schedule Response_Store
begin

text \<open>
  A verification library for \<^verbatim>\<open>ninfer\<close>, an inference engine for large language models in C++ and
  CUDA. It models the host-side mechanisms that decide which memory a computation may touch, which
  cached work a request may reuse, who is admitted, and what survives a restart.

  \<^bold>\<open>How the parts work together.\<close> A request arrives through the server, which may look up an earlier
  response (\<open>Response_Store\<close>). Its prompt is planned: columns of images and videos
  (\<open>Vision_Control\<close>), prefill steps (\<open>Prefill_Schedule\<close>), and the longest prefix already
  resident (\<open>Prefix_Identity\<close> and its followers). The admission policy (\<open>Admission_Policy\<close>)
  decides when it runs. Running it takes pages of the KV cache (\<open>Paged_KV\<close> and followers), sized at
  startup (\<open>Kv_Capacity\<close>), and scratch memory from the arenas (\<open>Tensor_Layout\<close>,
  \<open>Device_Arena\<close>, \<open>Host_Arena\<close>). Generated tokens are watched for repetition
  (\<open>Repetition\<close>). Evicted pages are packed into host images and written to the disk tier, whose
  formats, checksums and journal are \<open>Disk_Format\<close>, \<open>Crc32c\<close> and \<open>Object_Map\<close>.

  \<^bold>\<open>Conventions.\<close> \<^verbatim>\<open>size_t\<close>, pointers and \<^verbatim>\<open>uint64_t\<close> are 64-bit words and \<^verbatim>\<open>uint32_t\<close> is a 32-bit word:
  arithmetic wraps. Signed extents behind explicit range checks are \<open>int\<close>. A throwing function
  returns a sum whose left side is the exception; a function that changes state before it can throw
  returns the state together with the result. Loops that end on every input are \<open>fun\<close> or
  \<open>function\<close> with a termination proof; loops that may not end are \<open>partial_function (option)\<close>
  with \<open>None\<close> for not returning, and that they return is a theorem. No definition uses fuel.
  CUDA, the processor's checksum instructions, the JSON library and the operating system are
  parameters, with their documented behaviour as named hypotheses and a concrete instance in the
  witnesses.

  \<^bold>\<open>Memory\<close> (\<^verbatim>\<open>src/src/core\<close>, \<^verbatim>\<open>src/src/runtime/engine\<close>).
  \<^item> \<open>Prelude\<close>: words, results and generic lemmas. \<open>Bump_Allocator\<close>: the contract of
    the three bump allocators, as a locale.
  \<^item> \<open>Tensor_Layout\<close>: \<^verbatim>\<open>dtype.cpp\<close>, \<^verbatim>\<open>tensor.cpp\<close>, \<^verbatim>\<open>layout.cpp\<close>. Elements of a tensor lie
    inside its bytes; planned regions bind where they were planned.
  \<^item> \<open>Device_Arena\<close>: \<^verbatim>\<open>DeviceArena\<close> of \<^verbatim>\<open>arena.cu\<close> and \<^verbatim>\<open>request_memory.cpp\<close>. A dry run predicts
    the offsets and the peak of the real run, for requests that are not empty.
  \<^item> \<open>Host_Arena\<close>: \<^verbatim>\<open>HostPinnedArena\<close> of \<^verbatim>\<open>arena.cu\<close>. Live blocks and free spans partition the
    memory in every reachable state, first fit misses no aligned free run, and freeing is exact.
  \<^item> \<open>Kv_Capacity\<close>: \<^verbatim>\<open>kv_capacity.cpp\<close>. The capacity chosen is the largest affordable one.

  \<^bold>\<open>Paged KV cache\<close> (\<^verbatim>\<open>core/paged_kv_cache.cpp\<close>).
  \<^item> \<open>Page_Ledger\<close>: the contract between a page pool and its clients, as a locale.
  \<^item> \<open>Paged_KV\<close> holds the operations; \<open>Paged_KV_Safety\<close>, \<open>Paged_KV_Bundle\<close>,
    \<open>Paged_KV_Static\<close> and \<open>Paged_KV_Publish\<close> their invariants; \<open>Paged_KV_Properties\<close>
    the results: no page has two owners, bundles are atomic, block tables show the mapped pages.
  \<^item> \<open>Paged_KV_Transfer\<close> holds the transfers as the copy commands they issue;
    \<open>Paged_KV_Image\<close>, \<open>Paged_KV_Roundtrip\<close> and \<open>Paged_KV_Copies\<close> what the commands do:
    packing and unpacking restores every byte, copies touch exactly their pages.

  \<^bold>\<open>Requests\<close> (\<^verbatim>\<open>runtime/engine\<close>, \<^verbatim>\<open>runtime/contract\<close>, \<^verbatim>\<open>targets/qwen3_6/impl\<close>, \<^verbatim>\<open>serve\<close>).
  \<^item> \<open>Admission_Policy\<close>: \<^verbatim>\<open>admission_policy.cpp\<close> and the admission decision of
    \<^verbatim>\<open>concurrent_executor.h\<close>. Younger requests never delay a protected one past its frontier:
    after as many rounds of service as the frontier was away it fits beside all that still runs.
  \<^item> \<open>Prefix_Identity\<close>, \<open>Prefix_Hash\<close>, \<open>Prefix_Match\<close>, \<open>Prefix_Codec\<close>:
    \<^verbatim>\<open>prefix_identity.cpp\<close>. Cached hashes equal recomputed ones, the longest match is the longest,
    the packed form is read back exactly.
  \<^item> \<open>Vision_Control\<close>: \<^verbatim>\<open>vision/control.cpp\<close>. \<open>Prefill_Schedule\<close>: \<^verbatim>\<open>prefill_schedule.h\<close>,
    \<^verbatim>\<open>vision_prefill.h\<close> and the spans of \<^verbatim>\<open>request_plan_impl.h\<close>. The order that the first
    establishes is what makes the loops of the second end. The chunks of a prefill are given in closed
    form.
  \<^item> \<open>Repetition\<close>: \<^verbatim>\<open>typical_cycle.h\<close> and \<^verbatim>\<open>reasoning_recovery.h\<close>. The rolling-hash detector
    agrees with a specification that knows no hashes.
  \<^item> \<open>Response_Store\<close>: \<^verbatim>\<open>serve/response_store.cpp\<close>. Storing always succeeds within the limits.

  \<^bold>\<open>Disk tier\<close> (\<^verbatim>\<open>kv_disk_cache.cpp\<close>, \<^verbatim>\<open>kv_disk_format.h\<close>).
  \<^item> \<open>Byte_Codec\<close>: the contract of a reader that inverts a printer, as a locale, interpreted on
    every format. \<open>Disk_Buffer\<close>: \<^verbatim>\<open>OutBuf\<close> and \<^verbatim>\<open>InBuf\<close>.
  \<^item> \<open>Crc32c\<close>: all checksum paths equal the bit-serial one, and checksums combine.
  \<^item> \<open>Disk_Format\<close> and \<open>Disk_Roundtrip\<close>: generation, metadata, fingerprint and
    tombstone files. What was written is read back; torn files are refused.
  \<^item> \<open>Object_Map\<close> and \<open>Journal_Recovery\<close>: checkpoint and journal of object locations. After
    a crash at any byte the map is the one of the complete frames; no file makes objects overlap, or
    makes the allocator hand out an id that is in use.

  \<^bold>\<open>Bounds.\<close> Lengths of containers are naturals where the code compares them with sizes below
  \<open>2 ^ 64\<close>. Theorems that sum sizes state the bound under which the sum does not wrap: every
  container that fits the address space satisfies it.

  \<^bold>\<open>Not modelled.\<close> Device kernels and their launchers, streams, graphs and device state: numerical
  code outside the host. Threads of the concurrent executor, of the KV RAM tier and of the disk
  tier: their interleavings depend on events the driver and the operating system report; their
  decisions and file contents are modelled, their scheduling is not. Floating-point computation
  (sampling, draft statistics, interpolation tables): float fields appear as bit patterns or as
  boolean arguments. The tokenizer, grammars, chat templates, JSON schemas, HTTP server, media decoding
  and artifact loading: translations driven by third-party libraries and by data files. The SHA-256
  digest of media, an opaque string of bytes to the prefix identity. Exception
  messages, logging, metrics and the moves of arena handles.
\<close>

end
